(* ===== verification/Mumble_Prelude.thy ===== *)
theory Mumble_Prelude
  imports Main "HOL-Library.Word"
begin

unbundle bit_operations_syntax

text \<open>
  What every component of the model shares: the C types, the ways a C function can end, bounded
  reads and writes of memory, and the bit-level lemmas on bytes that carry the proofs about the wire
  formats.

  A C function that always returns is a HOL function into \<open>'a res\<close>: \<open>Inr x\<close> is a return with
  the result \<open>x\<close>, \<open>Inl f\<close> is an execution that ends in the fault \<open>f\<close> (a failed \<open>assert\<close>, a call of
  \<open>abort\<close>, an access outside an object, a NULL dereference). A C function that may run forever is a
  HOL function into \<open>'a comp\<close>, where \<open>None\<close> is an execution that never returns.
\<close>

section \<open>C types\<close>

type_synonym byte = "8 word"
type_synonym bytes = "byte list"
type_synonym u16 = "16 word"
type_synonym u32 = "32 word"
type_synonym i32 = "32 word"
type_synonym u64 = "64 word"

section \<open>How a C function ends\<close>

datatype fault = Assert_failed | Aborted | Out_of_bounds | Null_deref

type_synonym 'a res = "fault + 'a"
type_synonym 'a comp = "(fault + 'a) option"

abbreviation ok :: "'a \<Rightarrow> 'a comp" where
  "ok x \<equiv> Some (Inr x)"

abbreviation faults :: "fault \<Rightarrow> 'a comp" where
  "faults f \<equiv> Some (Inl f)"

abbreviation never_returns :: "'a comp" where
  "never_returns \<equiv> None"

named_theorems run_simps \<open>evaluation of sequences of fallible C statements\<close>
named_theorems byte_bits \<open>bits of the mask constants and of shifted bytes\<close>

definition rbind :: "'a res \<Rightarrow> ('a \<Rightarrow> 'b res) \<Rightarrow> 'b res" where
  "rbind m k = (case m of Inl f \<Rightarrow> Inl f | Inr x \<Rightarrow> k x)"

definition cbind :: "'a comp \<Rightarrow> ('a \<Rightarrow> 'b comp) \<Rightarrow> 'b comp" where
  "cbind m k = Option.bind m (\<lambda>r. case r of Inl f \<Rightarrow> Some (Inl f) | Inr x \<Rightarrow> k x)"

lemma rbind_simps [simp, run_simps]:
  "rbind (Inl f) k = Inl f"
  "rbind (Inr x) k = k x"
  by (simp_all add: rbind_def)

lemma cbind_simps [simp, run_simps]:
  "cbind None k = None"
  "cbind (faults f) k = faults f"
  "cbind (ok x) k = k x"
  by (simp_all add: cbind_def)

lemma rbind_Inr_iff: "rbind m k = Inr y \<longleftrightarrow> (\<exists>x. m = Inr x \<and> k x = Inr y)"
  by (cases m) auto

lemma cbind_ok_iff: "cbind m k = ok y \<longleftrightarrow> (\<exists>x. m = ok x \<and> k x = ok y)"
  by (cases m rule: option.exhaust; cases "the m") auto

lemma rbind_assoc: "rbind (rbind m f) g = rbind m (\<lambda>x. rbind (f x) g)"
  by (cases m) simp_all

lemma cbind_assoc: "cbind (cbind m k) h = cbind m (\<lambda>x. cbind (k x) h)"
  by (cases m) (auto simp: cbind_def split: sum.splits)

lemma cbind_None_iff: "cbind m k = None \<longleftrightarrow> m = None \<or> (\<exists>x. m = ok x \<and> k x = None)"
  by (cases m) (auto simp: cbind_def split: sum.splits)

lemma cbind_mono [partial_function_mono]:
  assumes "mono_option m" and "\<And>y. mono_option (\<lambda>f. k f y)"
  shows "mono_option (\<lambda>f. cbind (m f) (k f))"
  unfolding cbind_def
proof (rule bind_mono [OF assms(1)])
  fix r
  show "mono_option (\<lambda>f. case r of Inl e \<Rightarrow> faults e | Inr x \<Rightarrow> k f x)"
    by (cases r) (simp_all add: assms(2) monotoneI option.leq_refl)
qed

text \<open>A \<open>for\<close> loop over a list of indices, whose body may fault, and the two ways to reason about it: an
  invariant, and a closed form of the state after every number of rounds.\<close>

fun for_each :: "('i \<Rightarrow> 's \<Rightarrow> 's res) \<Rightarrow> 'i list \<Rightarrow> 's \<Rightarrow> 's res" where
  "for_each f [] s = Inr s"
| "for_each f (i # is) s = rbind (f i s) (for_each f is)"

lemma for_each_append: "for_each f (xs @ ys) s = rbind (for_each f xs s) (for_each f ys)"
  by (induction xs arbitrary: s) (auto simp: rbind_def split: sum.splits)

lemma for_each_cong:
  "(\<And>i s. i \<in> set is \<Longrightarrow> f i s = g i s) \<Longrightarrow> for_each f is s = for_each g is s"
  by (induction "is" arbitrary: s) (auto simp: rbind_def split: sum.splits)

lemma for_each_closed:
  assumes "\<And>i. i < n \<Longrightarrow> f i (g i) = Inr (g (Suc i))"
  shows "for_each f [0..<n] (g 0) = Inr (g n)"
  using assms
proof (induction n)
  case (Suc n)
  then have "for_each f [0..<n] (g 0) = Inr (g n)" and "f n (g n) = Inr (g (Suc n))"
    by simp_all
  then show ?case by (simp add: for_each_append)
qed simp

section \<open>Memory\<close>

text \<open>
  The object a pointer points into is the list of the bytes from the pointer to the end of the
  object. A \<open>memcpy\<close> into it is \<open>poke\<close>, a \<open>memcpy\<close> out of it is \<open>peek\<close>: both fault where C
  would access bytes outside the object.
\<close>

definition peek :: "bytes \<Rightarrow> nat \<Rightarrow> nat \<Rightarrow> bytes res" where
  "peek mem off n =
     (if off + n \<le> length mem then Inr (take n (drop off mem)) else Inl Out_of_bounds)"

definition poke :: "bytes \<Rightarrow> nat \<Rightarrow> bytes \<Rightarrow> bytes res" where
  "poke mem off xs =
     (if off + length xs \<le> length mem
      then Inr (take off mem @ xs @ drop (off + length xs) mem) else Inl Out_of_bounds)"

lemma peek_Inr [simp]: "off + n \<le> length mem \<Longrightarrow> peek mem off n = Inr (take n (drop off mem))"
  by (simp add: peek_def)

lemma poke_Inr [simp]:
  "off + length xs \<le> length mem
    \<Longrightarrow> poke mem off xs = Inr (take off mem @ xs @ drop (off + length xs) mem)"
  by (simp add: poke_def)

lemma poke_length: "poke mem off xs = Inr mem' \<Longrightarrow> length mem' = length mem"
  by (auto simp: poke_def split: if_splits)

section \<open>Bytes, bit by bit\<close>

lemma less_8_iff:
  "n < 8 \<longleftrightarrow> n = 0 \<or> n = 1 \<or> n = 2 \<or> n = 3 \<or> n = 4 \<or> n = 5 \<or> n = 6 \<or> n = (7::nat)"
  by arith

lemma all_less_8:
  "(\<forall>n<8. P n) \<longleftrightarrow> P 0 \<and> P 1 \<and> P 2 \<and> P 3 \<and> P 4 \<and> P 5 \<and> P 6 \<and> P (7::nat)"
  unfolding less_8_iff by blast

lemma byte_eq_bits: "(a :: byte) = b \<longleftrightarrow> (\<forall>n<8. bit a n = bit b n)"
  by (auto intro: bit_word_eqI)

lemma word_less_bit:
  "(v :: u64) < 2 ^ n \<Longrightarrow> n < 64 \<Longrightarrow> bit v k \<Longrightarrow> k < n"
  by (metis bit_take_bit_iff less_mask_eq take_bit_eq_mask)

lemma word_ge_bit:
  assumes "\<not> (v :: u64) < 2 ^ n" and "n < 64"
  shows "\<exists>k\<ge>n. bit v k"
proof (rule ccontr)
  assume "\<not> ?thesis"
  then have "take_bit n v = v"
    by (auto intro!: bit_word_eqI simp: bit_take_bit_iff not_le)
  moreover have "take_bit n v < 2 ^ n"
    using assms(2) by (simp add: take_bit_eq_mask and_mask_less')
  ultimately show False
    using assms(1) by simp
qed

text \<open>
  The simplifier reduces a bit of a word literal to a bit of an integer literal, so the mask constants
  are described as integers.
\<close>

lemma bit_0x0F [byte_bits]: "bit (0x0F :: int) n \<longleftrightarrow> n < 4"
proof -
  have eq: "(0x0F :: int) = mask 4" by (simp add: mask_eq_exp_minus_1)
  show ?thesis unfolding eq by (simp add: bit_simps)
qed

lemma bit_0x1F [byte_bits]: "bit (0x1F :: int) n \<longleftrightarrow> n < 5"
proof -
  have eq: "(0x1F :: int) = mask 5" by (simp add: mask_eq_exp_minus_1)
  show ?thesis unfolding eq by (simp add: bit_simps)
qed

lemma bit_0x3F [byte_bits]: "bit (0x3F :: int) n \<longleftrightarrow> n < 6"
proof -
  have eq: "(0x3F :: int) = mask 6" by (simp add: mask_eq_exp_minus_1)
  show ?thesis unfolding eq by (simp add: bit_simps)
qed

lemma bit_0x7F [byte_bits]: "bit (0x7F :: int) n \<longleftrightarrow> n < 7"
proof -
  have eq: "(0x7F :: int) = mask 7" by (simp add: mask_eq_exp_minus_1)
  show ?thesis unfolding eq by (simp add: bit_simps)
qed

lemma bit_0xFF [byte_bits]: "bit (0xFF :: int) n \<longleftrightarrow> n < 8"
proof -
  have eq: "(0xFF :: int) = mask 8" by (simp add: mask_eq_exp_minus_1)
  show ?thesis unfolding eq by (simp add: bit_simps)
qed

lemma bit_0x80 [byte_bits]: "bit (0x80 :: int) n \<longleftrightarrow> n = 7"
proof -
  have eq: "(0x80 :: int) = 2 ^ 7" by simp
  show ?thesis by (simp only: eq bit_exp_iff) auto
qed

lemma bit_0xC0 [byte_bits]: "bit (0xC0 :: int) n \<longleftrightarrow> 6 \<le> n \<and> n < 8"
proof -
  have eq: "(0xC0 :: int) = push_bit 6 (mask 2)" by (simp add: mask_eq_exp_minus_1)
  show ?thesis unfolding eq by (auto simp: bit_simps)
qed

lemma bit_0xE0 [byte_bits]: "bit (0xE0 :: int) n \<longleftrightarrow> 5 \<le> n \<and> n < 8"
proof -
  have eq: "(0xE0 :: int) = push_bit 5 (mask 3)" by (simp add: mask_eq_exp_minus_1)
  show ?thesis unfolding eq by (auto simp: bit_simps)
qed

lemma bit_0xF0 [byte_bits]: "bit (0xF0 :: int) n \<longleftrightarrow> 4 \<le> n \<and> n < 8"
proof -
  have eq: "(0xF0 :: int) = push_bit 4 (mask 4)" by (simp add: mask_eq_exp_minus_1)
  show ?thesis unfolding eq by (auto simp: bit_simps)
qed

lemma bit_0x3F00 [byte_bits]: "bit (0x3F00 :: int) n \<longleftrightarrow> 8 \<le> n \<and> n < 14"
proof -
  have eq: "(0x3F00 :: int) = push_bit 8 (mask 6)" by (simp add: mask_eq_exp_minus_1)
  show ?thesis unfolding eq by (auto simp: bit_simps)
qed

lemma bit_0x1F0000 [byte_bits]: "bit (0x1F0000 :: int) n \<longleftrightarrow> 16 \<le> n \<and> n < 21"
proof -
  have eq: "(0x1F0000 :: int) = push_bit 16 (mask 5)" by (simp add: mask_eq_exp_minus_1)
  show ?thesis unfolding eq by (auto simp: bit_simps)
qed

lemma bit_0x0F000000 [byte_bits]: "bit (0x0F000000 :: int) n \<longleftrightarrow> 24 \<le> n \<and> n < 28"
proof -
  have eq: "(0x0F000000 :: int) = push_bit 24 (mask 4)" by (simp add: mask_eq_exp_minus_1)
  show ?thesis unfolding eq by (auto simp: bit_simps)
qed

lemma bit_0xFFFFFFFF00000000 [byte_bits]: "bit (0xFFFFFFFF00000000 :: int) n \<longleftrightarrow> 32 \<le> n \<and> n < 64"
proof -
  have eq: "(0xFFFFFFFF00000000 :: int) = push_bit 32 (mask 32)" by (simp add: mask_eq_exp_minus_1)
  show ?thesis unfolding eq by (auto simp: bit_simps)
qed

end
