(* ===== verification/Codec_Interface.thy ===== *)
theory Codec_Interface
  imports Mumble_Prelude
begin

text \<open>
  The contract the wire formats of the program share: an encoding that can be read back from the
  front of a longer byte stream. \<open>enc\<close> and \<open>dec\<close> are the operations of the provider, \<open>valid\<close> the
  values for which it keeps the contract. The clients' lemmas (injectivity, no encoding is a prefix
  of another one, a whole stream of encodings decodes to the values written) are proved here once;
  the varints and the control frames interpret the locale on their own definitions.
\<close>

fun decode_many :: "('b list \<Rightarrow> ('a \<times> 'b list) option) \<Rightarrow> nat \<Rightarrow> 'b list \<Rightarrow> ('a list \<times> 'b list) option"
  where
  "decode_many dec 0 bs = Some ([], bs)"
| "decode_many dec (Suc n) bs =
     (case dec bs of None \<Rightarrow> None
      | Some (x, bs') \<Rightarrow> map_option (\<lambda>(xs, rest). (x # xs, rest)) (decode_many dec n bs'))"

locale self_delimiting =
  fixes enc :: "'a \<Rightarrow> 'b list"
    and dec :: "'b list \<Rightarrow> ('a \<times> 'b list) option"
    and valid :: "'a \<Rightarrow> bool"
  assumes dec_enc: "valid x \<Longrightarrow> dec (enc x @ rest) = Some (x, rest)"
    and enc_nonempty: "valid x \<Longrightarrow> enc x \<noteq> []"
begin

lemma enc_cancel:
  assumes "valid x" and "valid y" and "enc x @ xs = enc y @ ys"
  shows "x = y \<and> xs = ys"
proof -
  have "Some (x, xs) = dec (enc x @ xs)"
    using assms(1) by (simp add: dec_enc)
  also have "\<dots> = dec (enc y @ ys)"
    by (simp only: assms(3))
  also have "\<dots> = Some (y, ys)"
    using assms(2) by (rule dec_enc)
  finally show ?thesis by simp
qed

lemma enc_inj: "valid x \<Longrightarrow> valid y \<Longrightarrow> enc x = enc y \<Longrightarrow> x = y"
  using enc_cancel [of x y "[]" "[]"] by simp

lemma enc_not_prefix: "valid x \<Longrightarrow> valid y \<Longrightarrow> enc y = enc x @ zs \<Longrightarrow> zs = []"
  using enc_cancel [of x y zs "[]"] by simp

lemma decode_stream:
  "list_all valid xs \<Longrightarrow> decode_many dec (length xs) (concat (map enc xs) @ rest) = Some (xs, rest)"
  by (induction xs) (simp_all add: dec_enc)

lemma stream_inj:
  "list_all valid xs \<Longrightarrow> list_all valid ys \<Longrightarrow> concat (map enc xs) = concat (map enc ys) \<Longrightarrow> xs = ys"
proof (induction xs arbitrary: ys)
  case Nil
  then show ?case by (cases ys) (auto dest: enc_nonempty)
next
  case (Cons x xs)
  then obtain y ys' where ys: "ys = y # ys'"
    by (cases ys) (auto dest: enc_nonempty)
  with Cons.prems have "x = y \<and> concat (map enc xs) = concat (map enc ys')"
    by (intro enc_cancel) auto
  with Cons.IH [of ys'] Cons.prems ys show ?case by simp
qed

end

end
