(* ===== verification/Varint.thy ===== *)
theory Varint
  imports Codec_Interface
begin

text \<open>
  The variable-length integers of the Mumble protocol (\<^verbatim>\<open>lib/mumble/util.c\<close>).

  \<open>varint_decode\<close> takes the bytes readable from \<open>buf\<close> (which may be more than the \<open>size\<close> the caller
  states), the \<open>size\<close> argument and the old contents of \<open>*result\<close>, and yields the return value with the
  new \<open>*result\<close>. C computes \<open>buf[i] << 24\<close> in \<open>int\<close> and then converts to \<open>uint64_t\<close>: \<open>shl_int\<close> is the
  shift at 32 bits and \<open>scast\<close> the conversion, which repeats the sign bit. The \<open>++position\<close> of one
  expression are taken from left to right. The recursive call passes the same buffer
  (\<open>position\<close> is still 0), so the function is a \<open>partial_function\<close> whose \<open>None\<close> is an endless recursion.
\<close>

section \<open>Encoder\<close>

definition varint_encode_size :: "u64 \<Rightarrow> int" where
  "varint_encode_size source =
     (let size = 0 in
      if source < 0 then
        (let source = NOT source; size = size + 1 in
         if source < 0x4 then size
         else if source < 0x80 then size + 1
         else if source < 0x4000 then size + 2
         else if source < 0x200000 then size + 3
         else if source < 0x10000000 then size + 4
         else if source < 0x100000000 then size + 5
         else size + 9)
      else if source < 0x80 then size + 1
      else if source < 0x4000 then size + 2
      else if source < 0x200000 then size + 3
      else if source < 0x10000000 then size + 4
      else if source < 0x100000000 then size + 5
      else size + 9)"

text \<open>\<open>write_buf\<close> stores the low eight bits of its argument (\<open>char value\<close>) and moves on.\<close>

record wstate =
  w_buf :: bytes
  w_pos :: nat
  w_written :: int

definition write_buf :: "wstate \<Rightarrow> u64 \<Rightarrow> wstate res" where
  "write_buf w v =
     (if w_pos w < length (w_buf w)
      then Inr (w\<lparr>w_buf := (w_buf w)[w_pos w := ucast v],
                  w_pos := w_pos w + 1, w_written := w_written w + 1\<rparr>)
      else Inl Out_of_bounds)"

fun write_bufs :: "wstate \<Rightarrow> u64 list \<Rightarrow> wstate res" where
  "write_bufs w [] = Inr w"
| "write_bufs w (v # vs) = rbind (write_buf w v) (\<lambda>w'. write_bufs w' vs)"

text \<open>The values the if-chain of \<open>varint_encode\<close> hands to \<open>write_buf\<close>, in order.\<close>

definition varint_writes :: "u64 \<Rightarrow> u64 list" where
  "varint_writes source =
     (if source < 0x80 then [source]
      else if source < 0x4000 then [drop_bit 8 source OR 0x80, source AND 0xFF]
      else if source < 0x200000 then
        [drop_bit 16 source OR 0xC0, drop_bit 8 source AND 0xFF, source AND 0xFF]
      else if source < 0x10000000 then
        [drop_bit 24 source OR 0xE0, drop_bit 16 source AND 0xFF, drop_bit 8 source AND 0xFF,
         source AND 0xFF]
      else if source < 0x100000000 then
        [0xF0, drop_bit 24 source AND 0xFF, drop_bit 16 source AND 0xFF,
         drop_bit 8 source AND 0xFF, source AND 0xFF]
      else
        [0xF4, drop_bit 56 source AND 0xFF, drop_bit 48 source AND 0xFF,
         drop_bit 40 source AND 0xFF, drop_bit 32 source AND 0xFF, drop_bit 24 source AND 0xFF,
         drop_bit 16 source AND 0xFF, drop_bit 8 source AND 0xFF, source AND 0xFF])"

text \<open>Result: the return value, the buffer and \<open>*written\<close>.\<close>

definition varint_encode :: "u64 \<Rightarrow> bytes \<Rightarrow> int \<Rightarrow> int \<Rightarrow> (int \<times> bytes \<times> int) res" where
  "varint_encode source buf sz written =
     (let needed = varint_encode_size source in
      if sz < needed then Inr (1, buf, written)
      else
        let w = \<lparr>w_buf = buf, w_pos = 0, w_written = 0\<rparr>;
            finish = (\<lambda>w. Inr (0, w_buf w, w_written w))
        in
        if source < 0 then
          (let source = NOT source in
           if source < 0x4 then rbind (write_bufs w [0xFC OR source]) finish
           else rbind (write_bufs w (0xF8 # varint_writes source)) finish)
        else rbind (write_bufs w (varint_writes source)) finish)"

section \<open>Decoder\<close>

definition shl_int :: "byte \<Rightarrow> nat \<Rightarrow> i32" where
  "shl_int b n = push_bit n (ucast b)"

partial_function (option) varint_decode :: "bytes \<Rightarrow> int \<Rightarrow> u64 \<Rightarrow> (int \<times> u64) comp" where
  "varint_decode buf sz result =
     (if sz = 0 then ok (0, result)
      else if length buf < 1 then faults Out_of_bounds
      else if buf ! 0 AND 0x80 = 0x00 then
        ok (1, scast (ucast (buf ! 0) AND 0x7F :: i32))
      else if buf ! 0 AND 0xC0 = 0x80 then
        (if sz < 2 then ok (-1, 0)
         else if length buf < 2 then faults Out_of_bounds
         else ok (2, scast (push_bit 8 (ucast (buf ! 0) AND 0x3F) OR shl_int (buf ! 1) 0)))
      else if buf ! 0 AND 0xF0 = 0xF0 then
        (if buf ! 0 AND 0xFC = 0xF0 then
           (if length buf < 5 then faults Out_of_bounds
            else ok (5, scast (shl_int (buf ! 1) 24 OR shl_int (buf ! 2) 16 OR shl_int (buf ! 3) 8
                               OR shl_int (buf ! 4) 0)))
         else if buf ! 0 AND 0xFC = 0xF4 then
           (if length buf < 9 then faults Out_of_bounds
            else ok (9, push_bit 56 (ucast (buf ! 1)) OR push_bit 48 (ucast (buf ! 2))
                        OR push_bit 40 (ucast (buf ! 3)) OR push_bit 32 (ucast (buf ! 4))
                        OR scast (shl_int (buf ! 5) 24) OR scast (shl_int (buf ! 6) 16)
                        OR scast (shl_int (buf ! 7) 8) OR scast (shl_int (buf ! 8) 0)))
         else if buf ! 0 AND 0xFC = 0xF8 then
           cbind (varint_decode buf sz 0)
             (\<lambda>(r_result, result).
                if r_result \<noteq> 0 then ok (r_result, result) else ok (1, NOT result))
         else if buf ! 0 AND 0xFC = 0xFC then
           ok (1, NOT (scast (ucast (buf ! 0) AND 0x03 :: i32)))
         else ok (-2, 0))
      else if buf ! 0 AND 0xF0 = 0xE0 then
        (if length buf < 4 then faults Out_of_bounds
         else ok (4, scast (push_bit 24 (ucast (buf ! 0) AND 0x0F) OR shl_int (buf ! 1) 16
                            OR shl_int (buf ! 2) 8 OR shl_int (buf ! 3) 0)))
      else if buf ! 0 AND 0xE0 = 0xC0 then
        (if length buf < 3 then faults Out_of_bounds
         else ok (3, scast (push_bit 16 (ucast (buf ! 0) AND 0x1F) OR shl_int (buf ! 1) 8
                            OR shl_int (buf ! 2) 0)))
      else ok (1, 0))"

section \<open>Header bytes\<close>

text \<open>Each test of the decoder on the header byte, as a statement on its bits.\<close>

lemma header_bits:
  fixes b :: byte
  shows "b AND 0x80 = 0 \<longleftrightarrow> \<not> bit b 7"
    and "b AND 0xC0 = 0x80 \<longleftrightarrow> bit b 7 \<and> \<not> bit b 6"
    and "b AND 0xE0 = 0xC0 \<longleftrightarrow> bit b 7 \<and> bit b 6 \<and> \<not> bit b 5"
    and "b AND 0xF0 = 0xE0 \<longleftrightarrow> bit b 7 \<and> bit b 6 \<and> bit b 5 \<and> \<not> bit b 4"
    and "b AND 0xF0 = 0xF0 \<longleftrightarrow> bit b 7 \<and> bit b 6 \<and> bit b 5 \<and> bit b 4"
    and "b AND 0xFC = 0xF0 \<longleftrightarrow> bit b 7 \<and> bit b 6 \<and> bit b 5 \<and> bit b 4 \<and> \<not> bit b 3 \<and> \<not> bit b 2"
    and "b AND 0xFC = 0xF4 \<longleftrightarrow> bit b 7 \<and> bit b 6 \<and> bit b 5 \<and> bit b 4 \<and> \<not> bit b 3 \<and> bit b 2"
    and "b AND 0xFC = 0xF8 \<longleftrightarrow> bit b 7 \<and> bit b 6 \<and> bit b 5 \<and> bit b 4 \<and> bit b 3 \<and> \<not> bit b 2"
    and "b AND 0xFC = 0xFC \<longleftrightarrow> bit b 7 \<and> bit b 6 \<and> bit b 5 \<and> bit b 4 \<and> bit b 3 \<and> bit b 2"
  unfolding byte_eq_bits all_less_8
  by (auto simp: bit_simps)


section \<open>Encoding, byte by byte\<close>

lemma write_bufs_Inr:
  assumes "w_pos w + length vs \<le> length (w_buf w)"
  shows "write_bufs w vs =
    Inr (w\<lparr>w_buf := take (w_pos w) (w_buf w) @ map ucast vs @ drop (w_pos w + length vs) (w_buf w),
           w_pos := w_pos w + length vs, w_written := w_written w + int (length vs)\<rparr>)"
  using assms
proof (induction vs arbitrary: w)
  case (Cons v vs)
  have "write_buf w v = Inr (w\<lparr>w_buf := (w_buf w)[w_pos w := ucast v],
                  w_pos := w_pos w + 1, w_written := w_written w + 1\<rparr>)"
    using Cons.prems by (simp add: write_buf_def)
  moreover have "take (Suc (w_pos w)) ((w_buf w)[w_pos w := ucast v])
      = take (w_pos w) (w_buf w) @ [ucast v]"
    using Cons.prems by (simp add: take_Suc_conv_app_nth)
  ultimately show ?case
    using Cons.prems by (simp add: Cons.IH)
qed simp

definition varint_bytes :: "u64 \<Rightarrow> bytes" where
  "varint_bytes v = map ucast (varint_writes v)"

lemma varint_encode_size_eq: "varint_encode_size v = int (length (varint_bytes v))"
  by (simp add: varint_encode_size_def varint_bytes_def varint_writes_def)

lemma varint_bytes_length: "0 < length (varint_bytes v)" "length (varint_bytes v) \<le> 9"
  by (simp_all add: varint_bytes_def varint_writes_def)

lemma varint_encode_eq:
  assumes "varint_encode_size v \<le> sz" and "length (varint_bytes v) \<le> length buf"
  shows "varint_encode v buf sz written =
    Inr (0, varint_bytes v @ drop (length (varint_bytes v)) buf, int (length (varint_bytes v)))"
  using assms
  by (simp add: varint_encode_def write_bufs_Inr varint_bytes_def)

lemma word64_lt:
  "(v::u64) < 0x80 \<Longrightarrow> bit v k \<Longrightarrow> k < 7"
  "(v::u64) < 0x4000 \<Longrightarrow> bit v k \<Longrightarrow> k < 14"
  "(v::u64) < 0x200000 \<Longrightarrow> bit v k \<Longrightarrow> k < 21"
  "(v::u64) < 0x10000000 \<Longrightarrow> bit v k \<Longrightarrow> k < 28"
  "(v::u64) < 0x100000000 \<Longrightarrow> bit v k \<Longrightarrow> k < 32"
  using word_less_bit [of v 7 k] word_less_bit [of v 14 k] word_less_bit [of v 21 k]
    word_less_bit [of v 28 k] word_less_bit [of v 32 k] by simp_all

definition varint_reads_as :: "u64 \<Rightarrow> u64" where
  "varint_reads_as v = (if bit v 31 then v OR 0xFFFFFFFF00000000 else v)"

lemma bit_31_or: "n < 64 \<Longrightarrow> bit (varint_reads_as v) n \<longleftrightarrow> bit v n \<or> 32 \<le> n \<and> bit v 31"
  by (auto simp: varint_reads_as_def bit_simps byte_bits)

lemma byte_of_bit:
  fixes n :: nat
  assumes "n < 8 \<Longrightarrow> P" and "8 \<le> n \<Longrightarrow> n < 16 \<Longrightarrow> P" and "16 \<le> n \<Longrightarrow> n < 24 \<Longrightarrow> P" and "24 \<le> n \<Longrightarrow> n < 31 \<Longrightarrow> P" and "n = 31 \<Longrightarrow> P"
    and "32 \<le> n \<Longrightarrow> n < 40 \<Longrightarrow> P" and "40 \<le> n \<Longrightarrow> n < 48 \<Longrightarrow> P" and "48 \<le> n \<Longrightarrow> n < 56 \<Longrightarrow> P"
    and "56 \<le> n \<Longrightarrow> n < 64 \<Longrightarrow> P" and "n < 64"
  shows P
  using assms by linarith

abbreviation byte_at :: "nat \<Rightarrow> u64 \<Rightarrow> byte" where "byte_at n v \<equiv> ucast (drop_bit n v AND 0xFF)"

lemma bit_byte_at: "bit (byte_at k v) n \<longleftrightarrow> n < 8 \<and> bit v (k + n)"
  by (auto simp: bit_simps byte_bits)


lemma join4:
  assumes "v < 0x10000000"
  shows "scast (push_bit 24 (ucast (ucast (drop_bit 24 v OR 0xE0) :: byte) AND 0x0F) OR shl_int (byte_at 16 v) 16 OR shl_int (byte_at 8 v) 8 OR shl_int (ucast (v AND 0xFF)) 0) = v"
proof (rule bit_word_eqI)
  fix n assume "n < LENGTH(64)"
  then have n: "n < 64" by simp
  show "bit (scast (push_bit 24 (ucast (ucast (drop_bit 24 v OR 0xE0) :: byte) AND 0x0F) OR shl_int (byte_at 16 v) 16 OR shl_int (byte_at 8 v) 8 OR shl_int (ucast (v AND 0xFF)) 0) :: u64) n = bit v n"
    by (rule byte_of_bit [OF _ _ _ _ _ _ _ _ _ n])
      (simp_all add: shl_int_def bit_byte_at bit_simps byte_bits min_def, (use word64_lt(4) [OF assms] in force)+)
qed

lemma join5:
  assumes "v < 0x100000000"
  shows "scast (shl_int (byte_at 24 v) 24 OR shl_int (byte_at 16 v) 16 OR shl_int (byte_at 8 v) 8 OR shl_int (ucast (v AND 0xFF)) 0) = varint_reads_as v"
proof (rule bit_word_eqI)
  fix n assume "n < LENGTH(64)"
  then have n: "n < 64" by simp
  show "bit (scast (shl_int (byte_at 24 v) 24 OR shl_int (byte_at 16 v) 16 OR shl_int (byte_at 8 v) 8 OR shl_int (ucast (v AND 0xFF)) 0) :: u64) n = bit (varint_reads_as v) n"
    by (rule byte_of_bit [OF _ _ _ _ _ _ _ _ _ n])
      (simp_all add: bit_31_or shl_int_def bit_byte_at bit_simps byte_bits min_def, (use word64_lt(5) [OF assms] in force)+)
qed

lemma join9:
  "push_bit 56 (ucast (byte_at 56 v)) OR push_bit 48 (ucast (byte_at 48 v)) OR push_bit 40 (ucast (byte_at 40 v))
    OR push_bit 32 (ucast (byte_at 32 v)) OR scast (shl_int (byte_at 24 v) 24) OR scast (shl_int (byte_at 16 v) 16)
    OR scast (shl_int (byte_at 8 v) 8) OR scast (shl_int (ucast (v AND 0xFF)) 0) = varint_reads_as v"
   (is "?l = _")
proof (rule bit_word_eqI)
  fix n assume "n < LENGTH(64)"
  then have n: "n < 64" by simp
  show "bit ?l n = bit (varint_reads_as v) n"
    by (rule byte_of_bit [OF _ _ _ _ _ _ _ _ _ n])
      (simp_all add: bit_31_or shl_int_def bit_byte_at bit_simps byte_bits min_def, auto)
qed
lemma decode1:
  assumes v: "v < 0x80" and "sz \<noteq> 0"
  shows "varint_decode ([ucast v] @ rest) sz r = ok (1, v)"
proof -
  note b = word64_lt(1) [OF v]
  have "scast (ucast (ucast v :: byte) AND 0x7F :: i32) = v"
    by (rule bit_word_eqI) (auto simp: bit_simps byte_bits min_def dest: b)
  moreover have "\<not> bit (ucast v :: byte) 7"
    using b by (auto simp: bit_simps)
  ultimately show ?thesis
    using assms by (subst varint_decode.simps) (simp add: header_bits)
qed

lemma decode2:
  assumes v: "v < 0x4000" and "2 \<le> sz"
  shows "varint_decode ([ucast (drop_bit 8 v OR 0x80), ucast (v AND 0xFF)] @ rest) sz r = ok (2, v)"
proof -
  let ?h = "ucast (drop_bit 8 v OR 0x80) :: byte"
  note b = word64_lt(2) [OF v]
  have "scast (push_bit 8 (ucast ?h AND 0x3F) OR shl_int (ucast (v AND 0xFF)) 0) = v"
    by (rule bit_word_eqI) (auto simp: shl_int_def bit_simps byte_bits min_def dest: b)
  moreover have "bit ?h 7" "\<not> bit ?h 6"
    using b by (auto simp: bit_simps byte_bits)
  ultimately show ?thesis
    using assms by (subst varint_decode.simps) (simp add: header_bits)
qed

lemma decode3:
  assumes v: "v < 0x200000" and "sz \<noteq> 0"
  shows "varint_decode ([ucast (drop_bit 16 v OR 0xC0), ucast (drop_bit 8 v AND 0xFF), ucast (v AND 0xFF)] @ rest) sz r = ok (3, v)"
proof -
  let ?h = "ucast (drop_bit 16 v OR 0xC0) :: byte"
  note b = word64_lt(3) [OF v]
  have "scast (push_bit 16 (ucast ?h AND 0x1F) OR shl_int (ucast (drop_bit 8 v AND 0xFF)) 8 OR shl_int (ucast (v AND 0xFF)) 0) = v"
    by (rule bit_word_eqI) (auto simp: shl_int_def bit_simps byte_bits min_def dest: b)
  moreover have "bit ?h 7" "bit ?h 6" "\<not> bit ?h 5"
    using b by (auto simp: bit_simps byte_bits)
  ultimately show ?thesis
    using assms by (subst varint_decode.simps) (simp add: header_bits)
qed


lemma decode4:
  assumes v: "v < 0x10000000" and "sz \<noteq> 0"
  shows "varint_decode ([ucast (drop_bit 24 v OR 0xE0), byte_at 16 v, byte_at 8 v, ucast (v AND 0xFF)]
           @ rest) sz r = ok (4, v)"
proof -
  let ?h = "ucast (drop_bit 24 v OR 0xE0) :: byte"
  have "bit ?h 7" "bit ?h 6" "bit ?h 5" "\<not> bit ?h 4"
    using word64_lt(4) [OF v] by (auto simp: bit_simps byte_bits)
  with assms join4 [OF v] show ?thesis
    by (subst varint_decode.simps) (simp add: header_bits)
qed

lemma decode5:
  assumes v: "v < 0x100000000" and "sz \<noteq> 0"
  shows "varint_decode ([0xF0, byte_at 24 v, byte_at 16 v, byte_at 8 v, ucast (v AND 0xFF)] @ rest) sz r
    = ok (5, varint_reads_as v)"
  using assms join5 [OF v] by (subst varint_decode.simps) simp

lemma decode9:
  assumes "sz \<noteq> 0"
  shows "varint_decode ([0xF4, byte_at 56 v, byte_at 48 v, byte_at 40 v, byte_at 32 v, byte_at 24 v,
           byte_at 16 v, byte_at 8 v, ucast (v AND 0xFF)] @ rest) sz r = ok (9, varint_reads_as v)"
  using assms join9 [of v] by (subst varint_decode.simps) simp


lemma less_steps:
  fixes v :: u64
  shows "v < 0x80 \<Longrightarrow> v < 0x4000" and "v < 0x4000 \<Longrightarrow> v < 0x200000"
    and "v < 0x200000 \<Longrightarrow> v < 0x10000000" and "v < 0x10000000 \<Longrightarrow> v < 0x100000000"
  by (erule order_less_trans, simp)+

lemma varint_sizes:
  "v < 0x80 \<Longrightarrow> varint_encode_size v = 1 \<and> varint_bytes v = [ucast v]"
  "\<not> v < 0x80 \<Longrightarrow> v < 0x4000 \<Longrightarrow> varint_encode_size v = 2
    \<and> varint_bytes v = [ucast (drop_bit 8 v OR 0x80), ucast (v AND 0xFF)]"
  "\<not> v < 0x4000 \<Longrightarrow> v < 0x200000 \<Longrightarrow> varint_encode_size v = 3
    \<and> varint_bytes v = [ucast (drop_bit 16 v OR 0xC0), ucast (drop_bit 8 v AND 0xFF), ucast (v AND 0xFF)]"
  "\<not> v < 0x200000 \<Longrightarrow> v < 0x10000000 \<Longrightarrow> varint_encode_size v = 4
    \<and> varint_bytes v = [ucast (drop_bit 24 v OR 0xE0), byte_at 16 v, byte_at 8 v, ucast (v AND 0xFF)]"
  "\<not> v < 0x10000000 \<Longrightarrow> v < 0x100000000 \<Longrightarrow> varint_encode_size v = 5
    \<and> varint_bytes v = [0xF0, byte_at 24 v, byte_at 16 v, byte_at 8 v, ucast (v AND 0xFF)]"
  "\<not> v < 0x100000000 \<Longrightarrow> varint_encode_size v = 9
    \<and> varint_bytes v = [0xF4, byte_at 56 v, byte_at 48 v, byte_at 40 v, byte_at 32 v, byte_at 24 v,
           byte_at 16 v, byte_at 8 v, ucast (v AND 0xFF)]"
  by (auto simp: varint_encode_size_def varint_bytes_def varint_writes_def dest: less_steps)

section \<open>What the two routines guarantee\<close>

lemma write_bufs_Inl:
  "length (w_buf w) < w_pos w + length vs \<Longrightarrow> w_pos w \<le> length (w_buf w)
    \<Longrightarrow> write_bufs w vs = Inl Out_of_bounds"
  by (induction vs arbitrary: w) (auto simp: write_buf_def)

text \<open>
  For every 64-bit value, buffer and stated size, \<open>varint_encode\<close> does exactly this: it returns 1
  and touches nothing when the stated size is below \<open>varint_encode_size\<close>; otherwise it returns 0, has
  stored the one to nine bytes of the encoding at the front of the buffer, left the rest of the buffer
  as it was and reported the number of bytes \<open>varint_encode_size\<close> promised. It runs past the buffer
  only when the caller stated more room than the buffer has.
\<close>

theorem varint_encode_correct:
  "varint_encode source buf sz written =
     (if sz < varint_encode_size source then Inr (1, buf, written)
      else if length buf < length (varint_bytes source) then Inl Out_of_bounds
      else Inr (0, varint_bytes source @ drop (length (varint_bytes source)) buf,
                varint_encode_size source))"
  by (simp add: varint_encode_def varint_encode_size_eq write_bufs_Inr write_bufs_Inl varint_bytes_def)

lemma varint_decode_bytes:
  assumes "varint_encode_size v \<le> sz"
  shows "varint_decode (varint_bytes v @ rest) sz r
    = ok (varint_encode_size v, if bit v 31 then v OR 0xFFFFFFFF00000000 else v)"
proof -
  have small: "varint_reads_as v = v" if "v < 0x10000000"
    using word64_lt(4) [OF that, of 31] by (auto simp: varint_reads_as_def)
  consider "v < 0x80" | "\<not> v < 0x80" "v < 0x4000" | "\<not> v < 0x4000" "v < 0x200000"
    | "\<not> v < 0x200000" "v < 0x10000000" | "\<not> v < 0x10000000" "v < 0x100000000"
    | "\<not> v < 0x100000000"
    by blast
  then have "varint_decode (varint_bytes v @ rest) sz r = ok (varint_encode_size v, varint_reads_as v)"
    using assms decode1 [of v sz rest r] decode2 [of v sz rest r] decode3 [of v sz rest r]
      decode4 [of v sz rest r] decode5 [of v sz rest r] decode9 [of sz v rest r] small
    by cases (simp_all add: varint_sizes less_steps)
  then show ?thesis by (simp add: varint_reads_as_def)
qed

text \<open>
  C18: Round trip. In a buffer that has the stated size, \<open>varint_encode\<close> refuses a value whose encoding is longer than the size
  and leaves the buffer as it was; otherwise it writes one to nine bytes, as many as \<open>varint_encode_size\<close> says, leaves the rest
  alone, and decoding these bytes, whatever follows them, consumes exactly them and yields the value written, unless bit 31
  of the value is set: then the upper half of the result is all ones, because \<open>buf[i] << 24\<close> is an \<open>int\<close> whose sign is
  extended into the 64-bit result.
\<close>

theorem varint_roundtrip:
  assumes "sz \<le> int (length buf)"
  shows "if sz < varint_encode_size v then varint_encode v buf sz written = Inr (1, buf, written)
    else \<exists>buf' n. varint_encode v buf sz written = Inr (0, buf', n) \<and> n = varint_encode_size v \<and> 1 \<le> n \<and> n \<le> 9
      \<and> length buf' = length buf \<and> drop (nat n) buf' = drop (nat n) buf
      \<and> (\<forall>rest sz' r. n \<le> sz' \<longrightarrow> varint_decode (take (nat n) buf' @ rest) sz' r
          = ok (n, if bit v 31 then v OR 0xFFFFFFFF00000000 else v))"
proof (cases "sz < varint_encode_size v")
  case True
  then show ?thesis by (simp add: varint_encode_def)
next
  case False
  let ?b = "varint_bytes v"
  have fits: "varint_encode_size v \<le> sz" "length ?b \<le> length buf" using False assms by (simp_all add: varint_encode_size_eq)
  moreover have "1 \<le> int (length ?b)" "int (length ?b) \<le> 9" using varint_bytes_length [of v] by linarith+
  moreover have "varint_decode (?b @ rest) sz' r = ok (int (length ?b), if bit v 31 then v OR 0xFFFFFFFF00000000 else v)"
    if "int (length ?b) \<le> sz'" for rest sz' r
    using varint_decode_bytes [of v sz' rest r] that by (simp add: varint_encode_size_eq)
  ultimately show ?thesis
    using False varint_encode_eq [OF fits, of written]
    by (simp add: varint_encode_size_eq)
qed

theorem varint_roundtrip_witness:
  "\<exists>buf'. varint_encode 0x80000000 (replicate 6 0) 6 0 = Inr (0, buf', 5)
    \<and> varint_decode (take 5 buf' @ [7]) 6 0 = ok (5, 0xFFFFFFFF80000000)"
  using varint_roundtrip [of 6 "replicate 6 0" "0x80000000" 0] by (fastforce simp: varint_encode_size_def)

text \<open>
  The header byte decides alone whether the decoder comes back: the negative marker
  \<open>11111000\<close> .. \<open>11111011\<close> makes it call itself on the same bytes.
\<close>

definition negative_marker :: "byte \<Rightarrow> bool" where
  "negative_marker b \<longleftrightarrow> b AND 0xFC = 0xF8"

lemma varint_decode_marker:
  assumes "negative_marker (buf ! 0)" and "buf \<noteq> []" and "sz \<noteq> 0"
  shows "varint_decode buf sz r = None"
proof (rule ccontr)
  assume "\<not> ?thesis"
  then obtain x where x: "varint_decode buf sz r = Some x" by auto
  have "\<not> (negative_marker (buf ! 0) \<and> buf \<noteq> [] \<and> sz \<noteq> 0)"
  proof (rule varint_decode.raw_induct
      [where P = "\<lambda>buf sz r x. \<not> (negative_marker (buf ! 0) \<and> buf \<noteq> [] \<and> sz \<noteq> 0)", OF _ x], goal_cases)
    case (1 f buf sz r x)
    note IH = 1(1) and run = 1(2)
    show ?case
    proof
      assume m: "negative_marker (buf ! 0) \<and> buf \<noteq> [] \<and> sz \<noteq> 0"
      then have "f buf sz 0 = None"
        using IH [of buf sz 0] by (cases "f buf sz 0") auto
      with run m show False
        by (simp add: negative_marker_def header_bits Suc_le_eq)
    qed
  qed
  with assms show False by simp
qed


lemma varint_decode_no_marker:
  "sz = 0 \<or> buf = [] \<or> \<not> negative_marker (buf ! 0) \<Longrightarrow> varint_decode buf sz r \<noteq> None"
  by (subst varint_decode.simps) (auto simp: negative_marker_def)

text \<open>
  C39: The decoder returns unless it is given at least one byte and the first one is the negative
  marker; then it never does. No other input makes it run forever.
\<close>

theorem varint_decode_returns_iff:
  "varint_decode buf sz r = never_returns
    \<longleftrightarrow> sz \<noteq> 0 \<and> buf \<noteq> [] \<and> buf ! 0 AND 0xFC = 0xF8"
  using varint_decode_marker [of buf sz r] varint_decode_no_marker [of sz buf r]
  unfolding negative_marker_def by blast

text \<open>The number of bytes a header byte announces, read off its leading ones.\<close>

definition varint_length :: "byte \<Rightarrow> nat" where
  "varint_length b =
     (if \<not> bit b 7 then 1 else if \<not> bit b 6 then 2 else if \<not> bit b 5 then 3
      else if \<not> bit b 4 then 4 else if bit b 3 then 1 else if bit b 2 then 9 else 5)"

lemma varint_decode_short:
  assumes "sz \<noteq> 0" and "buf \<noteq> []" and "\<not> negative_marker (buf ! 0)"
    and "varint_length (buf ! 0) = 2 \<Longrightarrow> 2 \<le> sz"
  shows "varint_decode buf sz r = faults Out_of_bounds \<longleftrightarrow> length buf < varint_length (buf ! 0)"
    and "varint_length (buf ! 0) \<le> length buf
      \<Longrightarrow> \<exists>v. varint_decode buf sz r = ok (int (varint_length (buf ! 0)), v)"
proof -
  let ?b = "buf ! 0"
  have "(varint_decode buf sz r = faults Out_of_bounds \<longleftrightarrow> length buf < varint_length ?b)
    \<and> (varint_length ?b \<le> length buf
        \<longrightarrow> (\<exists>v. varint_decode buf sz r = ok (int (varint_length ?b), v)))"
    using assms
    by (cases "bit ?b 7"; cases "bit ?b 6"; cases "bit ?b 5"; cases "bit ?b 4"; cases "bit ?b 3";
        cases "bit ?b 2";
        simp add: varint_decode.simps [of buf sz r] header_bits negative_marker_def
          varint_length_def Suc_le_eq not_less)
  then show "varint_decode buf sz r = faults Out_of_bounds \<longleftrightarrow> length buf < varint_length ?b"
    and "varint_length ?b \<le> length buf
      \<Longrightarrow> \<exists>v. varint_decode buf sz r = ok (int (varint_length ?b), v)"
    by blast+
qed

text \<open>
  What the decoder reads. If the header byte announces \<open>k\<close> bytes, a return means that exactly \<open>k\<close>
  bytes were consumed and readable, and the decoder runs out of the readable bytes exactly when there
  are fewer than \<open>k\<close>: the stated size is consulted for two-byte forms only, so every longer form reads
  past \<open>size\<close>.
\<close>

theorem varint_decode_reads:
  assumes "sz \<noteq> 0" and "buf \<noteq> []" and "buf ! 0 AND 0xFC \<noteq> 0xF8"
  shows "(varint_length (buf ! 0) = 2 \<and> sz < 2 \<and> varint_decode buf sz r = ok (-1, 0))
    \<or> (length buf < varint_length (buf ! 0) \<and> varint_decode buf sz r = faults Out_of_bounds)
    \<or> (varint_length (buf ! 0) \<le> length buf
        \<and> (\<exists>v. varint_decode buf sz r = ok (int (varint_length (buf ! 0)), v)))"
proof (cases "varint_length (buf ! 0) = 2 \<and> sz < 2")
  case True
  with assms have "varint_decode buf sz r = ok (-1, 0)"
    by (subst varint_decode.simps)
      (auto simp: header_bits varint_length_def Suc_le_eq split: if_splits)
  with True show ?thesis by blast
next
  case False
  with assms varint_decode_short [of sz buf r] show ?thesis
    by (fastforce simp: negative_marker_def not_le)
qed

theorem varint_decode_reads_witness:
  "varint_decode [0xE0] 1 0 = faults Out_of_bounds"
  using varint_decode_reads [of 1 "[0xE0]" 0] by (simp add: varint_length_def)

section \<open>Varints as a self-delimiting code\<close>

definition varint_next :: "bytes \<Rightarrow> (u64 \<times> bytes) option" where
  "varint_next buf =
     (case varint_decode buf (int (length buf)) 0 of
        Some (Inr (n, v)) \<Rightarrow> (if 0 < n then Some (v, drop (nat n) buf) else None)
      | _ \<Rightarrow> None)"

interpretation varint: self_delimiting varint_bytes varint_next "\<lambda>v. \<not> bit v 31"
proof
  fix v :: u64 and rest :: bytes
  assume v: "\<not> bit v 31"
  have "varint_encode_size v \<le> int (length (varint_bytes v @ rest))"
    by (simp add: varint_encode_size_eq)
  from varint_decode_bytes [OF this, of rest 0] v
  show "varint_next (varint_bytes v @ rest) = Some (v, rest)"
    using varint_bytes_length(1) [of v] by (simp add: varint_next_def varint_encode_size_eq)
  show "varint_bytes v \<noteq> []"
    using varint_bytes_length(1) [of v] by auto
qed

text \<open>
  A stream of varints written one after the other is read back value by value, and two different
  sequences of values never produce the same bytes (for values whose bit 31 is clear).
\<close>

theorem varint_stream:
  assumes "list_all (\<lambda>v. \<not> bit v 31) vs" and "list_all (\<lambda>v. \<not> bit v 31) ws"
  shows "decode_many varint_next (length vs) (concat (map varint_bytes vs) @ rest) = Some (vs, rest)
    \<and> (concat (map varint_bytes vs) = concat (map varint_bytes ws) \<longrightarrow> vs = ws)"
  using varint.decode_stream [OF assms(1)] varint.stream_inj [OF assms] by blast

theorem varint_stream_witness:
  "decode_many varint_next (length [5, 300 :: u64]) (concat (map varint_bytes [5, 300]) @ [1])
    = Some ([5, 300], [1])"
  using varint_stream [of "[5, 300]" "[]" "[1]"] by (simp add: bit_iff_odd)

end
