(* ===== verification/Stream_Buffer.thy ===== *)
theory Stream_Buffer
  imports Mumble_Prelude
begin

text \<open>
  The frame buffer of \<^verbatim>\<open>lib/mumble/buffer.c\<close>: writes of any size go in, the callback is called with
  frames of the size the buffer was created with.

  The callback is an argument: it gets the bytes, their number, the final flag and the state behind
  \<open>cb_data\<close>, and yields that state's new value or a fault. \<open>mumble_buffer_flush\<close> and
  \<open>mumble_buffer_write\<close> call each other; \<open>buffer_exec\<close> is the two of them over the kind of call, and
  \<open>None\<close> is a call chain that never ends. \<open>buf_used\<close> never exceeds \<open>buf_allocated\<close> (\<open>wf_buffer\<close> is kept
  by every operation), so the unsigned subtractions of the code do not wrap and are written on \<open>nat\<close>.
\<close>

section \<open>The buffer and its operations\<close>

type_synonym 's buffer_cb = "bytes \<Rightarrow> nat \<Rightarrow> bool \<Rightarrow> 's \<Rightarrow> 's res"

record mumble_buffer =
  b_buf :: bytes
  b_allocated :: nat
  b_used :: nat

text \<open>
  \<open>struct_ok\<close> says that the \<open>malloc\<close> of the structure succeeded, \<open>mem\<close> is what the \<open>malloc\<close> of the
  frame memory returned.
\<close>

definition mumble_buffer_create :: "nat \<Rightarrow> bool \<Rightarrow> bytes option \<Rightarrow> mumble_buffer res" where
  "mumble_buffer_create sz struct_ok mem =
     (if \<not> struct_ok then Inl Assert_failed
      else case mem of None \<Rightarrow> Inl Assert_failed
        | Some m \<Rightarrow> Inr \<lparr>b_buf = m, b_allocated = sz, b_used = 0\<rparr>)"

text \<open>The memory handed to \<open>free\<close> before the structure itself.\<close>

definition mumble_buffer_free :: "mumble_buffer \<Rightarrow> bytes" where
  "mumble_buffer_free buffer = b_buf buffer"

partial_function (option) write_loop ::
  "'s buffer_cb \<Rightarrow> bytes \<Rightarrow> bool \<Rightarrow> mumble_buffer \<times> 's \<Rightarrow> (mumble_buffer \<times> 's) comp" where
  "write_loop cb incoming end_bit st =
     (case st of (b, s) \<Rightarrow>
      if incoming = [] then ok (b, s)
      else
        let amount_to_copy = min (length incoming) (b_allocated b - b_used b) in
        case poke (b_buf b) (b_used b) (take amount_to_copy incoming) of
          Inl f \<Rightarrow> faults f
        | Inr mem \<Rightarrow>
            let b = b\<lparr>b_buf := mem, b_used := b_used b + amount_to_copy\<rparr>;
                incoming = drop amount_to_copy incoming
            in
            if b_used b = b_allocated b then
              let final_write = (if end_bit then incoming = [] else False) in
              case cb (b_buf b) (b_used b) final_write s of
                Inl f \<Rightarrow> faults f
              | Inr s \<Rightarrow> write_loop cb incoming end_bit (b\<lparr>b_used := 0\<rparr>, s)
            else write_loop cb incoming end_bit (b, s))"

datatype buffer_call = Flush | Write bytes bool

partial_function (option) buffer_exec ::
  "'s buffer_cb \<Rightarrow> buffer_call \<Rightarrow> mumble_buffer \<times> 's \<Rightarrow> (mumble_buffer \<times> 's) comp" where
  "buffer_exec cb call st =
     (case call of
        Flush \<Rightarrow>
          (case st of (b, s) \<Rightarrow>
           case poke (b_buf b) (b_used b) (replicate (b_allocated b - b_used b) 0) of
             Inl f \<Rightarrow> faults f
           | Inr mem \<Rightarrow>
               buffer_exec cb (Write [] True) (b\<lparr>b_buf := mem, b_used := b_allocated b\<rparr>, s))
      | Write incoming end_bit \<Rightarrow>
          cbind (write_loop cb incoming end_bit st)
            (\<lambda>(b, s). if end_bit \<and> 0 < b_used b then buffer_exec cb Flush (b, s) else ok (b, s)))"

definition mumble_buffer_flush ::
  "'s buffer_cb \<Rightarrow> mumble_buffer \<Rightarrow> 's \<Rightarrow> (mumble_buffer \<times> 's) comp" where
  "mumble_buffer_flush cb b s = buffer_exec cb Flush (b, s)"

definition mumble_buffer_write ::
  "'s buffer_cb \<Rightarrow> bytes \<Rightarrow> bool \<Rightarrow> mumble_buffer \<Rightarrow> 's \<Rightarrow> (mumble_buffer \<times> 's) comp" where
  "mumble_buffer_write cb buf end_bit b s = buffer_exec cb (Write buf end_bit) (b, s)"

section \<open>What a write promises\<close>

definition wf_buffer :: "mumble_buffer \<Rightarrow> bool" where
  "wf_buffer b \<longleftrightarrow> length (b_buf b) = b_allocated b \<and> b_used b < b_allocated b"

definition pending :: "mumble_buffer \<Rightarrow> bytes" where
  "pending b = take (b_used b) (b_buf b)"

text \<open>
  The frames a byte stream is cut into, each with the final flag, and what is left over; and the
  calls of the callback on a list of frames, up to the first fault.
\<close>

function buffer_frames :: "nat \<Rightarrow> bool \<Rightarrow> bytes \<Rightarrow> (bytes \<times> bool) list \<times> bytes" where
  "buffer_frames n e xs =
     (if n = 0 \<or> length xs < n then ([], xs)
      else case buffer_frames n e (drop n xs) of
        (fs, r) \<Rightarrow> ((take n xs, e \<and> drop n xs = []) # fs, r))"
  by pat_completeness auto
termination
  by (relation "measure (\<lambda>(n, e, xs). length xs)") auto

declare buffer_frames.simps [simp del]

fun deliver :: "'s buffer_cb \<Rightarrow> nat \<Rightarrow> (bytes \<times> bool) list \<Rightarrow> 's \<Rightarrow> 's res" where
  "deliver cb n [] s = Inr s"
| "deliver cb n ((f, fin) # fs) s = rbind (cb f n fin s) (deliver cb n fs)"

lemma buffer_frames_short [simp]: "length xs < n \<Longrightarrow> buffer_frames n e xs = ([], xs)"
  by (simp add: buffer_frames.simps)

lemma buffer_frames_full:
  "0 < n \<Longrightarrow> n \<le> length xs \<Longrightarrow> buffer_frames n e xs =
     ((take n xs, e \<and> drop n xs = []) # fst (buffer_frames n e (drop n xs)),
      snd (buffer_frames n e (drop n xs)))"
  by (subst buffer_frames.simps) (simp split: prod.split)

lemma buffer_frames_rest:
  "0 < n \<Longrightarrow> length (snd (buffer_frames n e xs)) = length xs mod n"
proof (induction n e xs rule: buffer_frames.induct)
  case (1 n e xs)
  then show ?case
    by (cases "length xs < n") (simp_all add: buffer_frames_full le_mod_geq not_less)
qed

lemma buffer_frames_lengths: "\<forall>(f, fin) \<in> set (fst (buffer_frames n e xs)). length f = n"
proof (induction n e xs rule: buffer_frames.induct)
  case (1 n e xs)
  then show ?case
    by (cases "n = 0 \<or> length xs < n") (auto simp: buffer_frames.simps [of n e xs] buffer_frames_full split: prod.split)
qed

lemma buffer_frames_concat:
  "concat (map fst (fst (buffer_frames n e xs))) @ snd (buffer_frames n e xs) = xs"
proof (induction n e xs rule: buffer_frames.induct)
  case (1 n e xs)
  then show ?case
    by (cases "n = 0 \<or> length xs < n") (auto simp: buffer_frames.simps [of n e xs] buffer_frames_full split: prod.split)
qed


lemma buffer_frames_flags:
  assumes "0 < n" and "buffer_frames n True xs = (fs, r)"
  shows "if r = [] then xs = [] \<and> fs = []
        \<or> fs \<noteq> [] \<and> snd (last fs) \<and> (\<forall>(f, fin) \<in> set (butlast fs). \<not> fin)
      else (\<forall>(f, fin) \<in> set fs. \<not> fin)"
  using assms
proof (induction n True xs arbitrary: fs r rule: buffer_frames.induct)
  case (1 n xs)
  show ?case
  proof (cases "length xs < n")
    case True
    with "1.prems" show ?thesis by auto
  next
    case False
    then obtain gs where gs: "buffer_frames n True (drop n xs) = (gs, r)"
      and fs: "fs = (take n xs, drop n xs = []) # gs"
      using "1.prems" by (cases "buffer_frames n True (drop n xs)") (auto simp: buffer_frames_full)
    from "1.hyps" [OF _ _ gs] "1.prems"(1) False
    have IH: "if r = [] then drop n xs = [] \<and> gs = []
        \<or> gs \<noteq> [] \<and> snd (last gs) \<and> (\<forall>(f, fin) \<in> set (butlast gs). \<not> fin)
      else (\<forall>(f, fin) \<in> set gs. \<not> fin)"
      by simp
    have "r \<noteq> [] \<Longrightarrow> drop n xs \<noteq> []"
      using gs "1.prems"(1) by auto
    moreover have "gs \<noteq> [] \<Longrightarrow> drop n xs \<noteq> []"
      using gs "1.prems"(1) by auto
    ultimately show ?thesis
      using IH fs by (cases "r = []"; cases "gs = []") auto
  qed
qed

section \<open>The loop\<close>

text \<open>A buffer created with size 0 is full before and after every round.\<close>

lemma write_loop_zero_size:
  assumes "\<And>f k fin s. \<exists>s'. cb f k fin s = Inr s'" and "inc \<noteq> []"
    and "b_allocated b = 0" and "b_used b = 0"
  shows "write_loop cb inc e (b, s) = None"
proof (rule ccontr)
  assume "\<not> ?thesis"
  then obtain x where x: "write_loop cb inc e (b, s) = Some x" by auto
  let ?P = "\<lambda>g inc (e :: bool) st (x :: (mumble_buffer \<times> 'a) res).
    \<not> (g = cb \<and> inc \<noteq> [] \<and> b_allocated (fst st) = 0 \<and> b_used (fst st) = 0)"
  have "?P cb inc e (b, s) x"
  proof (rule write_loop.raw_induct [where P = ?P, OF _ x], goal_cases)
    case (1 f g inc e st x)
    note IH = 1(1) and run = 1(2)
    obtain b s where st: "st = (b, s)" by (cases st)
    show ?case
    proof
      assume z: "g = cb \<and> inc \<noteq> [] \<and> b_allocated (fst st) = 0 \<and> b_used (fst st) = 0"
      obtain s' where "cb (b_buf b) 0 False s = Inr s'" using assms(1) by blast
      with z run st have "f cb inc e (b\<lparr>b_used := 0\<rparr>, s') = Some x"
        by (simp add: Let_def split: if_splits)
      from IH [OF this] z st show False by simp
    qed
  qed
  with assms show False by simp
qed

lemma write_loop_Nil [simp]: "write_loop cb [] e (b, s) = ok (b, s)"
  by (subst write_loop.simps) simp

lemma pending_length [simp]: "wf_buffer b \<Longrightarrow> length (pending b) = b_used b"
  by (simp add: wf_buffer_def pending_def)

text \<open>One round of the loop that does not fill the buffer, and one that does.\<close>

lemma write_loop_keep:
  assumes wf: "wf_buffer b" and "inc \<noteq> []" and "b_used b + length inc < b_allocated b"
  shows "\<exists>b'. write_loop cb inc e (b, s) = ok (b', s) \<and> wf_buffer b'
    \<and> b_allocated b' = b_allocated b \<and> pending b' = pending b @ inc"
proof -
  let ?mem = "take (b_used b) (b_buf b) @ inc @ drop (b_used b + length inc) (b_buf b)"
  let ?b' = "b\<lparr>b_buf := ?mem, b_used := b_used b + length inc\<rparr>"
  have "write_loop cb inc e (b, s) = ok (?b', s)"
    using assms by (subst write_loop.simps) (simp add: wf_buffer_def Let_def)
  moreover have "wf_buffer ?b'" and "pending ?b' = pending b @ inc"
    using assms by (simp_all add: wf_buffer_def pending_def)
  ultimately show ?thesis by auto
qed

lemma write_loop_fill:
  assumes wf: "wf_buffer b" and ge: "b_allocated b \<le> b_used b + length inc"
  defines "n \<equiv> b_allocated b"
  defines "xs \<equiv> pending b @ inc"
  shows "write_loop cb inc e (b, s) =
    (case cb (take n xs) n (e \<and> drop n xs = []) s of
       Inl f \<Rightarrow> faults f
     | Inr s' \<Rightarrow> write_loop cb (drop n xs) e (b\<lparr>b_buf := take n xs, b_used := 0\<rparr>, s'))"
proof -
  let ?k = "n - b_used b"
  from wf have used: "b_used b < n" and len: "length (b_buf b) = n"
    by (simp_all add: wf_buffer_def n_def)
  from ge used have k: "min (length inc) (b_allocated b - b_used b) = ?k" "inc \<noteq> []"
    "length (take ?k inc) = ?k"
    by (auto simp: n_def)
  have mem: "take (b_used b) (b_buf b) @ take ?k inc @ drop (b_used b + ?k) (b_buf b) = take n xs"
    using used len wf by (simp add: xs_def pending_def)
  have rest: "drop ?k inc = drop n xs"
    using used len wf by (simp add: xs_def)
  have "poke (b_buf b) (b_used b) (take ?k inc) = Inr (take n xs)"
    using used len k mem by (simp add: poke_def)
  with k used rest show ?thesis
    by (subst write_loop.simps) (simp add: n_def Let_def split: sum.split)
qed

lemma write_loop_spec:
  assumes "wf_buffer b"
  shows "\<exists>b'. wf_buffer b' \<and> b_allocated b' = b_allocated b
    \<and> pending b' = snd (buffer_frames (b_allocated b) e (pending b @ inc))
    \<and> write_loop cb inc e (b, s)
       = Some (rbind (deliver cb (b_allocated b) (fst (buffer_frames (b_allocated b) e (pending b @ inc))) s)
                (\<lambda>s'. Inr (b', s')))"
  using assms
proof (induction "length inc" arbitrary: inc b s rule: less_induct)
  case less
  let ?n = "b_allocated b" and ?xs = "pending b @ inc"
  from less.prems have n: "0 < ?n" and used: "b_used b < ?n"
    by (simp_all add: wf_buffer_def)
  consider "inc = []" | "inc \<noteq> []" "b_used b + length inc < ?n" | "?n \<le> b_used b + length inc"
    by linarith
  then show ?case
  proof cases
    case 1
    with less.prems used show ?thesis by auto
  next
    case 2
    from write_loop_keep [OF less.prems this, of cb e s] less.prems 2 show ?thesis by auto
  next
    case 3
    let ?b = "b\<lparr>b_buf := take ?n ?xs, b_used := 0\<rparr>" and ?inc = "drop ?n ?xs"
    have full: "?n \<le> length ?xs"
      using 3 less.prems by simp
    have wf: "wf_buffer ?b" and p: "pending ?b = []" and a: "b_allocated ?b = ?n"
      using full n by (simp_all add: wf_buffer_def pending_def)
    have "length ?inc < length inc"
      using 3 used less.prems by simp
    note IH = less.hyps [OF this wf, unfolded p a append_Nil]
    note frames = buffer_frames_full [OF n full, of e]
    note fill = write_loop_fill [OF less.prems 3, of cb e s]
    show ?thesis
    proof (cases "cb (take ?n ?xs) ?n (e \<and> ?inc = []) s")
      case (Inl f)
      with IH [of s] frames fill show ?thesis by auto
    next
      case (Inr s')
      with IH [of s'] frames fill show ?thesis by auto
    qed
  qed
qed

text \<open>The program's writes, all of them with the final bit clear, and the flush.\<close>

lemma buffer_exec_Write:
  "buffer_exec cb (Write inc e) (b, s) =
     cbind (write_loop cb inc e (b, s))
       (\<lambda>(b, s). if e \<and> 0 < b_used b then buffer_exec cb Flush (b, s) else ok (b, s))"
  by (subst buffer_exec.simps) simp

text \<open>
  A flush fills the buffer and calls \<open>mumble_buffer_write\<close> with nothing to write; the buffer is still
  full, so that call flushes again. \<open>stuck\<close> describes the calls of this chain.
\<close>

fun stuck :: "buffer_call \<Rightarrow> mumble_buffer \<Rightarrow> bool" where
  "stuck Flush b \<longleftrightarrow> length (b_buf b) = b_allocated b \<and> b_used b \<le> b_allocated b \<and> 0 < b_allocated b"
| "stuck (Write inc e) b \<longleftrightarrow> inc = [] \<and> e \<and> length (b_buf b) = b_allocated b
     \<and> b_used b = b_allocated b \<and> 0 < b_allocated b"

lemma buffer_exec_not_stuck:
  "buffer_exec cb call st = Some x \<Longrightarrow> \<not> stuck call (fst st)"
proof (erule buffer_exec.raw_induct [where P = "\<lambda>cb call st x. \<not> stuck call (fst st)", rotated], goal_cases)
  case (1 f cb call st x)
  note IH = 1(1) and run = 1(2)
  obtain b s where st: "st = (b, s)" by (cases st)
  show ?case
  proof
    assume stuck: "stuck call (fst st)"
    show False
    proof (cases call)
      case Flush
      let ?b = "b\<lparr>b_buf := take (b_used b) (b_buf b) @ replicate (b_allocated b - b_used b) 0,
                   b_used := b_allocated b\<rparr>"
      from run stuck st Flush have "f cb (Write [] True) (?b, s) = Some x" by simp
      from IH [OF this] stuck st Flush show False by simp
    next
      case (Write inc e)
      with run stuck st have "f cb Flush (b, s) = Some x" by simp
      from IH [OF this] stuck st Write show False by simp
    qed
  qed
qed

lemma flush_stuck:
  assumes "wf_buffer b"
  shows "mumble_buffer_flush cb b s = None"
proof (rule ccontr)
  assume "\<not> ?thesis"
  then obtain x where "buffer_exec cb Flush (b, s) = Some x"
    by (auto simp: mumble_buffer_flush_def)
  from buffer_exec_not_stuck [OF this] assms show False
    by (simp add: wf_buffer_def)
qed

text \<open>
  C40: \<open>mumble_buffer_flush\<close> never returns: filling the buffer and writing nothing with the final bit
  set leaves the buffer full, which flushes again.
\<close>

theorem mumble_buffer_flush_diverges:
  assumes "wf_buffer b"
  shows "mumble_buffer_flush cb b s = never_returns"
  using assms by (rule flush_stuck)

theorem mumble_buffer_flush_diverges_witness:
  "mumble_buffer_flush (\<lambda>f n fin s. Inr (s @ [f])) \<lparr>b_buf = [1, 2], b_allocated = 2, b_used = 1\<rparr> []
    = never_returns"
  by (rule mumble_buffer_flush_diverges) (simp add: wf_buffer_def)

lemma buffer_write_frames:
  assumes "wf_buffer b" and "buffer_frames (b_allocated b) False (pending b @ data) = (fs, r)"
  shows "\<exists>b'. wf_buffer b' \<and> b_allocated b' = b_allocated b \<and> pending b' = r
    \<and> mumble_buffer_write cb data False b s
       = Some (rbind (deliver cb (b_allocated b) fs s) (\<lambda>s'. Inr (b', s')))"
proof -
  from write_loop_spec [OF assms(1), of False data cb s] assms(2) obtain b' where
    b': "wf_buffer b'" "b_allocated b' = b_allocated b" "pending b' = r"
    "write_loop cb data False (b, s) = Some (rbind (deliver cb (b_allocated b) fs s) (\<lambda>s'. Inr (b', s')))"
    by auto
  then have "mumble_buffer_write cb data False b s
       = Some (rbind (deliver cb (b_allocated b) fs s) (\<lambda>s'. Inr (b', s')))"
    by (cases "deliver cb (b_allocated b) fs s") (simp_all add: mumble_buffer_write_def buffer_exec_Write)
  with b' show ?thesis by blast
qed

text \<open>
  C24: A write cuts the stream of bytes into frames, wherever the writes are cut: the callback is called
  on exactly the full frames of what was pending followed by the new bytes, in order; the remainder is
  pending afterwards and the buffer keeps its size. If a callback faults the write stops there.
\<close>

theorem mumble_buffer_write_frames:
  assumes "wf_buffer b" and "buffer_frames (b_allocated b) False (pending b @ data) = (fs, r)"
  shows "\<exists>b'. wf_buffer b' \<and> b_allocated b' = b_allocated b \<and> pending b' = r
    \<and> mumble_buffer_write cb data False b s
       = Some (rbind (deliver cb (b_allocated b) fs s) (\<lambda>s'. Inr (b', s')))"
  using assms by (rule buffer_write_frames)

theorem mumble_buffer_write_frames_witness:
  "\<exists>b'. pending b' = [5] \<and>
    mumble_buffer_write (\<lambda>f n fin s. Inr (s @ [(f, fin)])) [2, 3, 4, 5] False
      \<lparr>b_buf = [1, 0], b_allocated = 2, b_used = 1\<rparr> [] = ok (b', [([1, 2], False), ([3, 4], False)])"
  using mumble_buffer_write_frames
    [of "\<lparr>b_buf = [1, 0], b_allocated = 2, b_used = 1\<rparr>" "[2, 3, 4, 5]"
        "[([1, 2], False), ([3, 4], False)]" "[5]" "\<lambda>f n fin s. Inr (s @ [(f, fin)])" "[]"]
  by (auto simp: wf_buffer_def pending_def buffer_frames.simps)

text \<open>
  A final write (end bit set) whose bytes complete a frame delivers the last frame, and only it,
  with the final flag and returns with an empty buffer. When bytes are left over it delivers the full
  frames without the flag and then never returns.
\<close>

theorem mumble_buffer_write_final:
  assumes "wf_buffer b" and "data \<noteq> []"
    and "buffer_frames (b_allocated b) True (pending b @ data) = (fs, r)"
    and "deliver cb (b_allocated b) fs s = Inr s'"
  shows "if (length (pending b) + length data) mod b_allocated b = 0
    then fs \<noteq> [] \<and> snd (last fs) \<and> (\<forall>(f, fin) \<in> set (butlast fs). \<not> fin)
         \<and> (\<exists>b'. mumble_buffer_write cb data True b s = ok (b', s') \<and> wf_buffer b' \<and> pending b' = [])
    else (\<forall>(f, fin) \<in> set fs. \<not> fin) \<and> mumble_buffer_write cb data True b s = never_returns"
proof -
  let ?xs = "pending b @ data"
  have n: "0 < b_allocated b"
    using assms(1) by (simp add: wf_buffer_def)
  from write_loop_spec [OF assms(1), of True data cb s] assms(3,4) obtain b' where
    b': "wf_buffer b'" "pending b' = r" "write_loop cb data True (b, s) = ok (b', s')"
    by auto
  have rest: "length r = (length (pending b) + length data) mod b_allocated b"
    using buffer_frames_rest [OF n, of True ?xs] assms(3) by simp
  then have aligned: "(length (pending b) + length data) mod b_allocated b = 0 \<longleftrightarrow> r = []"
    by (metis length_0_conv)
  have used: "b_used b' = length r"
    using pending_length [OF b'(1)] b'(2) by simp
  have outcome: "mumble_buffer_write cb data True b s
     = (if r = [] then ok (b', s') else mumble_buffer_flush cb b' s')"
    using b'(3) used by (simp add: mumble_buffer_write_def mumble_buffer_flush_def buffer_exec_Write)
  show ?thesis
    using buffer_frames_flags [OF n assms(3)] aligned outcome b' assms(2)
      flush_stuck [OF b'(1), of cb s']
    by auto
qed


theorem mumble_buffer_write_final_witness:
  "mumble_buffer_write (\<lambda>f n fin s. Inr (s @ [(f, fin)])) [2, 3] True
      \<lparr>b_buf = [1, 0], b_allocated = 2, b_used = 1\<rparr> [] = never_returns"
  using mumble_buffer_write_final
    [of "\<lparr>b_buf = [1, 0], b_allocated = 2, b_used = 1\<rparr>" "[2, 3]" "[([1, 2], False)]" "[3]"
        "\<lambda>f n fin s. Inr (s @ [(f, fin)])" "[]" "[([1, 2], False)]"]
  by (simp add: wf_buffer_def pending_def buffer_frames.simps)

section \<open>Buffers of size zero\<close>

text \<open>
  A write of at least one byte into a buffer created with size 0 calls the callback with empty
  frames forever.
\<close>

theorem mumble_buffer_write_zero_size:
  assumes "mumble_buffer_create 0 struct_ok mem = Inr b" and "data \<noteq> []"
    and "\<And>f k fin s. \<exists>s'. cb f k fin s = Inr s'"
  shows "mumble_buffer_write cb data end_bit b s = never_returns"
proof -
  from assms(1) have "b_allocated b = 0" "b_used b = 0"
    by (auto simp: mumble_buffer_create_def split: if_splits option.splits)
  from write_loop_zero_size [where e = end_bit and s = s, OF assms(3,2) this] show ?thesis
    by (simp add: mumble_buffer_write_def buffer_exec_Write)
qed

theorem mumble_buffer_write_zero_size_witness:
  "mumble_buffer_write (\<lambda>f n fin (c :: nat). Inr (c + 1)) [7] False \<lparr>b_buf = [], b_allocated = 0, b_used = 0\<rparr> 0
    = never_returns"
  by (rule mumble_buffer_write_zero_size [where struct_ok = True and mem = "Some []"]) (simp_all add: mumble_buffer_create_def)

section \<open>Sinks\<close>

text \<open>
  What a client of the buffer needs of its callback to keep an invariant of its own state through a
  write: every frame of the buffer's size keeps it.
\<close>

locale frame_sink =
  fixes cb :: "'s buffer_cb" and n :: nat and inv :: "'s \<Rightarrow> bool"
  assumes cb_inv: "inv s \<Longrightarrow> length f = n \<Longrightarrow> cb f n fin s = Inr s' \<Longrightarrow> inv s'"
begin

lemma deliver_inv:
  "inv s \<Longrightarrow> \<forall>(f, fin) \<in> set fs. length f = n \<Longrightarrow> deliver cb n fs s = Inr s' \<Longrightarrow> inv s'"
proof (induction fs arbitrary: s)
  case (Cons a fs)
  then obtain f fin s1 where "a = (f, fin)" "length f = n" "cb f n fin s = Inr s1"
    "deliver cb n fs s1 = Inr s'"
    by (cases a) (auto simp: rbind_Inr_iff)
  with Cons.IH [of s1] Cons.prems cb_inv show ?case by auto
qed simp

text \<open>A write that returns, with the final bit clear, keeps the invariant and the buffer.\<close>

lemma write_inv:
  assumes "wf_buffer b" and "b_allocated b = n" and "inv s"
    and "mumble_buffer_write cb data False b s = ok (b', s')"
  shows "inv s' \<and> wf_buffer b' \<and> b_allocated b' = n"
proof -
  obtain fs r where fs: "buffer_frames (b_allocated b) False (pending b @ data) = (fs, r)"
    by fastforce
  obtain b1 where b1: "wf_buffer b1" "b_allocated b1 = b_allocated b"
      "mumble_buffer_write cb data False b s = Some (rbind (deliver cb (b_allocated b) fs s) (\<lambda>s'. Inr (b1, s')))"
    using buffer_write_frames [OF assms(1) fs, of cb s] by blast
  then have "rbind (deliver cb n fs s) (\<lambda>s'. Inr (b1, s')) = Inr (b', s')"
    using assms(2,4) by simp
  then have "deliver cb n fs s = Inr s'" and "b' = b1"
    by (simp_all add: rbind_Inr_iff)
  moreover have "\<forall>(f, fin) \<in> set fs. length f = n"
    using buffer_frames_lengths [of "b_allocated b" False "pending b @ data"] unfolding fs by (simp add: assms(2))
  ultimately show ?thesis
    using deliver_inv [OF assms(3)] b1 assms(2) by blast
qed

end

end
