(* ===== verification/Buffer_Pool.thy ===== *)
theory Buffer_Pool
  imports Mumble_Prelude
begin

text \<open>
  The pool of equally sized buffers of \<^verbatim>\<open>lib/mumble/util/buffer_pool.c\<close>, from which the TCP and the
  UDP transport take the memory of their reads and writes.

  A buffer is its address. The array \<open>p_buffers\<close> holds the buffers handed out in its first \<open>p_in_use\<close>
  places and the free ones behind them; the release swaps the buffer it is given with the last one
  handed out. \<open>in_use\<close> is never negative (the release asserts it), so it is a \<open>nat\<close>.
\<close>

section \<open>The pool and its operations\<close>

type_synonym addr = nat

record buffer_pool =
  p_buffers :: "addr list"
  p_in_use :: nat
  p_size :: nat
  p_count :: nat

text \<open>\<open>array_ok\<close>: the \<open>malloc\<close> of the array succeeded; \<open>m i\<close>: what the \<open>malloc\<close> of buffer \<open>i\<close> returned.\<close>

definition buffer_pool_init :: "nat \<Rightarrow> nat \<Rightarrow> bool \<Rightarrow> (nat \<Rightarrow> addr option) \<Rightarrow> buffer_pool res" where
  "buffer_pool_init number_of_buffers buffer_size array_ok m =
     (if \<not> array_ok then Inl Assert_failed
      else if list_all (\<lambda>i. m i \<noteq> None) [0..<number_of_buffers] then
        Inr \<lparr>p_buffers = map (\<lambda>i. the (m i)) [0..<number_of_buffers], p_in_use = 0,
             p_size = buffer_size, p_count = number_of_buffers\<rparr>
      else Inl Assert_failed)"

text \<open>The addresses handed to \<open>free\<close>, in order, before the array itself.\<close>

definition buffer_pool_free :: "buffer_pool \<Rightarrow> addr list" where
  "buffer_pool_free pool = map (\<lambda>i. p_buffers pool ! i) [0..<p_count pool]"

definition buffer_pool_acquire :: "buffer_pool \<Rightarrow> addr option \<times> buffer_pool" where
  "buffer_pool_acquire pool =
     (if p_in_use pool < p_count pool
      then (Some (p_buffers pool ! p_in_use pool), pool\<lparr>p_in_use := p_in_use pool + 1\<rparr>)
      else (None, pool))"

function release_from :: "nat \<Rightarrow> buffer_pool \<Rightarrow> addr \<Rightarrow> buffer_pool res" where
  "release_from i pool buf =
     (if i < p_count pool then
        if p_buffers pool ! i = buf then
          if 0 < p_in_use pool then
            let j = p_in_use pool - 1 in
            Inr (pool\<lparr>p_buffers := ((p_buffers pool)[i := p_buffers pool ! j])[j := buf],
                      p_in_use := j\<rparr>)
          else Inl Assert_failed
        else release_from (Suc i) pool buf
      else Inr pool)"
  by pat_completeness auto
termination
  by (relation "measure (\<lambda>(i, pool, buf). p_count pool - i)") auto

declare release_from.simps [simp del]

definition buffer_pool_release :: "buffer_pool \<Rightarrow> addr \<Rightarrow> buffer_pool res" where
  "buffer_pool_release pool buf = release_from 0 pool buf"

section \<open>Well-formed pools\<close>

definition wf_pool :: "buffer_pool \<Rightarrow> bool" where
  "wf_pool p \<longleftrightarrow> length (p_buffers p) = p_count p \<and> distinct (p_buffers p) \<and> p_in_use p \<le> p_count p"

text \<open>The abstract state: the set of buffers handed out.\<close>

definition held :: "buffer_pool \<Rightarrow> addr set" where
  "held p = set (take (p_in_use p) (p_buffers p))"

lemma wf_pool_init:
  assumes "buffer_pool_init n sz array_ok m = Inr p" and "inj_on m {..<n}"
  shows "wf_pool p" and "held p = {}" and "p_count p = n"
proof -
  from assms(1) have m: "\<And>i. i < n \<Longrightarrow> m i \<noteq> None" and p: "p_buffers p = map (\<lambda>i. the (m i)) [0..<n]"
    "p_in_use p = 0" "p_count p = n"
    by (auto simp: buffer_pool_init_def list_all_iff split: if_splits)
  have "inj_on (\<lambda>i. the (m i)) {..<n}"
  proof (rule inj_onI)
    fix i j
    assume ij: "i \<in> {..<n}" "j \<in> {..<n}" "the (m i) = the (m j)"
    with m [of i] m [of j] obtain x y where "m i = Some x" "m j = Some y" by auto
    with ij have "m i = m j" by simp
    with assms(2) ij show "i = j" by (auto dest: inj_onD)
  qed
  with p show "wf_pool p" and "held p = {}" and "p_count p = n"
    by (auto simp: wf_pool_def held_def distinct_map atLeast0LessThan)
qed

lemma held_card: "wf_pool p \<Longrightarrow> card (held p) = p_in_use p"
  by (simp add: wf_pool_def held_def distinct_card)

lemma acquire_Some:
  assumes "wf_pool p" and "buffer_pool_acquire p = (Some a, p')"
  shows "wf_pool p'" and "a \<notin> held p" and "held p' = insert a (held p)"
    and "p_buffers p' = p_buffers p" and "p_count p' = p_count p" and "p_size p' = p_size p"
proof -
  from assms have k: "p_in_use p < length (p_buffers p)" and a: "a = p_buffers p ! p_in_use p"
    and p': "p' = p\<lparr>p_in_use := Suc (p_in_use p)\<rparr>"
    by (auto simp: buffer_pool_acquire_def wf_pool_def split: if_splits)
  have "distinct (take (Suc (p_in_use p)) (p_buffers p))"
    using assms(1) by (simp add: wf_pool_def)
  with k a show "a \<notin> held p"
    by (simp add: held_def take_Suc_conv_app_nth)
  show "held p' = insert a (held p)"
    using k a p' by (simp add: held_def take_Suc_conv_app_nth)
  show "wf_pool p'" "p_buffers p' = p_buffers p" "p_count p' = p_count p" "p_size p' = p_size p"
    using assms(1) k p' by (simp_all add: wf_pool_def)
qed

lemma acquire_full:
  assumes "wf_pool p"
  shows "fst (buffer_pool_acquire p) = None \<longleftrightarrow> card (held p) = p_count p"
    and "buffer_pool_acquire p = (None, p') \<Longrightarrow> p' = p"
  using assms by (auto simp: buffer_pool_acquire_def held_card wf_pool_def split: if_splits)

text \<open>The search of the release stops at the place of the buffer, wherever it starts before it.\<close>

lemma release_from_found:
  assumes "distinct (p_buffers p)" and "length (p_buffers p) = p_count p"
    and "k < p_count p" and "i \<le> k"
  shows "release_from i p (p_buffers p ! k) =
    (if 0 < p_in_use p
     then Inr (p\<lparr>p_buffers := ((p_buffers p)[k := p_buffers p ! (p_in_use p - 1)])
                                [p_in_use p - 1 := p_buffers p ! k],
                 p_in_use := p_in_use p - 1\<rparr>)
     else Inl Assert_failed)"
  using assms(3,4)
proof (induction "k - i" arbitrary: i)
  case 0
  then show ?case
    by (subst release_from.simps) (simp add: Let_def)
next
  case (Suc d)
  then have "i < k" by simp
  with Suc.prems assms(1,2) have "p_buffers p ! i \<noteq> p_buffers p ! k"
    by (simp add: nth_eq_iff_index_eq)
  with Suc \<open>i < k\<close> show ?case
    by (subst release_from.simps) simp
qed

lemma release_from_foreign:
  "length (p_buffers p) = p_count p \<Longrightarrow> buf \<notin> set (p_buffers p) \<Longrightarrow> release_from i p buf = Inr p"
proof (induction i p buf rule: release_from.induct)
  case (1 i p buf)
  then show ?case
    by (subst release_from.simps) auto
qed


lemma swap_prefix:
  assumes "distinct xs" and "j < length xs" and "k \<le> j"
  defines "ys \<equiv> (xs[k := xs ! j])[j := xs ! k]"
  shows "set (take j ys) = set (take (Suc j) xs) - {xs ! k}"
proof -
  have k: "k < length (take (Suc j) xs)" and j: "j < length (take (Suc j) xs)"
    using assms(2,3) by simp_all
  have t: "take (Suc j) ys = ((take (Suc j) xs)[k := take (Suc j) xs ! j])[j := take (Suc j) xs ! k]"
    using assms(3) by (simp add: ys_def take_update_swap)
  have "set (take (Suc j) ys) = set (take (Suc j) xs)"
    unfolding t using k j by (rule set_swap)
  moreover have "take (Suc j) ys = take j ys @ [xs ! k]"
    using assms(2) by (simp add: ys_def take_Suc_conv_app_nth)
  moreover have "distinct (take (Suc j) ys)"
    unfolding t using k j assms(1) by (simp only: distinct_swap distinct_take)
  ultimately show ?thesis by auto
qed

lemma release_swap:
  assumes "wf_pool p" and "k < p_count p" and "0 < p_in_use p"
  defines "j \<equiv> p_in_use p - 1"
  defines "p' \<equiv> p\<lparr>p_buffers := ((p_buffers p)[k := p_buffers p ! j])[j := p_buffers p ! k], p_in_use := j\<rparr>"
  shows "buffer_pool_release p (p_buffers p ! k) = Inr p'" and "wf_pool p'"
    and "set (p_buffers p') = set (p_buffers p)"
    and "held p' = held p - {if k \<le> j then p_buffers p ! k else p_buffers p ! j}"
proof -
  from assms have bnd: "k < length (p_buffers p)" "j < length (p_buffers p)"
    and dist: "distinct (p_buffers p)" and suc: "p_in_use p = Suc j"
    by (auto simp: wf_pool_def)
  show "buffer_pool_release p (p_buffers p ! k) = Inr p'"
    using assms by (simp add: buffer_pool_release_def release_from_found wf_pool_def)
  show "wf_pool p'"
    using assms(1) bnd dist suc by (simp add: wf_pool_def p'_def distinct_swap)
  show "set (p_buffers p') = set (p_buffers p)"
    using bnd by (simp add: p'_def set_swap)
  show "held p' = held p - {if k \<le> j then p_buffers p ! k else p_buffers p ! j}"
  proof (cases "k \<le> j")
    case True
    with swap_prefix [OF dist bnd(2) True] suc show ?thesis
      by (simp add: held_def p'_def)
  next
    case False
    with swap_prefix [OF dist bnd(2) order_refl] suc show ?thesis
      by (simp add: held_def p'_def)
  qed
qed

lemma release_held:
  assumes "wf_pool p" and "a \<in> held p"
  shows "\<exists>p'. buffer_pool_release p a = Inr p' \<and> wf_pool p' \<and> held p' = held p - {a}
    \<and> set (p_buffers p') = set (p_buffers p) \<and> p_count p' = p_count p \<and> p_size p' = p_size p"
proof -
  from assms obtain k where k: "k < p_in_use p" "a = p_buffers p ! k" "k < p_count p"
    by (auto simp: held_def wf_pool_def in_set_conv_nth)
  with release_swap [OF assms(1) k(3)] show ?thesis by auto
qed

section \<open>The contract with the transports\<close>

text \<open>
  What a transport relies on when it takes a buffer for the time of one call: the buffer is nobody
  else's, and giving it back restores the set of buffers handed out.
\<close>

locale buffer_provider =
  fixes acquire :: "'p \<Rightarrow> addr option \<times> 'p"
    and release :: "'p \<Rightarrow> addr \<Rightarrow> 'p res"
    and out :: "'p \<Rightarrow> addr set"
    and capacity :: "'p \<Rightarrow> nat"
    and wf :: "'p \<Rightarrow> bool"
  assumes acquire_new: "wf p \<Longrightarrow> acquire p = (Some a, p')
      \<Longrightarrow> wf p' \<and> a \<notin> out p \<and> out p' = insert a (out p) \<and> capacity p' = capacity p"
    and acquire_fails: "wf p \<Longrightarrow> fst (acquire p) = None \<longleftrightarrow> card (out p) = capacity p"
    and acquire_None: "wf p \<Longrightarrow> acquire p = (None, p') \<Longrightarrow> p' = p"
    and release_out: "wf p \<Longrightarrow> a \<in> out p
      \<Longrightarrow> \<exists>p'. release p a = Inr p' \<and> wf p' \<and> out p' = out p - {a} \<and> capacity p' = capacity p"
    and finite_out: "wf p \<Longrightarrow> finite (out p) \<and> card (out p) \<le> capacity p"
begin

lemma acquire_succeeds:
  assumes "wf p" and "card (out p) < capacity p"
  obtains a p' where "acquire p = (Some a, p')" "wf p'" "a \<notin> out p" "out p' = insert a (out p)"
    "capacity p' = capacity p" "card (out p') = Suc (card (out p))"
proof -
  obtain r p' where ac: "acquire p = (r, p')" by fastforce
  with acquire_fails [OF assms(1)] assms(2) obtain a where "r = Some a"
    by (cases r) auto
  with ac acquire_new [OF assms(1), of a p'] finite_out [OF assms(1)] that show thesis
    by (auto simp: card_insert_if)
qed

text \<open>A buffer held for the time of a call, during which others take and give back theirs.\<close>

lemma bracket:
  assumes "wf p" and "acquire p = (Some a, p1)" and "wf p2" and "out p2 = out p1" and "capacity p2 = capacity p1"
  shows "\<exists>p3. release p2 a = Inr p3 \<and> wf p3 \<and> out p3 = out p \<and> capacity p3 = capacity p"
  using acquire_new [OF assms(1,2)] release_out [OF assms(3), of a] assms(4,5) by auto

end

interpretation pool: buffer_provider buffer_pool_acquire buffer_pool_release held p_count wf_pool
proof
  fix p p' :: buffer_pool and a :: addr
  assume wf: "wf_pool p"
  show "wf_pool p' \<and> a \<notin> held p \<and> held p' = insert a (held p) \<and> p_count p' = p_count p"
    if "buffer_pool_acquire p = (Some a, p')"
    using acquire_Some [OF wf that] by simp
  show "fst (buffer_pool_acquire p) = None \<longleftrightarrow> card (held p) = p_count p"
    by (rule acquire_full(1) [OF wf])
  show "p' = p" if "buffer_pool_acquire p = (None, p')"
    using wf that by (rule acquire_full(2))
  show "\<exists>p'. buffer_pool_release p a = Inr p' \<and> wf_pool p' \<and> held p' = held p - {a}
      \<and> p_count p' = p_count p" if "a \<in> held p"
    using release_held [OF wf that] by blast
  show "finite (held p) \<and> card (held p) \<le> p_count p"
    using wf by (simp add: held_card) (simp add: held_def wf_pool_def)
qed


section \<open>Histories of a pool\<close>

text \<open>
  The abstract pool is the set of buffers handed out among a fixed set \<open>all\<close>: an acquire hands out
  some free buffer, or none when there is none; a release takes one back.
\<close>

datatype pool_event = Acquired "addr option" | Released addr

inductive abstract_pool :: "addr set \<Rightarrow> addr set \<Rightarrow> pool_event list \<Rightarrow> addr set \<Rightarrow> bool"
  for all :: "addr set" where
  nothing: "abstract_pool all H [] H"
| take_out: "a \<in> all \<Longrightarrow> a \<notin> H \<Longrightarrow> abstract_pool all (insert a H) es H'
    \<Longrightarrow> abstract_pool all H (Acquired (Some a) # es) H'"
| none_left: "H = all \<Longrightarrow> abstract_pool all H es H' \<Longrightarrow> abstract_pool all H (Acquired None # es) H'"
| give_back: "a \<in> H \<Longrightarrow> abstract_pool all (H - {a}) es H' \<Longrightarrow> abstract_pool all H (Released a # es) H'"

inductive_cases abstract_pool_ConsE: "abstract_pool all H (e # es) H'"

datatype pool_call = Acquire | Release addr

text \<open>
  A history of calls on the pool of the code, with what each acquire returned. A caller that gives
  back a buffer it does not hold (\<open>a \<notin> held p\<close>) breaks the contract: the history is \<open>None\<close>.
\<close>

fun pool_history :: "pool_call list \<Rightarrow> buffer_pool \<Rightarrow> (pool_event list \<times> buffer_pool) res option" where
  "pool_history [] p = Some (Inr ([], p))"
| "pool_history (Acquire # cs) p =
     (case buffer_pool_acquire p of (r, p') \<Rightarrow>
        map_option (map_sum id (\<lambda>(es, q). (Acquired r # es, q))) (pool_history cs p'))"
| "pool_history (Release a # cs) p =
     (if a \<notin> held p then None
      else case buffer_pool_release p a of
        Inl f \<Rightarrow> Some (Inl f)
      | Inr p' \<Rightarrow> map_option (map_sum id (\<lambda>(es, q). (Released a # es, q))) (pool_history cs p'))"

lemma release_cases:
  assumes "wf_pool p" and "a \<in> held p"
  obtains p' where "buffer_pool_release p a = Inr p'" "wf_pool p'" "held p' = held p - {a}"
    "set (p_buffers p') = set (p_buffers p)"
  using release_held [OF assms] by blast

lemma held_subset: "held p \<subseteq> set (p_buffers p)"
  by (auto simp: held_def dest: in_set_takeD)

lemma acquire_None_all:
  assumes "wf_pool p" and "buffer_pool_acquire p = (None, p')"
  shows "p' = p" and "held p = set (p_buffers p)"
  using assms by (auto simp: buffer_pool_acquire_def wf_pool_def held_def split: if_splits)

lemma pool_history_refines:
  assumes "wf_pool p" and "pool_history cs p = Some r"
  shows "\<exists>es q. r = Inr (es, q) \<and> wf_pool q \<and> set (p_buffers q) = set (p_buffers p)
    \<and> abstract_pool (set (p_buffers p)) (held p) es (held q)"
  using assms
proof (induction cs arbitrary: p r)
  case Nil
  then show ?case by (auto intro: abstract_pool.nothing)
next
  case (Cons c cs)
  show ?case
  proof (cases c)
    case Acquire
    obtain a p' where ac: "buffer_pool_acquire p = (a, p')" by fastforce
    with Cons.prems Acquire obtain r' where r': "pool_history cs p' = Some r'"
      "r = map_sum id (\<lambda>(es, q). (Acquired a # es, q)) r'"
      by auto
    show ?thesis
    proof (cases a)
      case None
      with acquire_None_all [OF Cons.prems(1)] ac have "p' = p" "held p = set (p_buffers p)" by auto
      with Cons.IH [OF Cons.prems(1)] r' None show ?thesis
        by (fastforce intro: abstract_pool.none_left)
    next
      case (Some x)
      note new = acquire_Some [OF Cons.prems(1) ac [unfolded Some]]
      have "x \<in> set (p_buffers p)"
        using held_subset [of p'] new(3,4) by auto
      with Cons.IH [OF new(1) r'(1)] r'(2) Some new show ?thesis
        by (fastforce intro: abstract_pool.take_out)
    qed
  next
    case (Release a)
    with Cons.prems have a: "a \<in> held p" by (auto split: if_splits)
    then obtain p' where p': "buffer_pool_release p a = Inr p'" "wf_pool p'" "held p' = held p - {a}"
      "set (p_buffers p') = set (p_buffers p)"
      using release_cases [OF Cons.prems(1)] by blast
    with Cons.prems(2) Release a obtain r' where r': "pool_history cs p' = Some r'"
      "r = map_sum id (\<lambda>(es, q). (Released a # es, q)) r'"
      by auto
    with Cons.IH [OF p'(2) r'(1)] p' a show ?thesis
      by (fastforce intro: abstract_pool.give_back)
  qed
qed

text \<open>
  C25: Any history of acquires and releases that gives back only buffers that are out runs without a
  fault and is a history of the abstract pool: no buffer is handed out while it is out, every free one
  can be, and an acquire fails only when all are out. The buffers the pool frees at the end are the
  ones it was created with, each once.
\<close>

theorem buffer_pool_refines:
  assumes "buffer_pool_init n sz array_ok m = Inr p" and "inj_on m {..<n}"
    and "pool_history cs p = Some r"
  shows "\<exists>es q. r = Inr (es, q)
    \<and> abstract_pool ((\<lambda>i. the (m i)) ` {..<n}) {} es (held q)
    \<and> distinct (buffer_pool_free q) \<and> set (buffer_pool_free q) = (\<lambda>i. the (m i)) ` {..<n}"
proof -
  note init = wf_pool_init [OF assms(1,2)]
  from assms(1) have all: "set (p_buffers p) = (\<lambda>i. the (m i)) ` {..<n}"
    by (auto simp: buffer_pool_init_def split: if_splits)
  from pool_history_refines [OF init(1) assms(3)] obtain es q where
    q: "r = Inr (es, q)" "wf_pool q" "set (p_buffers q) = set (p_buffers p)"
    "abstract_pool (set (p_buffers p)) (held p) es (held q)"
    by blast
  from q(2) have "buffer_pool_free q = p_buffers q"
    using map_nth [of "p_buffers q"] by (simp add: buffer_pool_free_def wf_pool_def)
  with q all init(2) show ?thesis by (auto simp: wf_pool_def)
qed

text \<open>
  Giving back a buffer that is not out, while others are, is not detected: the pool then counts
  the buffer handed out last as free although its holder still uses it.
\<close>

theorem double_release_steals:
  assumes "wf_pool p" and "a \<in> set (p_buffers p) - held p" and "held p \<noteq> {}"
  shows "\<exists>victim p'. buffer_pool_release p a = Inr p' \<and> victim \<in> held p \<and> held p' = held p - {victim}"
proof -
  from assms obtain k where k: "k < p_count p" "p_buffers p ! k = a"
    by (auto simp: wf_pool_def in_set_conv_nth)
  from assms(3) have pos: "0 < p_in_use p" by (auto simp: held_def)
  have "a \<in> held p" if "k < p_in_use p"
    using that k assms(1) by (auto simp: held_def wf_pool_def in_set_conv_nth)
  with assms(2) pos have "\<not> k \<le> p_in_use p - 1" by fastforce
  moreover have "p_buffers p ! (p_in_use p - 1) \<in> held p"
    using assms(1) pos
    by (auto simp: held_def wf_pool_def in_set_conv_nth intro!: exI [of _ "p_in_use p - 1"])
  ultimately show ?thesis
    using release_swap [OF assms(1) k(1) pos] k(2) by auto
qed

theorem double_release_steals_witness:
  "\<exists>p'. buffer_pool_release \<lparr>p_buffers = [10, 20], p_in_use = 1, p_size = 4, p_count = 2\<rparr> 20 = Inr p'
    \<and> held p' = {}"
  using double_release_steals [of "\<lparr>p_buffers = [10, 20], p_in_use = 1, p_size = 4, p_count = 2\<rparr>" 20]
  by (auto simp: wf_pool_def held_def)

theorem buffer_pool_refines_witness:
  "\<exists>es q. pool_history [Acquire, Acquire, Release 10, Acquire]
      \<lparr>p_buffers = [10, 20], p_in_use = 0, p_size = 4, p_count = 2\<rparr> = Some (Inr (es, q))
    \<and> distinct (buffer_pool_free q)"
  using buffer_pool_refines [of 2 4 True "\<lambda>i. Some (10 * (i + 1))"
      "\<lparr>p_buffers = [10, 20], p_in_use = 0, p_size = 4, p_count = 2\<rparr>"
      "[Acquire, Acquire, Release 10, Acquire]"]
  by (auto simp: buffer_pool_init_def inj_on_def numeral_2_eq_2 buffer_pool_acquire_def held_def
      buffer_pool_release_def release_from.simps)

end
