(* ===== verification/Block_Ops.thy ===== *)
theory Block_Ops
  imports Mumble_Prelude
begin

text \<open>
  The utility functions of \<^verbatim>\<open>lib/mumble/ocb_aes.c\<close> on 16-byte blocks (\<open>xor_block\<close>, \<open>left_shift\<close>,
  \<open>double_block\<close>, \<open>triple_block\<close>, \<open>ntz\<close>), and what they compute read as arithmetic: a block is a number
  with the most significant byte first, a left shift is a multiplication by a power of two, and
  \<open>double_block\<close> is the multiplication by \<open>x\<close> in GF(2^128).
\<close>

section \<open>The code\<close>

abbreviation AES_BLOCK_SIZE :: nat where
  "AES_BLOCK_SIZE \<equiv> 16"

definition zero_block :: bytes where
  "zero_block = replicate AES_BLOCK_SIZE 0"

definition xor_block_ex :: "bytes \<Rightarrow> bytes \<Rightarrow> nat \<Rightarrow> bytes res" where
  "xor_block_ex a b block_size =
     (if block_size \<le> length a \<and> block_size \<le> length b
      then Inr (map (\<lambda>i. a ! i XOR b ! i) [0..<block_size]) else Inl Out_of_bounds)"

text \<open>On whole blocks, where every operand is an array of 16 bytes.\<close>

definition xor_block :: "bytes \<Rightarrow> bytes \<Rightarrow> bytes" where
  "xor_block a b = map (\<lambda>i. a ! i XOR b ! i) [0..<AES_BLOCK_SIZE]"

definition left_shift :: "bytes \<Rightarrow> nat \<Rightarrow> nat \<Rightarrow> bytes" where
  "left_shift inp inl bits =
     map (\<lambda>i. let index = i + bits div 8 in
              if index < inl then
                let out = push_bit (bits mod 8) (inp ! index) in
                if index + 1 < inl then out OR drop_bit (8 - bits mod 8) (inp ! (index + 1)) else out
              else 0x00)
       [0..<inl]"

definition double_block :: "bytes \<Rightarrow> bytes" where
  "double_block inp =
     (let out = left_shift inp AES_BLOCK_SIZE 1 in
      if inp ! 0 AND 0x80 \<noteq> 0
      then out[AES_BLOCK_SIZE - 1 := out ! (AES_BLOCK_SIZE - 1) XOR 0x87] else out)"

definition triple_block :: "bytes \<Rightarrow> bytes" where
  "triple_block inp = xor_block inp (double_block inp)"

text \<open>\<open>i\<close> is an \<open>int\<close>: its right shift is arithmetic.\<close>

fun ntz_step :: "i32 \<times> nat \<Rightarrow> i32 \<times> nat \<Rightarrow> i32 \<times> nat" where
  "ntz_step (i, out) (b, S) = (if i AND b \<noteq> 0 then (signed_drop_bit S i, out OR S) else (i, out))"

definition ntz :: "i32 \<Rightarrow> nat" where
  "ntz i = snd (foldl ntz_step (i, 0)
     [(0xFFFF0000, 16), (0xFF00, 8), (0xF0, 4), (0xC, 2), (0x2, 1)])"

section \<open>Lengths and exclusive or\<close>

lemma zero_block_length [simp]: "length zero_block = 16"
  by (simp add: zero_block_def)

lemma xor_block_length [simp]: "length (xor_block a b) = 16"
  by (simp add: xor_block_def)

lemma left_shift_length [simp]: "length (left_shift inp inl bits) = inl"
  by (simp add: left_shift_def)

lemma double_block_length [simp]: "length (double_block b) = 16"
  by (simp add: double_block_def Let_def)

lemma triple_block_length [simp]: "length (triple_block b) = 16"
  by (simp add: triple_block_def)

lemma xor_block_nth [simp]: "i < 16 \<Longrightarrow> xor_block a b ! i = a ! i XOR b ! i"
  by (simp add: xor_block_def)

lemma xor_block_ex_Inr: "n \<le> length a \<Longrightarrow> n \<le> length b \<Longrightarrow>
    xor_block_ex a b n = Inr (map (\<lambda>i. a ! i XOR b ! i) [0..<n])"
  by (simp add: xor_block_ex_def)

lemma block_eqI: "length a = 16 \<Longrightarrow> length b = 16 \<Longrightarrow> (\<And>i. i < 16 \<Longrightarrow> a ! i = b ! i) \<Longrightarrow> a = b"
  by (rule nth_equalityI) simp_all

lemma xor_block_commute: "xor_block a b = xor_block b a"
  by (simp add: xor_block_def xor.commute)

lemma xor_block_assoc: "xor_block (xor_block a b) c = xor_block a (xor_block b c)"
  by (rule block_eqI) (simp_all add: xor.assoc)

lemma xor_block_left_commute: "xor_block a (xor_block b c) = xor_block b (xor_block a c)"
  by (rule block_eqI) (simp_all add: xor.left_commute)

lemma xor_block_cancel: "length b = 16 \<Longrightarrow> xor_block a (xor_block a b) = b"
  by (rule block_eqI) (simp_all add: xor.assoc [symmetric])

lemma xor_block_cancel2: "length a = 16 \<Longrightarrow> xor_block (xor_block a b) b = a"
  by (rule block_eqI) (simp_all add: xor.assoc)

lemma xor_block_inject: "length a = 16 \<Longrightarrow> length b = 16 \<Longrightarrow> xor_block c a = xor_block c b \<longleftrightarrow> a = b"
  by (metis xor_block_cancel)

lemmas xor_block_ac = xor_block_assoc xor_block_commute xor_block_left_commute

section \<open>Blocks as numbers\<close>

lemma two_power_8: "(2::nat) ^ 8 = 256"
  by simp

fun be_val :: "bytes \<Rightarrow> nat" where
  "be_val [] = 0"
| "be_val (b # bs) = unat b * 256 ^ length bs + be_val bs"

lemma be_val_less: "be_val bs < 256 ^ length bs"
proof (induction bs)
  case (Cons b bs)
  have "unat b + 1 \<le> 256"
    using unsigned_less [of b, where 'a = nat] by simp
  then have "(unat b + 1) * 256 ^ length bs \<le> 256 * 256 ^ length bs"
    by (rule mult_right_mono) simp
  then have "unat b * 256 ^ length bs + 256 ^ length bs \<le> 256 * 256 ^ length bs"
    by (simp only: distrib_right mult_1)
  with Cons.IH have "unat b * 256 ^ length bs + be_val bs < 256 * 256 ^ length bs"
    by linarith
  then show ?case by simp
qed simp

lemma be_val_append: "be_val (as @ bs) = be_val as * 256 ^ length bs + be_val bs"
  by (induction as) (simp_all add: algebra_simps power_add)

lemma be_val_replicate [simp]: "be_val (replicate n 0) = 0"
  by (induction n) simp_all

text \<open>The shift by less than a byte, as a recursion on the bytes.\<close>

fun shift_small :: "nat \<Rightarrow> bytes \<Rightarrow> bytes" where
  "shift_small r [] = []"
| "shift_small r [y] = [push_bit r y]"
| "shift_small r (y # z # zs) = (push_bit r y OR drop_bit (8 - r) z) # shift_small r (z # zs)"

lemma shift_small_length [simp]: "length (shift_small r ys) = length ys"
  by (induction r ys rule: shift_small.induct) simp_all

lemma shift_small_nth:
  "i < length ys \<Longrightarrow> shift_small r ys ! i =
     (if i + 1 < length ys then push_bit r (ys ! i) OR drop_bit (8 - r) (ys ! (i + 1))
      else push_bit r (ys ! i))"
  by (induction r ys arbitrary: i rule: shift_small.induct) (auto simp: nth_Cons split: nat.splits)

lemma left_shift_split:
  "left_shift xs (length xs) n = shift_small (n mod 8) (drop (n div 8) xs)
     @ replicate (min (n div 8) (length xs)) 0"
proof (rule nth_equalityI)
  fix i assume i: "i < length (left_shift xs (length xs) n)"
  show "left_shift xs (length xs) n ! i
      = (shift_small (n mod 8) (drop (n div 8) xs) @ replicate (min (n div 8) (length xs)) 0) ! i"
  proof (cases "i + n div 8 < length xs")
    case True
    then have "i < length xs - n div 8" and "i < length xs" by auto
    with True show ?thesis
      by (simp add: left_shift_def Let_def shift_small_nth nth_append add.commute)
  next
    case False
    then have "i - (length xs - n div 8) < min (n div 8) (length xs)"
      using i by auto
    moreover have "\<not> i < length xs - n div 8"
      using False by simp
    ultimately show ?thesis using i False
      by (simp add: left_shift_def Let_def nth_append del: min_less_iff_conj)
  qed
qed simp

lemma unat_push_bit_byte: "unat (push_bit r (y :: byte)) = (unat y * 2 ^ r) mod 256"
proof -
  have "unat (push_bit r y) = take_bit 8 (push_bit r (unat y))"
    by (simp only: unsigned_push_bit_eq) simp
  then show ?thesis by (simp add: take_bit_eq_mod push_bit_eq_mult)
qed

lemma unat_shift_or:
  fixes y z :: byte
  assumes "r < 8"
  shows "unat (push_bit r y OR drop_bit (8 - r) z) = (unat y * 2 ^ r) mod 256 + unat z div 2 ^ (8 - r)"
proof -
  have disj: "push_bit r y AND drop_bit (8 - r) z = 0"
    by (rule bit_word_eqI) (auto simp: bit_simps dest: bit_imp_le_length)
  have p: "unat (push_bit r y) = (unat y * 2 ^ r) mod 256"
    by (rule unat_push_bit_byte)
  have d: "unat (drop_bit (8 - r) z) = unat z div 2 ^ (8 - r)"
    using unsigned_less [of z, where 'a = nat]
    by (simp only: unsigned_drop_bit_eq) (simp add: drop_bit_eq_div take_bit_nat_eq_self)
  have "unat z div 2 ^ (8 - r) < 2 ^ r"
  proof -
    have "unat z < 2 ^ r * 2 ^ (8 - r)"
      using unsigned_less [of z, where 'a = nat] assms by (simp add: power_add [symmetric])
    then show ?thesis by (simp add: less_mult_imp_div_less)
  qed
  moreover have "(unat y * 2 ^ r) mod 256 + 2 ^ r \<le> 256"
  proof -
    have "(256::nat) = 2 ^ (8 - r) * 2 ^ r"
      using assms by (simp add: power_add [symmetric])
    then have "(unat y * 2 ^ r) mod 256 = (unat y mod 2 ^ (8 - r)) * 2 ^ r"
      by (simp add: mult_mod_left)
    moreover have "unat y mod 2 ^ (8 - r) + 1 \<le> 2 ^ (8 - r)"
      by (simp add: Suc_leI)
    then have "(unat y mod 2 ^ (8 - r) + 1) * 2 ^ r \<le> 2 ^ (8 - r) * 2 ^ r"
      by (rule mult_right_mono) simp
    ultimately show ?thesis
      unfolding \<open>256 = 2 ^ (8 - r) * 2 ^ r\<close> by (simp only: distrib_right mult_1)
  qed
  ultimately show ?thesis
    using disj p d by (simp add: disjunctive_add_eq_or [symmetric] unat_word_ariths)
qed

lemma carry_of_tail:
  assumes "r \<le> 8"
  shows "(be_val (z # zs) * 2 ^ r) div 256 ^ length (z # zs) = unat z div 2 ^ (8 - r)"
proof -
  have "(256::nat) = 2 ^ (8 - r) * 2 ^ r"
    using assms by (simp add: power_add [symmetric])
  then have "(256::nat) ^ length (z # zs) = (256 ^ length zs * 2 ^ (8 - r)) * 2 ^ r"
    by (metis length_Cons mult.assoc mult.commute power_Suc)
  then have "(be_val (z # zs) * 2 ^ r) div 256 ^ length (z # zs)
      = be_val (z # zs) div (256 ^ length zs * 2 ^ (8 - r))"
    by (simp only: div_mult_mult2 power_eq_0_iff zero_neq_numeral) simp
  also have "\<dots> = (be_val (z # zs) div 256 ^ length zs) div 2 ^ (8 - r)"
    by (simp add: div_mult2_eq)
  also have "be_val (z # zs) div 256 ^ length zs = unat z"
    using be_val_less [of zs] by simp
  finally show ?thesis .
qed

lemma shift_small_val:
  "r < 8 \<Longrightarrow> be_val (shift_small r ys) = (be_val ys * 2 ^ r) mod 256 ^ length ys"
proof (induction r ys rule: shift_small.induct)
  case (2 r y)
  then show ?case
    by (simp add: unat_push_bit_byte)
next
  case (3 r y z zs)
  let ?n = "length (z # zs)" and ?v = "be_val (z # zs)"
  have "be_val (shift_small r (y # z # zs))
      = ((unat y * 2 ^ r) mod 256 + (?v * 2 ^ r) div 256 ^ ?n) * 256 ^ ?n + (?v * 2 ^ r) mod 256 ^ ?n"
    using "3.IH" [OF "3.prems"] unat_shift_or [OF "3.prems", of y z] carry_of_tail [of r z zs] "3.prems"
    by simp
  also have "\<dots> = ((unat y * 2 ^ r) mod 256) * 256 ^ ?n + ?v * 2 ^ r"
    by (simp only: distrib_right add.assoc div_mult_mod_eq)
  finally have v: "be_val (shift_small r (y # z # zs))
      = ((unat y * 2 ^ r) mod 256) * 256 ^ ?n + ?v * 2 ^ r" .
  have "be_val (shift_small r (y # z # zs)) < 256 * 256 ^ ?n"
    using be_val_less [of "shift_small r (y # z # zs)"] by simp
  moreover have "be_val (y # z # zs) * 2 ^ r = (unat y * 2 ^ r) * 256 ^ ?n + ?v * 2 ^ r"
    by (simp add: algebra_simps)
  then have "(be_val (y # z # zs) * 2 ^ r) mod (256 * 256 ^ ?n)
      = (((unat y * 2 ^ r) mod 256) * 256 ^ ?n + ?v * 2 ^ r) mod (256 * 256 ^ ?n)"
    by (metis mod_add_left_eq mult_mod_left)
  ultimately show ?case using v by simp
qed simp

lemma left_shift_arith:
  "be_val (left_shift xs (length xs) n) = (be_val xs * 2 ^ n) mod 256 ^ length xs"
proof -
  let ?q = "n div 8" and ?r = "n mod 8" and ?l = "length xs"
  have pow: "(2::nat) ^ n = 256 ^ ?q * 2 ^ ?r"
    by (metis (no_types) div_mult_mod_eq mult.commute power_add power_mult two_power_8)
  show ?thesis
  proof (cases "?q \<le> ?l")
    case True
    have v: "be_val xs = be_val (take ?q xs) * 256 ^ (?l - ?q) + be_val (drop ?q xs)"
      using be_val_append [of "take ?q xs" "drop ?q xs"] by simp
    have p: "(256::nat) ^ ?l = 256 ^ (?l - ?q) * 256 ^ ?q"
      using True by (simp add: power_add [symmetric])
    have "(be_val xs * 2 ^ n) mod 256 ^ ?l
        = ((be_val xs * 2 ^ ?r) mod 256 ^ (?l - ?q)) * 256 ^ ?q"
      unfolding pow p
      using mult_mod_left [of "be_val xs * 2 ^ ?r" "256 ^ (?l - ?q)" "256 ^ ?q"]
      by (simp only: mult.assoc mult.commute [of "256 ^ ?q" "2 ^ ?r"])
    also have "(be_val xs * 2 ^ ?r) mod 256 ^ (?l - ?q) = (be_val (drop ?q xs) * 2 ^ ?r) mod 256 ^ (?l - ?q)"
      unfolding v
      using mod_mult_self3 [of "be_val (take ?q xs) * 2 ^ ?r" "256 ^ (?l - ?q)" "be_val (drop ?q xs) * 2 ^ ?r"]
      by (simp only: distrib_right mult.assoc mult.commute [of "256 ^ (?l - ?q)" "2 ^ ?r"])
    finally show ?thesis
      using True shift_small_val [of ?r "drop ?q xs"]
      by (simp add: left_shift_split be_val_append)
  next
    case False
    then have "(256::nat) ^ ?l dvd 2 ^ n"
      unfolding pow by (simp add: le_imp_power_dvd dvd_mult2)
    then have "(be_val xs * 2 ^ n) mod 256 ^ ?l = 0"
      by (simp add: mod_eq_0_iff_dvd)
    with False show ?thesis by (simp add: left_shift_split)
  qed
qed

text \<open>
  \<open>left_shift\<close> multiplies by \<open>2 ^ bits\<close> modulo the size of the array, for any number of bytes and any
  number of bits.
\<close>

theorem left_shift_val:
  "be_val (left_shift xs (length xs) n) = (be_val xs * 2 ^ n) mod 256 ^ length xs"
  by (rule left_shift_arith)

section \<open>Doubling\<close>

lemma xor_low_byte:
  assumes "x < 256" and "y < (256::nat)"
  shows "(v * 256 + x) XOR y = v * 256 + (x XOR y)"
proof -
  have disj: "push_bit 8 v + z = push_bit 8 v OR z" if "z < 256" for z :: nat
  proof (rule disjunctive_add_eq_or)
    have "take_bit 8 z = z"
      using that by (simp add: take_bit_nat_eq_self)
    then have "\<not> bit z n" if "8 \<le> n" for n
      using that by (metis bit_take_bit_iff not_less)
    then show "push_bit 8 v AND z = 0"
      by (intro bit_eqI) (auto simp: bit_simps)
  qed
  have bits: "\<not> bit y n" if "8 \<le> n" for n
    using that assms(2) by (metis bit_take_bit_iff not_less take_bit_nat_eq_self two_power_8)
  have "take_bit 8 (x XOR y) = x XOR y"
    using assms by (simp add: take_bit_nat_eq_self)
  then have less: "x XOR y < 256"
    by (metis take_bit_nat_less_exp two_power_8)
  have v: "v * 256 = push_bit 8 v"
    by (simp add: push_bit_eq_mult)
  have "(push_bit 8 v OR x) XOR y = push_bit 8 v OR (x XOR y)"
    using bits by (intro bit_eqI) (auto simp: bit_simps)
  then show ?thesis
    using disj [OF assms(1)] disj [OF less] v by simp
qed

lemma and_high_bits_iff:
  fixes w m :: "'a::len word"
  assumes "\<And>n. bit w n \<Longrightarrow> bit m n \<longleftrightarrow> k \<le> n"
  shows "w AND m \<noteq> 0 \<longleftrightarrow> 2 ^ k \<le> unat w"
proof -
  have "w AND m = 0 \<longleftrightarrow> (\<forall>n. \<not> (bit w n \<and> bit m n))"
    by (auto simp: bit_eq_iff bit_and_iff dest: bit_imp_le_length)
  also have "\<dots> \<longleftrightarrow> (\<forall>n. \<not> bit w (k + n))"
    using assms by (metis le_add1 le_iff_add)
  also have "\<dots> \<longleftrightarrow> drop_bit k w = 0"
  proof
    show "\<forall>n. \<not> bit w (k + n) \<Longrightarrow> drop_bit k w = 0"
      by (rule bit_word_eqI) (simp add: bit_drop_bit_eq)
    show "drop_bit k w = 0 \<Longrightarrow> \<forall>n. \<not> bit w (k + n)"
      by (metis bit_drop_bit_eq bit_0_eq bot_apply bot_bool_def comp_apply)
  qed
  also have "\<dots> \<longleftrightarrow> unat (drop_bit k w) = 0"
    by (simp add: unsigned_eq_0_iff)
  also have "unat (drop_bit k w) = drop_bit k (take_bit LENGTH('a) (unat w))"
    by (simp only: unsigned_drop_bit_eq)
  also have "take_bit LENGTH('a) (unat w) = unat w"
    by (rule take_bit_nat_eq_self) (rule unsigned_less)
  finally show ?thesis
    by (simp add: drop_bit_eq_div div_eq_0_iff not_less)
qed

lemma top_bit_iff: "(y :: byte) AND 0x80 \<noteq> 0 \<longleftrightarrow> 128 \<le> unat y"
proof -
  have "bit (0x80 :: byte) n \<longleftrightarrow> 7 \<le> n" if "bit y n" for n
    using bit_imp_le_length [OF that] by (auto simp: byte_bits)
  then show ?thesis
    using and_high_bits_iff [of y "0x80" 7] by simp
qed

lemma be_val_last:
  "ys \<noteq> [] \<Longrightarrow> be_val ys = be_val (butlast ys) * 256 + unat (last ys)"
  using be_val_append [of "butlast ys" "[last ys]"] by simp

lemma be_val_xor_last:
  assumes "ys \<noteq> []"
  shows "be_val (ys[length ys - 1 := ys ! (length ys - 1) XOR c]) = be_val ys XOR unat c"
proof -
  have upd: "ys[length ys - 1 := ys ! (length ys - 1) XOR c] = butlast ys @ [last ys XOR c]"
    using assms by (metis last_conv_nth list_update_length append_butlast_last_id length_butlast)
  have "unat (last ys) < 256" and "unat c < 256"
    using unsigned_less [of "last ys", where 'a = nat] unsigned_less [of c, where 'a = nat] by simp_all
  then show ?thesis
    using be_val_last [OF assms] be_val_append [of "butlast ys" "[last ys XOR c]"]
      xor_low_byte [of "unat (last ys)" "unat c" "be_val (butlast ys)"]
    by (simp add: upd unsigned_xor_eq del: One_nat_def)
qed

lemma double_block_arith:
  assumes "length b = 16"
  shows "be_val (double_block b)
    = (2 * be_val b) mod 2 ^ 128 XOR (if 2 ^ 127 \<le> be_val b then 0x87 else 0)"
proof -
  let ?s = "left_shift b 16 1"
  have shift: "be_val ?s = (2 * be_val b) mod 2 ^ 128"
    using left_shift_arith [of b 1] assms by (simp add: mult.commute)
  obtain y ys where b: "b = y # ys" "length ys = 15"
    using assms by (cases b) auto
  have "2 ^ 127 \<le> be_val b \<longleftrightarrow> 128 \<le> unat y"
    using be_val_less [of ys] by (auto simp: b)
  also have "\<dots> \<longleftrightarrow> b ! 0 AND 0x80 \<noteq> 0"
    by (simp add: b top_bit_iff)
  finally have carry: "2 ^ 127 \<le> be_val b \<longleftrightarrow> b ! 0 AND 0x80 \<noteq> 0" .
  have len: "length ?s = 16" by simp
  then have "?s \<noteq> []"
    by (metis list.size(3) zero_neq_numeral)
  moreover have "unat (0x87 :: byte) = 0x87" and "length ?s - 1 = 15"
    by simp_all
  ultimately have "be_val (?s[15 := ?s ! 15 XOR 0x87]) = be_val ?s XOR 0x87"
    by (metis be_val_xor_last)
  then show ?thesis
    unfolding carry double_block_def using shift by (simp add: Let_def)
qed

text \<open>
  \<open>double_block\<close> is the multiplication by \<open>x\<close> in GF(2^128) with the polynomial of OCB: twice the
  block modulo \<open>2 ^ 128\<close>, with \<open>0x87\<close> exclusive-ored in exactly when the top bit is lost.
\<close>

theorem double_block_val:
  assumes "length b = 16"
  shows "be_val (double_block b)
    = (2 * be_val b) mod 2 ^ 128 XOR (if 2 ^ 127 \<le> be_val b then 0x87 else 0)"
  using assms by (rule double_block_arith)

theorem double_block_val_witness:
  "be_val (double_block (replicate 16 0x81))
    = (2 * be_val (replicate 16 0x81)) mod 2 ^ 128
       XOR (if 2 ^ 127 \<le> be_val (replicate 16 0x81) then 0x87 else 0)"
  by (rule double_block_val) simp

lemma be_val_inj: "length a = length b \<Longrightarrow> be_val a = be_val b \<Longrightarrow> a = b"
proof (induction a b rule: list_induct2)
  case (Cons x xs y ys)
  have "unat x = (unat x * 256 ^ length xs + be_val xs) div 256 ^ length xs"
    using be_val_less [of xs] by simp
  also have "\<dots> = (unat y * 256 ^ length xs + be_val ys) div 256 ^ length xs"
    using Cons by simp
  also have "\<dots> = unat y"
    using be_val_less [of ys] Cons.hyps by simp
  finally have "x = y" by (simp add: word_eq_iff_unsigned [where 'a = nat] unsigned_word_eqI)
  then show ?case using Cons by simp
qed simp

lemma double_block_inj:
  assumes "length a = 16" and "length b = 16" and "double_block a = double_block b"
  shows "a = b"
proof -
  let ?c = "\<lambda>b. (if 2 ^ 127 \<le> be_val b then 0x87 else 0 :: nat)"
  have eq: "(2 * be_val a) mod 2 ^ 128 XOR ?c a = (2 * be_val b) mod 2 ^ 128 XOR ?c b"
    using double_block_arith [OF assms(1)] double_block_arith [OF assms(2)] assms(3) by metis
  have odd: "odd ((2 * v) mod 2 ^ 128 XOR c) \<longleftrightarrow> odd c" for v c :: nat
    by (simp add: even_xor_iff dvd_mod_iff)
  have "odd (?c a) \<longleftrightarrow> odd (?c b)"
    using odd eq by metis
  then have carry: "2 ^ 127 \<le> be_val a \<longleftrightarrow> 2 ^ 127 \<le> be_val b"
    by (simp split: if_splits)
  then have "?c a = ?c b" by simp
  then have mods: "(2 * be_val a) mod 2 ^ 128 = (2 * be_val b) mod 2 ^ 128"
  proof -
    have "x = y" if "x XOR c = y XOR c" for x y c :: nat
    proof -
      have "(x XOR c) XOR c = (y XOR c) XOR c" using that by simp
      then show ?thesis by (simp only: xor.assoc xor_self_eq xor.right_neutral)
    qed
    then show ?thesis using eq unfolding \<open>?c a = ?c b\<close> .
  qed
  have less: "be_val a < 2 ^ 128" "be_val b < 2 ^ 128"
    using be_val_less [of a] be_val_less [of b] assms by simp_all
  have value_mod: "(2 * v) mod 2 ^ 128 = (if 2 ^ 127 \<le> v then 2 * v - 2 ^ 128 else 2 * v)"
    if "v < 2 ^ 128" for v :: nat
  proof (cases "2 ^ 127 \<le> v")
    case True
    then have "2 * v = (2 * v - 2 ^ 128) + 2 ^ 128" and "2 * v - 2 ^ 128 < 2 ^ 128"
      using that by auto
    then have "(2 * v) mod 2 ^ 128 = 2 * v - 2 ^ 128"
      by (metis mod_add_self2 mod_less)
    with True show ?thesis by simp
  next
    case False
    then have "2 * v < 2 ^ 128" by simp
    with False show ?thesis by (simp only: mod_less) simp
  qed
  have "be_val a = be_val b"
    using mods carry unfolding value_mod [OF less(1)] value_mod [OF less(2)]
    by (simp split: if_splits)
  then show ?thesis using be_val_inj assms by simp
qed

section \<open>Logarithm\<close>

lemma ntz_step_nonneg:
  assumes small: "unat i < 2 ^ (2 * S)" and S: "S \<le> 16" and nonneg: "\<not> bit i 31" and "out = 2 * S * q"
    and "S = 2 ^ k" and mask: "\<And>n. n < 2 * S \<Longrightarrow> bit b n \<longleftrightarrow> S \<le> n"
    and step: "ntz_step (i, out) (b, S) = (i', out')"
  shows "\<exists>q'. unat i' < 2 ^ S \<and> out' = S * q' \<and> unat i' = unat i div 2 ^ (out' - out) \<and> out \<le> out'
    \<and> (0 < unat i \<longrightarrow> 0 < unat i') \<and> \<not> bit i' 31"
proof -
  have "n < 2 * S" if "bit i n" for n
  proof -
    have "take_bit (2 * S) (unat i) = unat i"
      using small by (simp add: take_bit_nat_eq_self)
    moreover have "bit (unat i) n"
      using that by (simp add: bit_unsigned_iff bit_imp_le_length)
    ultimately show ?thesis by (metis bit_take_bit_iff)
  qed
  then have test: "i AND b \<noteq> 0 \<longleftrightarrow> 2 ^ S \<le> unat i"
    using mask by (intro and_high_bits_iff) blast
  have shift: "signed_drop_bit S i = drop_bit S i"
    using nonneg by (intro bit_word_eqI) (auto simp: bit_simps not_le dest: bit_imp_le_length)
  have unat_shift: "unat (drop_bit S i) = unat i div 2 ^ S"
    using unsigned_less [of i, where 'a = nat]
    by (simp only: unsigned_drop_bit_eq) (simp add: drop_bit_eq_div take_bit_nat_eq_self)
  have "out AND S = 0"
    unfolding \<open>out = 2 * S * q\<close> \<open>S = 2 ^ k\<close>
  proof (rule bit_eqI)
    fix n
    have "2 * 2 ^ k * q = push_bit (Suc k) q" by (simp add: push_bit_eq_mult mult_ac)
    then show "bit (2 * 2 ^ k * q AND 2 ^ k) n \<longleftrightarrow> bit (0::nat) n"
      by (simp only: bit_simps) auto
  qed
  then have out: "out OR S = out + S"
    by (simp add: disjunctive_add_eq_or)
  have hi: "unat i div 2 ^ S < 2 ^ S"
    using small by (simp add: less_mult_imp_div_less mult_2 power_add)
  show ?thesis
  proof (cases "2 ^ S \<le> unat i")
    case True
    have "\<not> bit (drop_bit S i) 31"
      using S \<open>S = 2 ^ k\<close> by (auto simp: bit_simps dest: bit_imp_le_length)
    moreover have "0 < unat i div 2 ^ S" using True by (simp add: div_greater_zero_iff)
    ultimately show ?thesis using True step test shift unat_shift out hi \<open>out = 2 * S * q\<close>
      by (auto simp: algebra_simps simp del: One_nat_def intro!: exI [of _ "2 * q + 1"])
  next
    case False
    then show ?thesis using step test nonneg \<open>out = 2 * S * q\<close>
      by (auto intro!: exI [of _ "2 * q"])
  qed
qed

lemma ntz_step_negative:
  assumes ones: "\<And>n. 2 * S - 1 \<le> n \<Longrightarrow> n < 32 \<Longrightarrow> bit (i :: i32) n" and "0 < S" "S \<le> 16"
    and mask: "bit b (2 * S - 1)"
  shows "ntz_step (i, out) (b, S) = (signed_drop_bit S i, out OR S)"
    and "S - 1 \<le> n \<Longrightarrow> n < 32 \<Longrightarrow> bit (signed_drop_bit S i) n"
proof -
  have "bit i (2 * S - 1)" using assms by auto
  with mask have "bit (i AND b) (2 * S - 1)" by (simp add: bit_and_iff)
  then show "ntz_step (i, out) (b, S) = (signed_drop_bit S i, out OR S)" by auto
  show "S - 1 \<le> n \<Longrightarrow> n < 32 \<Longrightarrow> bit (signed_drop_bit S i) n"
    using assms by (auto simp: bit_signed_drop_bit_iff)
qed

lemma bit_ntz_masks:
  "bit (0xFFFF0000 :: int) n \<longleftrightarrow> 16 \<le> n \<and> n < 32"
  "bit (0xFF00 :: int) n \<longleftrightarrow> 8 \<le> n \<and> n < 16"
  "bit (0xC :: int) n \<longleftrightarrow> 2 \<le> n \<and> n < 4"
  "bit (0x2 :: int) n \<longleftrightarrow> n = 1"
proof -
  have eq: "(0xFFFF0000 :: int) = push_bit 16 (mask 16)" "(0xFF00 :: int) = push_bit 8 (mask 8)"
    "(0xC :: int) = push_bit 2 (mask 2)" "(0x2 :: int) = push_bit 1 (mask 1)"
    by (simp_all add: mask_eq_exp_minus_1)
  show "bit (0xFFFF0000 :: int) n \<longleftrightarrow> 16 \<le> n \<and> n < 32"
    unfolding eq(1) by (auto simp: bit_simps)
  show "bit (0xFF00 :: int) n \<longleftrightarrow> 8 \<le> n \<and> n < 16"
    unfolding eq(2) by (auto simp: bit_simps)
  show "bit (0xC :: int) n \<longleftrightarrow> 2 \<le> n \<and> n < 4"
    unfolding eq(3) by (auto simp: bit_simps)
  show "bit (0x2 :: int) n \<longleftrightarrow> n = 1"
    unfolding eq(4) by (auto simp: bit_simps)
qed

definition ntz_inv :: "nat \<Rightarrow> nat \<Rightarrow> i32 \<times> nat \<Rightarrow> bool" where
  "ntz_inv w v s \<longleftrightarrow> unat (fst s) < 2 ^ w \<and> w dvd snd s \<and> unat (fst s) = v div 2 ^ snd s
     \<and> 0 < unat (fst s) \<and> \<not> bit (fst s) 31"

lemma ntz_inv_step:
  assumes inv: "ntz_inv (2 * S) v s" and S: "S \<le> 16" "S = 2 ^ k"
    and mask: "\<And>n. n < 2 * S \<Longrightarrow> bit b n \<longleftrightarrow> S \<le> n"
  shows "ntz_inv S v (ntz_step s (b, S))"
proof -
  obtain i out where s: "s = (i, out)" by fastforce
  obtain i' out' where step: "ntz_step (i, out) (b, S) = (i', out')" by fastforce
  from inv have "2 * S dvd out" by (simp add: ntz_inv_def s)
  then obtain q where q: "out = 2 * S * q" by (rule dvdE)
  from inv have pre: "unat i < 2 ^ (2 * S)" "\<not> bit i 31" "out = 2 * S * q"
      "unat i = v div 2 ^ out" "0 < unat i"
    unfolding ntz_inv_def s fst_conv snd_conv q by blast+
  obtain q' where post: "unat i' < 2 ^ S" "out' = S * q'" "unat i' = unat i div 2 ^ (out' - out)"
      "out \<le> out'" "0 < unat i'" "\<not> bit i' 31"
    using ntz_step_nonneg [OF pre(1) S(1) pre(2,3) S(2) mask step] pre(5) by blast
  have "unat i' = v div 2 ^ (out + (out' - out))"
    by (simp only: post(3) pre(4) power_add div_mult2_eq)
  then show ?thesis
    using post unfolding ntz_inv_def s step fst_conv snd_conv by simp
qed

lemma ntz_inv_final: "ntz_inv 1 v s \<Longrightarrow> v div 2 ^ snd s = 1"
  unfolding ntz_inv_def by auto

lemma ntz_nonneg:
  assumes nonneg: "\<not> bit (i :: i32) 31" and "0 < unat i"
  shows "unat i div 2 ^ ntz i = 1"
proof -
  let ?s1 = "ntz_step (i, 0) (0xFFFF0000, 16)"
  let ?s2 = "ntz_step ?s1 (0xFF00, 8)"
  let ?s3 = "ntz_step ?s2 (0xF0, 4)"
  let ?s4 = "ntz_step ?s3 (0xC, 2)"
  let ?s5 = "ntz_step ?s4 (0x2, 1)"
  have "ntz_inv (2 * 16) (unat i) (i, 0)"
    using assms unsigned_less [of i, where 'a = nat] by (simp add: ntz_inv_def)
  then have "ntz_inv 16 (unat i) ?s1"
    by (rule ntz_inv_step [where k = 4]) (simp_all add: bit_ntz_masks)
  then have "ntz_inv (2 * 8) (unat i) ?s1" by simp
  then have "ntz_inv 8 (unat i) ?s2"
    by (rule ntz_inv_step [where k = 3]) (simp_all add: bit_ntz_masks)
  then have "ntz_inv (2 * 4) (unat i) ?s2" by simp
  then have "ntz_inv 4 (unat i) ?s3"
    by (rule ntz_inv_step [where k = 2]) (simp_all add: byte_bits)
  then have "ntz_inv (2 * 2) (unat i) ?s3" by simp
  then have "ntz_inv 2 (unat i) ?s4"
    by (rule ntz_inv_step [where k = 1]) (simp_all add: bit_ntz_masks)
  then have "ntz_inv (2 * 1) (unat i) ?s4" by simp
  then have "ntz_inv 1 (unat i) ?s5"
    by (rule ntz_inv_step [where k = 0]) (auto simp: bit_ntz_masks)
  then have "unat i div 2 ^ snd ?s5 = 1"
    by (rule ntz_inv_final)
  then show ?thesis
    unfolding ntz_def foldl.simps .
qed

lemma ntz_negative:
  assumes "bit (i :: i32) 31"
  shows "ntz i = 31"
proof -
  note step = ntz_step_negative(1) and keep = ntz_step_negative(2)
  let ?i1 = "signed_drop_bit 16 i"
  let ?i2 = "signed_drop_bit 8 ?i1"
  let ?i3 = "signed_drop_bit 4 ?i2"
  let ?i4 = "signed_drop_bit 2 ?i3"
  have b0: "bit i n" if "2 * 16 - 1 \<le> n" "n < 32" for n
  proof -
    from that have "n = 31" by simp
    then show ?thesis using assms by simp
  qed
  have m: "bit (0xFFFF0000 :: i32) (2 * 16 - 1)" "bit (0xFF00 :: i32) (2 * 8 - 1)"
    "bit (0xF0 :: i32) (2 * 4 - 1)" "bit (0xC :: i32) (2 * 2 - 1)" "bit (0x2 :: i32) (2 * 1 - 1)"
    by (simp_all add: bit_ntz_masks byte_bits)
  have b1: "bit ?i1 n" if "2 * 8 - 1 \<le> n" "n < 32" for n
    using keep [OF b0 _ _ m(1), of n] that by simp
  have b2: "bit ?i2 n" if "2 * 4 - 1 \<le> n" "n < 32" for n
    using keep [OF b1 _ _ m(2), of n] that by simp
  have b3: "bit ?i3 n" if "2 * 2 - 1 \<le> n" "n < 32" for n
    using keep [OF b2 _ _ m(3), of n] that by simp
  have b4: "bit ?i4 n" if "2 * 1 - 1 \<le> n" "n < 32" for n
    using keep [OF b3 _ _ m(4), of n] that by simp
  show ?thesis
    using step [OF b0 _ _ m(1), of 0] step [OF b1 _ _ m(2), of 16] step [OF b2 _ _ m(3), of 24]
      step [OF b3 _ _ m(4), of 28] step [OF b4 _ _ m(5), of 30]
    by (simp add: ntz_def del: ntz_step.simps)
qed

text \<open>
  \<open>ntz\<close> computes the integer logarithm of its argument read as an unsigned 32-bit number (and \<open>0\<close> for
  \<open>0\<close>), as its comment says and not the number of trailing zeros its name and the OCB specification
  mean; the two already differ at \<open>3\<close>.
\<close>

theorem ntz_is_log2:
  "if i = 0 then ntz i = 0 else 2 ^ ntz i \<le> unat i \<and> unat i < 2 ^ (ntz i + 1)"
proof (cases "bit i 31")
  case True
  then have "bit (unat i) 31"
    by (simp add: bit_unsigned_iff bit_imp_le_length)
  then have "2 ^ 31 \<le> unat i"
    by (metis bit_take_bit_iff less_irrefl not_le take_bit_nat_eq_self)
  then show ?thesis
    using ntz_negative [OF True] unsigned_less [of i, where 'a = nat] by auto
next
  case False
  show ?thesis
  proof (cases "i = 0")
    case True
    then show ?thesis by (simp add: ntz_def)
  next
    case nz: False
    then have "unat i div 2 ^ ntz i = 1"
      using ntz_nonneg [OF False] by (simp add: unat_gt_0)
    then have "2 ^ ntz i \<le> unat i" "unat i < 2 * 2 ^ ntz i"
      using div_greater_zero_iff [of "unat i" "2 ^ ntz i"] dividend_less_div_times [of "2 ^ ntz i" "unat i"]
      by simp_all
    with nz show ?thesis by simp
  qed
qed

end
