(* ===== verification/Ocb2.thy ===== *)
theory Ocb2
  imports Block_Ops
begin

text \<open>
  OCB2 authenticated encryption of \<^verbatim>\<open>lib/mumble/ocb_aes.c\<close>, the cipher of the audio datagrams.

  AES is the code of OpenSSL: \<open>E key block\<close> and \<open>D key block\<close> are parameters of the definitions. What
  the theorems assume of them is documented behaviour of AES: a block is enciphered to a block of 16
  bytes, and deciphering with the same key undoes enciphering. The bytes a pointer argument may
  access are the list that models it; the results are the new contents of \<open>out\<close> and the tag.
\<close>

type_synonym block_cipher = "bytes \<Rightarrow> bytes \<Rightarrow> bytes"

abbreviation AES_KEY_SIZE :: nat where
  "AES_KEY_SIZE \<equiv> 16"

text \<open>
  What the code calls of OpenSSL: the key schedules of a key of so many bits, and the transformations of one block. The
  block ciphers \<open>E\<close> and \<open>D\<close> of all the definitions are the two functions below.
\<close>

definition aes_encrypt :: "(bytes \<Rightarrow> nat \<Rightarrow> 'k) \<Rightarrow> ('k \<Rightarrow> bytes \<Rightarrow> bytes) \<Rightarrow> block_cipher" where
  "aes_encrypt AES_set_encrypt_key AES_encrypt k inp =
     (let aes_key = AES_set_encrypt_key k (AES_KEY_SIZE * 8) in AES_encrypt aes_key inp)"

definition aes_decrypt :: "(bytes \<Rightarrow> nat \<Rightarrow> 'k) \<Rightarrow> ('k \<Rightarrow> bytes \<Rightarrow> bytes) \<Rightarrow> block_cipher" where
  "aes_decrypt AES_set_decrypt_key AES_decrypt k inp =
     (let aes_key = AES_set_decrypt_key k (AES_KEY_SIZE * 8) in AES_decrypt aes_key inp)"

record ocb_aes =
  key :: bytes
  enc_iv :: bytes
  dec_iv :: bytes
  ivlen :: byte
  taglen :: byte

definition wf_ocb :: "ocb_aes \<Rightarrow> bool" where
  "wf_ocb ctx \<longleftrightarrow> length (key ctx) = 16 \<and> length (enc_iv ctx) = 16 \<and> length (dec_iv ctx) = 16"

section \<open>The code\<close>

definition ocb_aes_set_keys ::
    "ocb_aes \<Rightarrow> bytes \<Rightarrow> bytes \<Rightarrow> bytes \<Rightarrow> int \<Rightarrow> ocb_aes res" where
  "ocb_aes_set_keys ctx k e_iv d_iv n =
     rbind (peek k 0 AES_KEY_SIZE) (\<lambda>k'.
     rbind (poke (key ctx) 0 k') (\<lambda>new_key.
     if n < 0 then Inl Out_of_bounds else
     rbind (peek e_iv 0 (nat n)) (\<lambda>e_iv'.
     rbind (poke (enc_iv ctx) 0 e_iv') (\<lambda>new_enc.
     rbind (peek d_iv 0 (nat n)) (\<lambda>d_iv'.
     rbind (poke (dec_iv ctx) 0 d_iv') (\<lambda>new_dec.
     Inr (ctx\<lparr>key := new_key, enc_iv := new_enc, dec_iv := new_dec,
       ivlen := word_of_int n, taglen := 96\<rparr>)))))))"

definition ocb2_encrypt_block ::
    "block_cipher \<Rightarrow> ocb_aes \<Rightarrow> bytes \<Rightarrow> bytes \<times> bytes \<Rightarrow> bytes \<times> bytes \<times> bytes" where
  "ocb2_encrypt_block E ctx inb = (\<lambda>(delta, checksum).
     let delta_new = double_block delta;
         xor_in = xor_block delta_new inb;
         encrypted = E (key ctx) xor_in;
         out = xor_block encrypted delta_new;
         checksum_new = xor_block checksum inb
     in (out, delta_new, checksum_new))"

definition ocb2_decrypt_block ::
    "block_cipher \<Rightarrow> ocb_aes \<Rightarrow> bytes \<Rightarrow> bytes \<times> bytes \<Rightarrow> bytes \<times> bytes \<times> bytes" where
  "ocb2_decrypt_block D ctx inb = (\<lambda>(delta, checksum).
     let delta_new = double_block delta;
         delta_xor_in = xor_block delta_new inb;
         deciphered = D (key ctx) delta_xor_in;
         out = xor_block deciphered delta_new;
         checksum_new = xor_block checksum out
     in (out, delta_new, checksum_new))"

text \<open>
  \<open>pad\<close> is an array of 32 bytes of which AES writes the first 16: reading the others reads
  indeterminate values or leaves the array, a fault of the model either way.
\<close>

definition ocb2_encrypt_block_final ::
    "block_cipher \<Rightarrow> ocb_aes \<Rightarrow> bytes \<Rightarrow> byte \<Rightarrow> bytes \<Rightarrow> nat \<Rightarrow> bytes \<times> bytes \<Rightarrow> (bytes \<times> bytes) res" where
  "ocb2_encrypt_block_final E ctx inb inl out off = (\<lambda>(delta, checksum).
     let delta_new = double_block delta;
         zero_and_size = zero_block[AES_BLOCK_SIZE - 1 := inl * 8];
         size_xor_delta = xor_block zero_and_size delta_new;
         pad = E (key ctx) size_xor_delta
     in rbind (xor_block_ex inb pad (unat inl)) (\<lambda>c.
        rbind (poke out off c) (\<lambda>out'.
        rbind (peek inb 0 (unat inl)) (\<lambda>m.
        rbind (poke pad 0 m) (\<lambda>pad'.
        let checksum_new = xor_block pad' checksum;
            delta_tag = triple_block delta_new;
            tag_in = xor_block delta_tag checksum_new
        in Inr (out', E (key ctx) tag_in))))))"

text \<open>
  The loop counter runs from \<open>0\<close> to \<open>inl / 16 - 1\<close>; the quotient of a negative length is not positive
  and the loop does not run. The \<open>int\<close> length of the rest is passed as an \<open>unsigned char\<close>.
\<close>

definition ocb2_round ::
    "(bytes \<Rightarrow> bytes \<times> bytes \<Rightarrow> bytes \<times> bytes \<times> bytes) \<Rightarrow> bytes \<Rightarrow> nat
      \<Rightarrow> bytes \<times> bytes \<times> bytes \<Rightarrow> (bytes \<times> bytes \<times> bytes) res" where
  "ocb2_round step inp i = (\<lambda>(out, delta, checksum).
     rbind (peek inp (i * AES_BLOCK_SIZE) AES_BLOCK_SIZE) (\<lambda>block.
     let (o_block, delta', checksum') = step block (delta, checksum)
     in rbind (poke out (i * AES_BLOCK_SIZE) o_block) (\<lambda>out'. Inr (out', delta', checksum'))))"

definition ocb2_aes_encrypt ::
    "block_cipher \<Rightarrow> ocb_aes \<Rightarrow> bytes \<Rightarrow> int \<Rightarrow> bytes \<Rightarrow> (bytes \<times> bytes) res" where
  "ocb2_aes_encrypt E ctx inp inl out =
     (let delta = E (key ctx) (enc_iv ctx); n = nat (inl div 16)
      in rbind (for_each (ocb2_round (ocb2_encrypt_block E ctx) inp) [0..<n] (out, delta, zero_block))
          (\<lambda>(out', delta', checksum').
         ocb2_encrypt_block_final E ctx (drop (n * AES_BLOCK_SIZE) inp)
           (word_of_int (inl - int (n * AES_BLOCK_SIZE))) out' (n * AES_BLOCK_SIZE)
           (delta', checksum')))"

definition ocb2_aes_decrypt ::
    "block_cipher \<Rightarrow> block_cipher \<Rightarrow> ocb_aes \<Rightarrow> bytes \<Rightarrow> int \<Rightarrow> bytes \<Rightarrow> (bytes \<times> bytes) res" where
  "ocb2_aes_decrypt E D ctx inp inl out =
     (let delta = E (key ctx) (dec_iv ctx); n = nat (inl div 16)
      in rbind (for_each (ocb2_round (ocb2_decrypt_block D ctx) inp) [0..<n] (out, delta, zero_block))
          (\<lambda>(out', delta', checksum').
         ocb2_encrypt_block_final E ctx (drop (n * AES_BLOCK_SIZE) inp)
           (word_of_int (inl - int (n * AES_BLOCK_SIZE))) out' (n * AES_BLOCK_SIZE)
           (delta', checksum')))"

section \<open>What the code computes\<close>

text \<open>
  The loops in closed form; \<open>Ocb2_Spec\<close> compares it with OCB2. Block \<open>i\<close> of a message is masked with the offset \<open>2 ^ (i + 1) L\<close> of the field, where \<open>L\<close> is the
  enciphered nonce; the rest of less than a block is exclusive-ored with an enciphered length.
\<close>

definition msg_block :: "bytes \<Rightarrow> nat \<Rightarrow> bytes" where
  "msg_block m i = take 16 (drop (i * 16) m)"

definition msg_rest :: "bytes \<Rightarrow> bytes" where
  "msg_rest m = drop (length m div 16 * 16) m"

definition ocb2_offset :: "block_cipher \<Rightarrow> bytes \<Rightarrow> bytes \<Rightarrow> nat \<Rightarrow> bytes" where
  "ocb2_offset E k iv i = (double_block ^^ Suc i) (E k iv)"

definition ocb2_pad :: "block_cipher \<Rightarrow> bytes \<Rightarrow> bytes \<Rightarrow> nat \<Rightarrow> bytes" where
  "ocb2_pad E k iv l = E k (xor_block (replicate 15 0 @ [of_nat (8 * (l mod 16))]) (ocb2_offset E k iv (l div 16)))"

definition ocb2_cipher :: "block_cipher \<Rightarrow> bytes \<Rightarrow> bytes \<Rightarrow> bytes \<Rightarrow> bytes" where
  "ocb2_cipher E k iv m =
     concat (map (\<lambda>i. xor_block (E k (xor_block (ocb2_offset E k iv i) (msg_block m i))) (ocb2_offset E k iv i))
       [0..<length m div 16])
     @ map2 (XOR) (msg_rest m) (ocb2_pad E k iv (length m))"

definition ocb2_plain :: "block_cipher \<Rightarrow> block_cipher \<Rightarrow> bytes \<Rightarrow> bytes \<Rightarrow> bytes \<Rightarrow> bytes" where
  "ocb2_plain E D k iv c =
     concat (map (\<lambda>i. xor_block (D k (xor_block (ocb2_offset E k iv i) (msg_block c i))) (ocb2_offset E k iv i))
       [0..<length c div 16])
     @ map2 (XOR) (msg_rest c) (ocb2_pad E k iv (length c))"

definition blocks_sum :: "bytes \<Rightarrow> nat \<Rightarrow> bytes" where
  "blocks_sum m n = foldl (\<lambda>c i. xor_block c (msg_block m i)) zero_block [0..<n]"

text \<open>The tag of a message whose whole blocks are those of \<open>m\<close> and whose last, partial block is \<open>rest\<close>.\<close>

definition ocb2_tag_with :: "block_cipher \<Rightarrow> bytes \<Rightarrow> bytes \<Rightarrow> bytes \<Rightarrow> bytes \<Rightarrow> bytes" where
  "ocb2_tag_with E k iv m rest =
     E k (xor_block (triple_block (ocb2_offset E k iv (length m div 16)))
       (xor_block (rest @ drop (length rest) (ocb2_pad E k iv (length m))) (blocks_sum m (length m div 16))))"

definition ocb2_tag :: "block_cipher \<Rightarrow> bytes \<Rightarrow> bytes \<Rightarrow> bytes \<Rightarrow> bytes" where
  "ocb2_tag E k iv m = ocb2_tag_with E k iv m (msg_rest m)"

section \<open>The loops compute it\<close>

lemma msg_block_length: "i < length m div 16 \<Longrightarrow> length (msg_block m i) = 16"
  by (simp add: msg_block_def)

lemma msg_rest_length [simp]: "length (msg_rest m) = length m mod 16"
  by (simp add: msg_rest_def minus_div_mult_eq_mod)

lemma ocb2_offset_Suc: "ocb2_offset E k iv (Suc i) = double_block (ocb2_offset E k iv i)"
  by (simp add: ocb2_offset_def)

lemma ocb2_offset_length [simp]: "length (ocb2_offset E k iv i) = 16"
  by (simp add: ocb2_offset_def)

lemma concat_blocks_length:
  "(\<And>i. i < n \<Longrightarrow> length (f i) = 16) \<Longrightarrow> length (concat (map f [0..<n])) = n * 16"
  by (induction n) simp_all

lemma concat_blocks_nth:
  assumes "\<And>i. i < n \<Longrightarrow> length (f i) = 16" and "i < n"
  shows "msg_block (concat (map f [0..<n]) @ ys) i = f i"
  using assms
proof (induction n arbitrary: ys)
  case (Suc n)
  show ?case
  proof (cases "i = n")
    case True
    then show ?thesis
      using concat_blocks_length [of n f] Suc.prems by (simp add: msg_block_def)
  next
    case False
    then show ?thesis
      using Suc.IH [of "f n @ ys"] Suc.prems by simp
  qed
qed simp

text \<open>
  The loop with any step that masks with the doubled offset: after \<open>n\<close> rounds the output holds the
  \<open>n\<close> blocks, and nothing behind them has been written.
\<close>

lemma ocb2_loop:
  assumes out_len: "n * 16 \<le> length out"
    and n: "n * 16 \<le> length inp"
    and block: "\<And>i. i < n \<Longrightarrow> msg_block inp i = b i"
    and step: "\<And>i c. i < n \<Longrightarrow> step (b i) ((double_block ^^ i) (E k iv), c)
      = (f (b i) (ocb2_offset E k iv i), ocb2_offset E k iv i, xor_block c (g i))"
    and f_len: "\<And>b d. length (f b d) = 16"
  shows "for_each (ocb2_round step inp) [0..<n] (out, E k iv, zero_block)
    = Inr (concat (map (\<lambda>i. f (b i) (ocb2_offset E k iv i)) [0..<n]) @ drop (n * 16) out,
        (double_block ^^ n) (E k iv), foldl (\<lambda>c i. xor_block c (g i)) zero_block [0..<n])"
proof -
  let ?s = "\<lambda>n. (concat (map (\<lambda>i. f (b i) (ocb2_offset E k iv i)) [0..<n]) @ drop (n * 16) out,
        (double_block ^^ n) (E k iv), foldl (\<lambda>c i. xor_block c (g i)) zero_block [0..<n])"
  have "for_each (ocb2_round step inp) [0..<n] (?s 0) = Inr (?s n)"
  proof (rule for_each_closed)
    fix i assume i: "i < n"
    let ?done = "concat (map (\<lambda>i. f (b i) (ocb2_offset E k iv i)) [0..<i])"
    have "length ?done = i * 16"
      by (rule concat_blocks_length) (rule f_len)
    moreover have "i * 16 + 16 \<le> length inp" and "i * 16 + 16 \<le> length out"
      using i n out_len by linarith+
    ultimately show "ocb2_round step inp i (?s i) = Inr (?s (Suc i))"
      using step [OF i] block [OF i, unfolded msg_block_def]
      by (simp add: ocb2_round_def peek_def poke_def f_len ocb2_offset_def)
  qed
  then show ?thesis by simp
qed

lemma map2_xor_take:
  "n \<le> length xs \<Longrightarrow> n \<le> length ys
    \<Longrightarrow> map (\<lambda>i. xs ! i XOR ys ! i) [0..<n] = map2 (XOR) (take n xs) (ys :: bytes)"
  by (rule nth_equalityI) simp_all

lemma unat_of_nat_byte: "n < 256 \<Longrightarrow> unat (of_nat n :: byte) = n"
  by (simp add: unsigned_of_nat take_bit_nat_eq_self)

lemma zero_block_update: "zero_block[15 := x] = replicate 15 0 @ [x]"
proof -
  have "zero_block = replicate 15 0 @ [0]"
    by (simp add: zero_block_def replicate_app_Cons_same flip: replicate_Suc)
  then show ?thesis
    by (metis length_replicate list_update_length)
qed

lemma ocb2_final:
  assumes n: "n = l div 16" and rest: "rest = take (l mod 16) rest0" and len: "l mod 16 \<le> length rest0"
    and out: "off + l mod 16 \<le> length out"
    and E_len: "\<And>b. length b = 16 \<Longrightarrow> length (E (key ctx) b) = 16"
  shows "ocb2_encrypt_block_final E ctx rest0 (word_of_int (int l - int (n * 16))) out off
      ((double_block ^^ n) (E (key ctx) iv), chk)
    = Inr (take off out @ map2 (XOR) rest (ocb2_pad E (key ctx) iv l) @ drop (off + l mod 16) out,
        E (key ctx) (xor_block (triple_block (ocb2_offset E (key ctx) iv n))
          (xor_block (rest @ drop (length rest) (ocb2_pad E (key ctx) iv l)) chk)))"
proof -
  let ?r = "l mod 16"
  have r: "int l - int (n * 16) = int ?r"
    using div_mult_mod_eq [of l 16] unfolding n by linarith
  have w: "(word_of_int (int ?r) :: byte) = of_nat ?r"
    by (rule of_int_of_nat_eq)
  have u: "unat (of_nat ?r :: byte) = ?r"
    by (rule unat_of_nat_byte) simp
  have zs: "zero_block[15 := of_nat ?r * 8] = replicate 15 0 @ [of_nat (8 * ?r)]"
    using zero_block_update [of "of_nat ?r * 8"] by (simp only: of_nat_mult of_nat_numeral mult.commute)
  let ?pad = "ocb2_pad E (key ctx) iv l"
  have pad_len: "length ?pad = 16"
    using E_len by (simp add: ocb2_pad_def)
  have pad: "E (key ctx) (xor_block (zero_block[15 := of_nat ?r * 8]) (double_block ((double_block ^^ n) (E (key ctx) iv)))) = ?pad"
    by (simp add: zs ocb2_pad_def ocb2_offset_def n)
  have rest_len: "length rest = ?r" using rest len by simp
  have x: "xor_block_ex rest0 ?pad ?r = Inr (map2 (XOR) rest ?pad)"
    using len pad_len rest_len map2_xor_take [of ?r rest0 ?pad]
    by (simp add: xor_block_ex_def rest)
  show ?thesis
    unfolding ocb2_encrypt_block_final_def r w
    using pad x len pad_len rest rest_len out
    by (simp add: Let_def u ocb2_offset_def n)
qed

lemma msg_block_prefix: "i < length m div 16 \<Longrightarrow> msg_block (m @ junk) i = msg_block m i"
  by (simp add: msg_block_def)

lemma ocb2_encrypt_computes:
  assumes E_len: "\<And>b. length b = 16 \<Longrightarrow> length (E (key ctx) b) = 16"
    and out: "length m \<le> length out"
  shows "ocb2_aes_encrypt E ctx (m @ junk) (int (length m)) out
    = Inr (ocb2_cipher E (key ctx) (enc_iv ctx) m @ drop (length m) out,
        ocb2_tag E (key ctx) (enc_iv ctx) m)"
proof -
  let ?k = "key ctx" and ?iv = "enc_iv ctx" and ?n = "length m div 16"
  let ?f = "\<lambda>b d. xor_block (E ?k (xor_block d b)) d"
  have n: "nat (int (length m) div 16) = ?n"
    by (simp add: nat_div_distrib)
  have le: "?n * 16 \<le> length out" using out by linarith
  have loop: "for_each (ocb2_round (ocb2_encrypt_block E ctx) (m @ junk)) [0..<?n] (out, E ?k ?iv, zero_block)
    = Inr (concat (map (\<lambda>i. ?f (msg_block m i) (ocb2_offset E ?k ?iv i)) [0..<?n]) @ drop (?n * 16) out,
        (double_block ^^ ?n) (E ?k ?iv), blocks_sum m ?n)"
    unfolding blocks_sum_def
    by (rule ocb2_loop [OF le, where f = ?f]) (simp_all add: msg_block_prefix ocb2_encrypt_block_def Let_def ocb2_offset_def)
  let ?o = "concat (map (\<lambda>i. ?f (msg_block m i) (ocb2_offset E ?k ?iv i)) [0..<?n])"
  have o: "length ?o = ?n * 16"
    by (rule concat_blocks_length) simp
  have fit: "?n * 16 + length m mod 16 \<le> length (?o @ drop (?n * 16) out)"
    using out o le by simp
  show ?thesis
    unfolding ocb2_aes_encrypt_def Let_def n loop rbind_simps case_prod_conv
    by (subst ocb2_final [where l = "length m" and rest = "msg_rest m" and n = ?n
          and rest0 = "drop (?n * 16) (m @ junk)" and ctx = ctx and E = E and iv = ?iv
          and out = "?o @ drop (?n * 16) out" and off = "?n * 16", OF refl _ _ fit E_len])
      (simp_all add: o ocb2_cipher_def ocb2_tag_def ocb2_tag_with_def msg_rest_def minus_div_mult_eq_mod)
qed

lemma ocb2_decrypt_computes:
  assumes E_len: "\<And>b. length b = 16 \<Longrightarrow> length (E (key ctx) b) = 16"
    and out: "length c \<le> length out"
    and m: "m = ocb2_plain E D (key ctx) (dec_iv ctx) c"
  shows "ocb2_aes_decrypt E D ctx (c @ junk) (int (length c)) out
    = Inr (m @ drop (length c) out, ocb2_tag_with E (key ctx) (dec_iv ctx) m (msg_rest c))"
proof -
  let ?k = "key ctx" and ?iv = "dec_iv ctx" and ?n = "length c div 16"
  let ?f = "\<lambda>b d. xor_block (D ?k (xor_block d b)) d"
  have n: "nat (int (length c) div 16) = ?n"
    by (simp add: nat_div_distrib)
  have le: "?n * 16 \<le> length out" using out by linarith
  let ?o = "concat (map (\<lambda>i. ?f (msg_block c i) (ocb2_offset E ?k ?iv i)) [0..<?n])"
  have o: "length ?o = ?n * 16"
    by (rule concat_blocks_length) simp
  have pad_len: "length (ocb2_pad E ?k ?iv (length c)) = 16"
    using E_len by (simp add: ocb2_pad_def)
  have m_len: "length m = length c"
    using o by (simp add: m ocb2_plain_def pad_len min_def)
  have mi: "msg_block m i = ?f (msg_block c i) (ocb2_offset E ?k ?iv i)" if "i < ?n" for i
    unfolding m ocb2_plain_def by (rule concat_blocks_nth) (simp_all add: that)
  have loop: "for_each (ocb2_round (ocb2_decrypt_block D ctx) (c @ junk)) [0..<?n] (out, E ?k ?iv, zero_block)
    = Inr (?o @ drop (?n * 16) out, (double_block ^^ ?n) (E ?k ?iv), blocks_sum m ?n)"
    unfolding blocks_sum_def
    by (rule ocb2_loop [OF le, where f = ?f])
      (simp_all add: msg_block_prefix mi ocb2_decrypt_block_def Let_def ocb2_offset_def)
  have fit: "?n * 16 + length c mod 16 \<le> length (?o @ drop (?n * 16) out)"
    using out o le by simp
  define sum where "sum = blocks_sum m ?n"
  have tag: "ocb2_tag_with E ?k ?iv m (msg_rest c)
      = E ?k (xor_block (triple_block (ocb2_offset E ?k ?iv ?n))
          (xor_block (msg_rest c @ drop (length (msg_rest c)) (ocb2_pad E ?k ?iv (length c))) sum))"
    unfolding ocb2_tag_with_def m_len sum_def ..
  show ?thesis
    unfolding tag ocb2_aes_decrypt_def Let_def n loop sum_def [symmetric] rbind_simps case_prod_conv
    by (subst ocb2_final [where l = "length c" and rest = "msg_rest c" and n = ?n
          and rest0 = "drop (?n * 16) (c @ junk)" and ctx = ctx and E = E and iv = ?iv
          and out = "?o @ drop (?n * 16) out" and off = "?n * 16", OF refl _ _ fit E_len])
      (simp_all add: o m [unfolded ocb2_plain_def] msg_rest_def minus_div_mult_eq_mod)
qed

lemmas ocb2_encrypt_exact = ocb2_encrypt_computes [where junk = "[]", unfolded append_Nil2]
lemmas ocb2_decrypt_exact = ocb2_decrypt_computes [where junk = "[]", unfolded append_Nil2]

section \<open>Decryption inverts encryption\<close>

lemma ocb2_pad_length:
  "(\<And>b. length b = 16 \<Longrightarrow> length (E k b) = 16) \<Longrightarrow> length (ocb2_pad E k iv l) = 16"
  by (simp add: ocb2_pad_def)

lemma ocb2_cipher_length:
  "(\<And>b. length b = 16 \<Longrightarrow> length (E k b) = 16) \<Longrightarrow> length (ocb2_cipher E k iv m) = length m"
  by (simp add: ocb2_cipher_def concat_blocks_length ocb2_pad_length min_def)

lemma ocb2_plain_length:
  "(\<And>b. length b = 16 \<Longrightarrow> length (E k b) = 16) \<Longrightarrow> length (ocb2_plain E D k iv c) = length c"
  by (simp add: ocb2_plain_def concat_blocks_length ocb2_pad_length min_def)

lemma map2_xor_cancel: "length xs \<le> length ys \<Longrightarrow> map2 (XOR) (map2 (XOR) xs ys) ys = (xs :: bytes)"
  by (rule nth_equalityI) (simp_all add: xor.assoc)

lemma msg_blocks_concat: "concat (map (msg_block m) [0..<length m div 16]) @ msg_rest m = m"
proof -
  have "n * 16 \<le> length m \<Longrightarrow> concat (map (msg_block m) [0..<n]) = take (n * 16) m" for n
  proof (induction n)
    case (Suc n)
    then show ?case
      using take_add [of "n * 16" 16 m] by (simp add: msg_block_def add.commute)
  qed simp
  from this [of "length m div 16"] show ?thesis
    by (simp add: msg_rest_def)
qed

lemma ocb2_plain_cipher:
  assumes E_len: "\<And>b. length b = 16 \<Longrightarrow> length (E k b) = 16"
    and DE: "\<And>b. length b = 16 \<Longrightarrow> D k (E k b) = b"
  shows "ocb2_plain E D k iv (ocb2_cipher E k iv m) = m"
proof -
  let ?c = "ocb2_cipher E k iv m" and ?n = "length m div 16" and ?d = "ocb2_offset E k iv"
  let ?f = "\<lambda>i. xor_block (E k (xor_block (?d i) (msg_block m i))) (?d i)"
  have c_len: "length ?c = length m" by (rule ocb2_cipher_length) (rule E_len)
  have block: "msg_block ?c i = ?f i" if "i < ?n" for i
    unfolding ocb2_cipher_def by (rule concat_blocks_nth) (simp_all add: that)
  have plain: "xor_block (D k (xor_block (?d i) (msg_block ?c i))) (?d i) = msg_block m i" if "i < ?n" for i
    using that by (simp add: block E_len DE msg_block_length xor_block_commute [of _ "?d i"] xor_block_cancel)
  have rest: "msg_rest ?c = map2 (XOR) (msg_rest m) (ocb2_pad E k iv (length m))"
    unfolding msg_rest_def [of ?c] c_len by (simp add: ocb2_cipher_def concat_blocks_length)
  have "map (\<lambda>i. xor_block (D k (xor_block (?d i) (msg_block ?c i))) (?d i)) [0..<?n]
      = map (msg_block m) [0..<?n]"
    using plain by (intro map_cong) auto
  moreover have "map2 (XOR) (msg_rest ?c) (ocb2_pad E k iv (length m)) = msg_rest m"
    unfolding rest by (rule map2_xor_cancel) (simp add: ocb2_pad_length E_len)
  ultimately have "ocb2_plain E D k iv ?c = concat (map (msg_block m) [0..<?n]) @ msg_rest m"
    unfolding ocb2_plain_def c_len by (simp only:)
  then show ?thesis by (simp add: msg_blocks_concat)
qed

text \<open>
  The tag the receiver computes equals the sender's exactly when the rest of the pad that meets the
  partial block is zero: the code reuses the sender's final step, which sums the partial block it
  is given, here the ciphertext.
\<close>

lemma ocb2_tag_with_eq_iff:
  assumes E_len: "\<And>b. length b = 16 \<Longrightarrow> length (E k b) = 16"
    and DE: "\<And>b. length b = 16 \<Longrightarrow> D k (E k b) = b"
    and "length r1 = length m mod 16" and "length r2 = length m mod 16"
  shows "ocb2_tag_with E k iv m r1 = ocb2_tag_with E k iv m r2 \<longleftrightarrow> r1 = r2"
proof
  let ?t = "\<lambda>r. drop (length r) (ocb2_pad E k iv (length m))"
  let ?in = "\<lambda>r. xor_block (triple_block (ocb2_offset E k iv (length m div 16)))
       (xor_block (r @ ?t r) (blocks_sum m (length m div 16)))"
  assume "ocb2_tag_with E k iv m r1 = ocb2_tag_with E k iv m r2"
  then have "D k (E k (?in r1)) = D k (E k (?in r2))"
    by (simp add: ocb2_tag_with_def)
  then have "?in r1 = ?in r2"
    by (simp add: DE)
  then have "xor_block (r1 @ ?t r1) (blocks_sum m (length m div 16))
      = xor_block (r2 @ ?t r2) (blocks_sum m (length m div 16))"
    by (simp add: xor_block_inject)
  moreover have "length (r1 @ ?t r1) = 16" "length (r2 @ ?t r2) = 16"
    using assms by (simp_all add: ocb2_pad_length)
  ultimately have "r1 @ ?t r1 = r2 @ ?t r2"
    by (metis xor_block_cancel2)
  then show "r1 = r2"
    using assms by simp
qed simp

lemma map2_xor_eq_iff: "length xs \<le> length ys \<Longrightarrow>
    map2 (XOR) xs ys = (xs :: bytes) \<longleftrightarrow> take (length xs) ys = replicate (length xs) 0"
proof (induction xs arbitrary: ys)
  case (Cons x xs)
  then obtain y zs where ys: "ys = y # zs" by (cases ys) auto
  have "x XOR y = x \<longleftrightarrow> y = 0"
  proof
    assume "x XOR y = x"
    then have "x XOR (x XOR y) = x XOR x" by (rule arg_cong)
    then show "y = 0" by (simp add: xor.assoc [symmetric])
  qed simp
  with Cons show ?case by (simp add: ys)
qed simp

lemma ocb2_roundtrip:
  assumes E_len: "\<And>b. length b = 16 \<Longrightarrow> length (E (key s) b) = 16"
    and DE: "\<And>b. length b = 16 \<Longrightarrow> D (key s) (E (key s) b) = b"
    and peers: "key r = key s" "dec_iv r = enc_iv s"
    and room: "length m \<le> length out" "length m \<le> length out'"
  shows "\<exists>c tag tag'. ocb2_aes_encrypt E s m (int (length m)) out = Inr (c @ drop (length m) out, tag)
    \<and> length c = length m
    \<and> ocb2_aes_decrypt E D r c (int (length c)) out' = Inr (m @ drop (length m) out', tag')"
proof -
  let ?c = "ocb2_cipher E (key s) (enc_iv s) m"
  have len: "length ?c = length m" by (rule ocb2_cipher_length) (rule E_len)
  have "m = ocb2_plain E D (key r) (dec_iv r) ?c"
    using ocb2_plain_cipher [of E "key s" D] E_len DE peers by simp
  then show ?thesis
    using ocb2_encrypt_exact [of E s m out] ocb2_decrypt_exact [of E r ?c out' m D]
      E_len peers room len by auto
qed

text \<open>With the functions of OpenSSL, when its decryption undoes its encryption for keys of 128 bits.\<close>

lemma ocb2_roundtrip_openssl:
  assumes "\<And>b. length b = 16 \<Longrightarrow> length (AES_encrypt (set_encrypt (key s) 128) b) = 16"
    and "\<And>b. length b = 16 \<Longrightarrow> AES_decrypt (set_decrypt (key s) 128) (AES_encrypt (set_encrypt (key s) 128) b) = b"
    and "key r = key s" "dec_iv r = enc_iv s" "length m \<le> length out" "length m \<le> length out'"
  shows "\<exists>c tag tag'. ocb2_aes_encrypt (aes_encrypt set_encrypt AES_encrypt) s m (int (length m)) out = Inr (c @ drop (length m) out, tag)
    \<and> length c = length m
    \<and> ocb2_aes_decrypt (aes_encrypt set_encrypt AES_encrypt) (aes_decrypt set_decrypt AES_decrypt) r c (int (length c)) out'
      = Inr (m @ drop (length m) out', tag')"
  by (rule ocb2_roundtrip) (use assms in \<open>simp_all add: aes_encrypt_def aes_decrypt_def\<close>)

section \<open>Properties\<close>

definition example_cipher :: block_cipher where
  "example_cipher k b = map (\<lambda>x. x + 7) b"

definition example_decipher :: block_cipher where
  "example_decipher k b = map (\<lambda>x. x - 7) b"

text \<open>
  C11: Decryption inverts encryption: a receiver that has the sender's key, and as decryption nonce the
  sender's encryption nonce, recovers any message from the ciphertext the sender's routine produced.
\<close>

theorem ocb2_aes_roundtrip:
  assumes E_len: "\<And>b. length b = 16 \<Longrightarrow> length (E (key s) b) = 16"
    and DE: "\<And>b. length b = 16 \<Longrightarrow> D (key s) (E (key s) b) = b"
    and peers: "key r = key s" "dec_iv r = enc_iv s"
    and room: "length m \<le> length out" "length m \<le> length out'"
  shows "\<exists>c tag tag'. ocb2_aes_encrypt E s m (int (length m)) out = Inr (c @ drop (length m) out, tag)
    \<and> length c = length m
    \<and> ocb2_aes_decrypt E D r c (int (length c)) out' = Inr (m @ drop (length m) out', tag')"
  by (rule ocb2_roundtrip [where E = E and D = D and s = s and r = r, OF assms])

theorem ocb2_aes_roundtrip_witness:
  "\<exists>c tag tag'. ocb2_aes_encrypt example_cipher \<lparr>key = zero_block, enc_iv = zero_block,
      dec_iv = zero_block, ivlen = 16, taglen = 96\<rparr> [1, 2, 3] 3 [0, 0, 0]
        = Inr (c @ [], tag) \<and> length c = 3
    \<and> ocb2_aes_decrypt example_cipher example_decipher \<lparr>key = zero_block, enc_iv = zero_block,
      dec_iv = zero_block, ivlen = 16, taglen = 96\<rparr> c (int (length c)) [0, 0, 0, 0]
        = Inr ([1, 2, 3] @ [0], tag')"
  using ocb2_aes_roundtrip [of example_cipher "\<lparr>key = zero_block, enc_iv = zero_block,
      dec_iv = zero_block, ivlen = 16, taglen = 96\<rparr>" example_decipher
      "\<lparr>key = zero_block, enc_iv = zero_block, dec_iv = zero_block, ivlen = 16, taglen = 96\<rparr>"
      "[1, 2, 3]" "[0, 0, 0]" "[0, 0, 0, 0]"]
  by (simp add: example_cipher_def example_decipher_def comp_def numeral_3_eq_3)

text \<open>
  C34: The receiver's tag is right only by luck: for the sender's ciphertext of a message, with the same key
  and nonce, the tag that decryption computes equals the sender's tag exactly when every byte of the
  pad that masks the last, partial block is zero; in particular the tags agree for a whole number of
  blocks.
\<close>

theorem ocb2_decrypt_tag_iff:
  assumes E_len: "\<And>b. length b = 16 \<Longrightarrow> length (E (key s) b) = 16"
    and DE: "\<And>b. length b = 16 \<Longrightarrow> D (key s) (E (key s) b) = b"
    and peers: "key r = key s" "dec_iv r = enc_iv s"
    and enc: "ocb2_aes_encrypt E s m (int (length m)) (replicate (length m) 0) = Inr (c, tag)"
    and dec: "ocb2_aes_decrypt E D r c (int (length m)) (replicate (length m) 0) = Inr (m', tag')"
  shows "tag' = tag \<longleftrightarrow>
    take (length m mod 16) (ocb2_pad E (key s) (enc_iv s) (length m)) = replicate (length m mod 16) 0"
proof -
  let ?k = "key s" and ?iv = "enc_iv s"
  have c: "c = ocb2_cipher E ?k ?iv m" and tag: "tag = ocb2_tag_with E ?k ?iv m (msg_rest m)"
    using ocb2_encrypt_exact [of E s m "replicate (length m) 0"] E_len enc
    by (simp_all add: ocb2_tag_def)
  have len: "length c = length m"
    unfolding c by (rule ocb2_cipher_length) (rule E_len)
  have plain: "m = ocb2_plain E D (key r) (dec_iv r) c"
    using ocb2_plain_cipher [of E ?k D ?iv m] E_len DE peers by (simp only: c)
  have "tag' = ocb2_tag_with E ?k ?iv m (msg_rest c)"
    using ocb2_decrypt_exact [of E r c "replicate (length m) 0", OF _ _ plain] dec
    by (simp only: len peers E_len length_replicate order_refl) simp
  moreover have rest: "msg_rest c = map2 (XOR) (msg_rest m) (ocb2_pad E ?k ?iv (length m))"
    unfolding msg_rest_def [of c] len by (simp add: c ocb2_cipher_def concat_blocks_length)
  moreover have "ocb2_tag_with E ?k ?iv m (msg_rest c) = ocb2_tag_with E ?k ?iv m (msg_rest m)
      \<longleftrightarrow> msg_rest c = msg_rest m"
    by (rule ocb2_tag_with_eq_iff [of E ?k D]) (simp_all add: E_len DE len)
  ultimately have "tag' = tag \<longleftrightarrow> msg_rest c = msg_rest m"
    by (simp only: tag)
  also have "length (msg_rest m) \<le> length (ocb2_pad E ?k ?iv (length m))"
    using ocb2_pad_length [of E ?k ?iv "length m"] E_len by (simp add: order_less_imp_le)
  then have "msg_rest c = msg_rest m \<longleftrightarrow> take (length m mod 16) (ocb2_pad E ?k ?iv (length m))
      = replicate (length m mod 16) 0"
    unfolding rest using map2_xor_eq_iff [of "msg_rest m" "ocb2_pad E ?k ?iv (length m)"]
    by (simp only: msg_rest_length)
  finally show ?thesis .
qed

abbreviation example_ocb :: ocb_aes where
  "example_ocb \<equiv> \<lparr>key = zero_block, enc_iv = zero_block, dec_iv = zero_block, ivlen = 16, taglen = 96\<rparr>"

theorem ocb2_decrypt_tag_iff_witness:
  "\<exists>c tag m' tag'. ocb2_aes_encrypt example_cipher example_ocb [1, 2, 3] 3 (replicate 3 0) = Inr (c, tag)
    \<and> ocb2_aes_decrypt example_cipher example_decipher example_ocb c 3 (replicate 3 0) = Inr (m', tag')
    \<and> tag' \<noteq> tag"
proof -
  have E: "length (example_cipher k b) = length b" for k b
    by (simp add: example_cipher_def)
  obtain c tag where enc: "ocb2_aes_encrypt example_cipher example_ocb [1, 2, 3] 3 (replicate 3 0) = Inr (c, tag)"
      and len: "length c = 3"
    using ocb2_encrypt_exact [of example_cipher example_ocb "[1, 2, 3]" "replicate 3 0"] E
      ocb2_cipher_length [of example_cipher zero_block zero_block "[1, 2, 3]"]
    by (simp add: numeral_3_eq_3)
  obtain m' tag' where
      dec: "ocb2_aes_decrypt example_cipher example_decipher example_ocb c 3 (replicate 3 0) = Inr (m', tag')"
    using ocb2_decrypt_exact [of example_cipher example_ocb c "replicate 3 0" _ example_decipher] E len
    by simp
  let ?m = "[1, 2, 3] :: bytes"
  have iff: "tag' = tag \<longleftrightarrow> take (length ?m mod 16) (ocb2_pad example_cipher (key example_ocb) (enc_iv example_ocb) (length ?m))
      = replicate (length ?m mod 16) 0"
  proof (rule ocb2_decrypt_tag_iff [where D = example_decipher and r = example_ocb and c = c and m' = m'])
    show "ocb2_aes_encrypt example_cipher example_ocb ?m (int (length ?m)) (replicate (length ?m) 0) = Inr (c, tag)"
      using enc by (simp add: numeral_3_eq_3)
    show "ocb2_aes_decrypt example_cipher example_decipher example_ocb c (int (length ?m)) (replicate (length ?m) 0)
        = Inr (m', tag')"
      using dec by (simp add: numeral_3_eq_3)
  qed (simp_all add: example_cipher_def example_decipher_def comp_def)
  have "take (length ?m mod 16) (ocb2_pad example_cipher (key example_ocb) (enc_iv example_ocb) (length ?m))
      \<noteq> replicate (length ?m mod 16) 0"
    by code_simp
  with iff enc dec show ?thesis by blast
qed

end
