(* ===== verification/Ocb3.thy ===== *)
theory Ocb3
  imports Ocb2
begin

text \<open>
  The OCB3 half of \<^verbatim>\<open>lib/mumble/ocb_aes.c\<close>: the nonce and offset set-up, the encryption of the blocks,
  the hash of the associated data and the tag. The program's transport uses OCB2; OCB3 is reached from
  the tests only, and its decryption is an empty function.
\<close>

section \<open>Offset and keys\<close>

definition nonce_init :: "ocb_aes \<Rightarrow> bytes" where
  "nonce_init ctx =
     (let nonce = zero_block;
          iv_prefix_index = AES_BLOCK_SIZE - 12 - 1;
          nonce = nonce[iv_prefix_index := nonce ! iv_prefix_index OR 0x01]
      in foldl (\<lambda>nonce i. nonce[AES_BLOCK_SIZE - 12 + i := enc_iv ctx ! i]) nonce [0..<12])"

definition ktop_init :: "block_cipher \<Rightarrow> ocb_aes \<Rightarrow> bytes \<Rightarrow> bytes" where
  "ktop_init E ctx nonce =
     E (key ctx) (nonce[AES_BLOCK_SIZE - 1 := nonce ! (AES_BLOCK_SIZE - 1) AND 0xC0])"

definition stretch_init :: "bytes \<Rightarrow> bytes" where
  "stretch_init ktop = ktop @ map (\<lambda>i. ktop ! i XOR ktop ! (i + 1)) [0..<8]"

definition offset_init :: "block_cipher \<Rightarrow> ocb_aes \<Rightarrow> bytes" where
  "offset_init E ctx =
     (let nonce = nonce_init ctx;
          bottom = unat (nonce ! (AES_BLOCK_SIZE - 1) AND 0x1F);
          stretch = stretch_init (ktop_init E ctx nonce)
      in take AES_BLOCK_SIZE (left_shift stretch 24 bottom))"

definition keyvar_init :: "block_cipher \<Rightarrow> bytes \<Rightarrow> bytes" where
  "keyvar_init E k = double_block (double_block (E k zero_block))"

text \<open>\<open>log2\<close> and \<open>keyvar\<close>: the key of a block is doubled when the logarithm of its index has grown.\<close>

definition bump_keyvar :: "i32 \<Rightarrow> nat \<times> bytes \<Rightarrow> nat \<times> bytes" where
  "bump_keyvar i = (\<lambda>(log2, keyvar).
     let log2_next = ntz i
     in if log2 < log2_next then (log2_next, double_block keyvar) else (log2, keyvar))"

section \<open>Associated data\<close>

definition ocb3_hash_block :: "block_cipher \<Rightarrow> ocb_aes \<Rightarrow> bytes \<Rightarrow> bytes \<Rightarrow> bytes \<times> bytes \<Rightarrow> bytes \<times> bytes" where
  "ocb3_hash_block E ctx plaintext keyvar = (\<lambda>(sum, offset).
     let offset_next = xor_block offset keyvar;
         enciphered = E (key ctx) (xor_block plaintext offset_next)
     in (xor_block enciphered sum, offset_next))"

definition ocb3_hash_block_final ::
    "block_cipher \<Rightarrow> ocb_aes \<Rightarrow> bytes \<Rightarrow> nat \<Rightarrow> bytes \<times> bytes \<Rightarrow> (bytes \<times> bytes) res" where
  "ocb3_hash_block_final E ctx plaintext sz st =
     (let keyvar = E (key ctx) zero_block in
      rbind (peek plaintext 0 sz) (\<lambda>m.
      rbind (poke zero_block 0 m) (\<lambda>padded.
      rbind (poke padded sz [0x80]) (\<lambda>padded.
      Inr (ocb3_hash_block E ctx padded keyvar st)))))"

definition ocb3_hash_round ::
    "block_cipher \<Rightarrow> ocb_aes \<Rightarrow> bytes \<Rightarrow> nat
      \<Rightarrow> (nat \<times> bytes) \<times> bytes \<times> bytes \<Rightarrow> ((nat \<times> bytes) \<times> bytes \<times> bytes) res" where
  "ocb3_hash_round E ctx plaintext i = (\<lambda>(kv, st).
     let kv' = bump_keyvar (of_nat (i * AES_BLOCK_SIZE)) kv
     in rbind (peek plaintext (i * AES_BLOCK_SIZE) AES_BLOCK_SIZE) (\<lambda>block.
        Inr (kv', ocb3_hash_block E ctx block (snd kv') st)))"

text \<open>The whole blocks are hashed from \<open>plaintext + i\<close>; the partial one is read from \<open>plaintext\<close> itself.\<close>

definition ocb3_hash_plaintext :: "block_cipher \<Rightarrow> ocb_aes \<Rightarrow> bytes \<Rightarrow> int \<Rightarrow> bytes res" where
  "ocb3_hash_plaintext E ctx plaintext plaintextl =
     (let n = nat (plaintextl div 16) in
      rbind (for_each (ocb3_hash_round E ctx plaintext) [0..<n]
          ((ntz 0, keyvar_init E (key ctx)), zero_block, zero_block)) (\<lambda>(kv, st).
      rbind (if int (n * AES_BLOCK_SIZE) < plaintextl
             then ocb3_hash_block_final E ctx plaintext (nat (plaintextl - int (n * AES_BLOCK_SIZE))) st
             else Inr st) (\<lambda>(sum, offset).
      Inr sum)))"

section \<open>Encryption\<close>

definition ocb3_encrypt_block ::
    "block_cipher \<Rightarrow> ocb_aes \<Rightarrow> bytes \<Rightarrow> bytes \<Rightarrow> bytes \<times> bytes \<Rightarrow> bytes \<times> bytes \<times> bytes" where
  "ocb3_encrypt_block E ctx block keyvar = (\<lambda>(offset, checksum).
     let offset_next = xor_block offset keyvar;
         cipher = E (key ctx) (xor_block block offset_next)
     in (xor_block offset_next cipher, offset_next, xor_block checksum block))"

definition ocb3_compute_tag ::
    "block_cipher \<Rightarrow> ocb_aes \<Rightarrow> bytes \<Rightarrow> bytes \<Rightarrow> bytes \<Rightarrow> int \<Rightarrow> bytes res" where
  "ocb3_compute_tag E ctx checksum offset plain plainl =
     (let keyvar = double_block (E (key ctx) zero_block);
          enciphered = E (key ctx) (xor_block (xor_block checksum offset) keyvar)
      in rbind (ocb3_hash_plaintext E ctx plain plainl) (\<lambda>hash. Inr (xor_block hash enciphered)))"

definition ocb3_encrypt_block_final ::
    "block_cipher \<Rightarrow> ocb_aes \<Rightarrow> nat \<Rightarrow> int \<Rightarrow> bytes \<Rightarrow> bytes \<Rightarrow> bytes \<times> bytes \<Rightarrow> bytes \<Rightarrow> int
      \<Rightarrow> (bytes \<times> bytes) res" where
  "ocb3_encrypt_block_final E ctx i sz block out = (\<lambda>(offset, checksum) plain plainl.
     let block_current = drop (i * AES_BLOCK_SIZE) block in
     if 0 < sz then
       let keyvar = E (key ctx) zero_block;
           offset_next = xor_block keyvar offset;
           pad = E (key ctx) offset_next
       in rbind (xor_block_ex pad block_current (nat sz)) (\<lambda>c.
          rbind (poke out (i * AES_BLOCK_SIZE) c) (\<lambda>out'.
          rbind (peek block_current 0 (nat sz)) (\<lambda>m.
          rbind (poke zero_block 0 m) (\<lambda>pad.
          rbind (poke pad (nat sz) [0x80]) (\<lambda>pad.
          let checksum_next = xor_block checksum pad in
          rbind (ocb3_compute_tag E ctx checksum_next offset_next plain plainl) (\<lambda>tag.
          Inr (out', tag)))))))
     else rbind (ocb3_compute_tag E ctx checksum offset plain plainl) (\<lambda>tag. Inr (out, tag)))"

definition ocb3_round ::
    "block_cipher \<Rightarrow> ocb_aes \<Rightarrow> bytes \<Rightarrow> nat
      \<Rightarrow> bytes \<times> (nat \<times> bytes) \<times> bytes \<times> bytes \<Rightarrow> (bytes \<times> (nat \<times> bytes) \<times> bytes \<times> bytes) res" where
  "ocb3_round E ctx inp i = (\<lambda>(out, kv, st).
     let kv' = bump_keyvar (of_nat i) kv in
     rbind (peek inp (i * AES_BLOCK_SIZE) AES_BLOCK_SIZE) (\<lambda>block.
     let (o_block, st') = ocb3_encrypt_block E ctx block (snd kv') st in
     rbind (poke out (i * AES_BLOCK_SIZE) o_block) (\<lambda>out'. Inr (out', kv', st'))))"

definition ocb3_aes_encrypt ::
    "block_cipher \<Rightarrow> ocb_aes \<Rightarrow> bytes \<Rightarrow> int \<Rightarrow> bytes \<Rightarrow> int \<Rightarrow> bytes \<Rightarrow> (bytes \<times> bytes) res" where
  "ocb3_aes_encrypt E ctx inp inl plain plainl out =
     (let n = nat (inl div 16) in
      rbind (for_each (ocb3_round E ctx inp) [0..<n]
          (out, (ntz 0, keyvar_init E (key ctx)), offset_init E ctx, zero_block)) (\<lambda>(out', kv, st).
      ocb3_encrypt_block_final E ctx n (inl - int (n * AES_BLOCK_SIZE)) inp out' st plain plainl))"

text \<open>The body of the decryption is empty: nothing is written.\<close>

definition ocb3_aes_decrypt :: "ocb_aes \<Rightarrow> bytes \<Rightarrow> int \<Rightarrow> bytes \<Rightarrow> bytes" where
  "ocb3_aes_decrypt ctx inp inl out = out"

section \<open>Two flaws\<close>

lemma nonce_init_eq:
  assumes "length (enc_iv ctx) = 16"
  shows "nonce_init ctx = [0, 0, 0, 1] @ take 12 (enc_iv ctx)"
proof -
  obtain a b c d e f g h i j k l m n p q where "enc_iv ctx = [a,b,c,d,e,f,g,h,i,j,k,l,m,n,p,q]"
    using assms by (auto simp: numeral_eq_Suc length_Suc_conv)
  then show ?thesis
    by (simp add: nonce_init_def zero_block_def upt_rec numeral_eq_Suc)
qed

lemma ocb3_key_only:
  assumes "key a = key b"
  shows "ocb3_round E a = ocb3_round E b" and "ocb3_encrypt_block_final E a = ocb3_encrypt_block_final E b"
proof -
  have hb: "ocb3_hash_block E a = ocb3_hash_block E b"
    using assms by (simp add: fun_eq_iff ocb3_hash_block_def)
  have "ocb3_hash_round E a = ocb3_hash_round E b" "ocb3_hash_block_final E a = ocb3_hash_block_final E b"
    using assms hb by (simp_all add: fun_eq_iff ocb3_hash_round_def ocb3_hash_block_final_def)
  then have "ocb3_hash_plaintext E a = ocb3_hash_plaintext E b"
    by (intro ext) (simp only: ocb3_hash_plaintext_def assms)
  then have "ocb3_compute_tag E a = ocb3_compute_tag E b"
    by (intro ext) (simp only: ocb3_compute_tag_def assms)
  then show "ocb3_encrypt_block_final E a = ocb3_encrypt_block_final E b"
    by (intro ext) (simp only: ocb3_encrypt_block_final_def assms)
  have "ocb3_encrypt_block E a = ocb3_encrypt_block E b"
    using assms by (simp add: fun_eq_iff ocb3_encrypt_block_def)
  then show "ocb3_round E a = ocb3_round E b"
    using assms by (simp add: fun_eq_iff ocb3_round_def)
qed

lemma and_0xDF:
  assumes "(x :: byte) AND 0xDF = y AND 0xDF"
  shows "x AND 0x1F = y AND 0x1F" and "x AND 0xC0 = y AND 0xC0"
proof -
  have "0xDF AND 0x1F = (0x1F :: byte)" "0xDF AND 0xC0 = (0xC0 :: byte)" by simp_all
  then show "x AND 0x1F = y AND 0x1F" "x AND 0xC0 = y AND 0xC0"
    using assms by (metis and.assoc)+
qed

lemma offset_init_collision:
  assumes "key a = key b" and len: "length (enc_iv a) = 16" "length (enc_iv b) = 16"
    and "take 11 (enc_iv a) = take 11 (enc_iv b)"
    and "enc_iv a ! 11 AND 0xDF = enc_iv b ! 11 AND 0xDF"
  shows "offset_init E a = offset_init E b"
proof -
  have n: "nonce_init c = ([0, 0, 0, 1] @ take 11 (enc_iv c)) @ [enc_iv c ! 11]"
    if "length (enc_iv c) = 16" for c
    using that take_Suc_conv_app_nth [of 11 "enc_iv c"] by (simp add: nonce_init_eq)
  have upd: "(nonce_init c)[15 := x] = ([0, 0, 0, 1] @ take 11 (enc_iv c)) @ [x]"
    and last: "nonce_init c ! 15 = enc_iv c ! 11" if "length (enc_iv c) = 16" for c x
    using that unfolding n [OF that] by (simp_all only: list_update_append nth_append) simp_all
  show ?thesis
    using and_0xDF [OF assms(5)] assms(1,4)
    by (simp add: offset_init_def ktop_init_def upd last len Let_def)
qed

text \<open>
  C37: Two nonces that differ only in bit 5 of their last byte give the same ciphertext and the same tag for the
  same message: the offset takes 5 bits of the nonce where the key of the offset drops 6.
\<close>

theorem ocb3_nonce_collision:
  assumes "key a = key b" and "length (enc_iv a) = 16" and "length (enc_iv b) = 16"
    and "take 11 (enc_iv a) = take 11 (enc_iv b)"
    and "enc_iv a ! 11 AND 0xDF = enc_iv b ! 11 AND 0xDF"
  shows "ocb3_aes_encrypt E a inp inl plain plainl out = ocb3_aes_encrypt E b inp inl plain plainl out"
  using offset_init_collision [OF assms] ocb3_key_only [OF assms(1)] assms(1)
  by (simp add: ocb3_aes_encrypt_def)

theorem ocb3_nonce_collision_witness:
  "ocb3_aes_encrypt example_cipher (example_ocb\<lparr>enc_iv := replicate 11 7 @ [0x20, 0, 0, 0, 0]\<rparr>) [1, 2] 2 [] 0 [0, 0]
    = ocb3_aes_encrypt example_cipher (example_ocb\<lparr>enc_iv := replicate 11 7 @ [0, 0, 0, 0, 0]\<rparr>) [1, 2] 2 [] 0 [0, 0]"
  by (rule ocb3_nonce_collision) (simp_all add: nth_append)

lemma ocb3_hash_partial:
  assumes "length a = n * 16" and "0 < n" and "length t = length t'" and "length t < 16"
  shows "ocb3_hash_plaintext E ctx (a @ t) (int (length (a @ t)))
    = ocb3_hash_plaintext E ctx (a @ t') (int (length (a @ t')))"
proof -
  have n: "nat (int (length (a @ s)) div 16) = n" if "length s < 16" for s :: bytes
    using assms(1) that by (simp add: nat_div_distrib)
  have "peek (a @ t) (i * 16) 16 = peek (a @ t') (i * 16) 16" if "i < n" for i
  proof -
    have "i * 16 + 16 \<le> length a" using that assms(1) by simp
    then show ?thesis by (simp add: peek_def)
  qed
  then have loop: "for_each (ocb3_hash_round E ctx (a @ t)) [0..<n] s = for_each (ocb3_hash_round E ctx (a @ t')) [0..<n] s" for s
    by (intro for_each_cong) (simp add: ocb3_hash_round_def split_beta Let_def)
  have "peek (a @ t) 0 sz = peek (a @ t') 0 sz" if "sz < 16" for sz
    using that assms by (simp add: peek_def)
  then have "ocb3_hash_block_final E ctx (a @ t) (length t) = ocb3_hash_block_final E ctx (a @ t') (length t)"
    using assms(4) by (intro ext) (simp only: ocb3_hash_block_final_def Let_def)
  moreover have "length t' < 16" "length (a @ t) = length (a @ t')" using assms by simp_all
  moreover have "int (length (a @ t')) - int (n * 16) = int (length t)"
    using assms by simp
  ultimately show ?thesis
    unfolding ocb3_hash_plaintext_def n [OF assms(4)] n [OF \<open>length t' < 16\<close>] Let_def
    by (simp only: loop nat_int)
qed

text \<open>
  The bytes of the associated data behind its last whole block do not matter: with at least one whole block
  in front, any partial block of the same length gives the same ciphertext and the same tag, because the
  hash reads the partial block from the start of the data.
\<close>

theorem ocb3_tag_ignores_partial_block:
  assumes "length a = n * 16" and "0 < n" and "length t = length t'" and "length t < 16"
  shows "ocb3_aes_encrypt E ctx inp inl (a @ t) (int (length (a @ t))) out
    = ocb3_aes_encrypt E ctx inp inl (a @ t') (int (length (a @ t'))) out"
proof -
  have "ocb3_compute_tag E ctx c off (a @ t) (int (length (a @ t)))
      = ocb3_compute_tag E ctx c off (a @ t') (int (length (a @ t')))" for c off
    unfolding ocb3_compute_tag_def ocb3_hash_partial [OF assms] ..
  then have "ocb3_encrypt_block_final E ctx i sz inp o' st (a @ t) (int (length (a @ t)))
      = ocb3_encrypt_block_final E ctx i sz inp o' st (a @ t') (int (length (a @ t')))" for i sz o' st
    unfolding ocb3_encrypt_block_final_def by (cases st) (simp only: case_prod_conv)
  then show ?thesis
    unfolding ocb3_aes_encrypt_def by (simp only:)
qed

theorem ocb3_tag_ignores_partial_block_witness:
  "ocb3_aes_encrypt example_cipher example_ocb [1, 2] 2 (replicate 16 3 @ [1]) (int (length (replicate 16 (3::byte) @ [1]))) [0, 0]
    = ocb3_aes_encrypt example_cipher example_ocb [1, 2] 2 (replicate 16 3 @ [2]) (int (length (replicate 16 (3::byte) @ [2]))) [0, 0]"
  by (rule ocb3_tag_ignores_partial_block [of _ 1]) simp_all

end
