(* ===== verification/Ocb3_Rfc.thy ===== *)
theory Ocb3_Rfc
  imports Ocb3
begin

text \<open>
  OCB3 as RFC 7253 defines it, for a tag of 128 bits and a nonce of 96, as functions of the cipher \<open>e\<close> with a fixed key, and
  the inputs for which the code computes it. The names are those of the RFC: \<open>L_star\<close>, \<open>L_dollar\<close> and \<open>L_num i\<close> are its
  L_*, L_$ and L_i, \<open>rfc_double\<close> its double, \<open>rfc_hash\<close> its HASH. Strings are lists of bytes, and where the RFC slices
  strings by bits, here are the numbers they stand for.
\<close>

section \<open>The reference\<close>

text \<open>Numbers as strings: the \<open>n\<close> bytes of a number, the first the most significant.\<close>

fun be_bytes :: "nat \<Rightarrow> nat \<Rightarrow> bytes" where
  "be_bytes 0 v = []"
| "be_bytes (Suc n) v = be_bytes n (v div 256) @ [of_nat v]"

definition xor_string :: "bytes \<Rightarrow> bytes \<Rightarrow> bytes" where
  "xor_string a b = map2 (XOR) a b"

definition rfc_double :: "bytes \<Rightarrow> bytes" where
  "rfc_double s = be_bytes 16 ((2 * be_val s) mod 2 ^ 128 XOR (if 2 ^ 127 \<le> be_val s then 0x87 else 0))"

definition L_star :: "(bytes \<Rightarrow> bytes) \<Rightarrow> bytes" where
  "L_star e = e (replicate 16 0)"

definition L_dollar :: "(bytes \<Rightarrow> bytes) \<Rightarrow> bytes" where
  "L_dollar e = rfc_double (L_star e)"

fun L_num :: "(bytes \<Rightarrow> bytes) \<Rightarrow> nat \<Rightarrow> bytes" where
  "L_num e 0 = rfc_double (L_dollar e)"
| "L_num e (Suc i) = rfc_double (L_num e i)"

fun trailing_zeros :: "nat \<Rightarrow> nat" where
  "trailing_zeros n = (if n = 0 \<or> odd n then 0 else Suc (trailing_zeros (n div 2)))"

declare trailing_zeros.simps [simp del]

definition pad_one :: "bytes \<Rightarrow> bytes" where
  "pad_one s = s @ [0x80] @ replicate (15 - length s) 0"

fun rfc_hash :: "(bytes \<Rightarrow> bytes) \<Rightarrow> nat \<Rightarrow> bytes \<Rightarrow> bytes \<Rightarrow> bytes \<Rightarrow> bytes" where
  "rfc_hash e i a offset acc =
     (if 16 \<le> length a then
        let offset = xor_string offset (L_num e (trailing_zeros i)) in
        rfc_hash e (i + 1) (drop 16 a) offset (xor_string acc (e (xor_string (take 16 a) offset)))
      else if a = [] then acc
      else
        let offset = xor_string offset (L_star e) in
        xor_string acc (e (xor_string (pad_one a) offset)))"

declare rfc_hash.simps [simp del]

text \<open>The initial offset, from the 96 bits of the nonce: the nonce's number has a one in front of them.\<close>

definition rfc_offset :: "(bytes \<Rightarrow> bytes) \<Rightarrow> bytes \<Rightarrow> bytes" where
  "rfc_offset e n =
     (let nonce = 2 ^ 96 + be_val n;
          bottom = nonce mod 64;
          ktop = be_val (e (be_bytes 16 (nonce - bottom)));
          stretch = ktop * 2 ^ 64 + (ktop div 2 ^ 64 XOR (ktop div 2 ^ 56) mod 2 ^ 64)
      in be_bytes 16 (stretch div 2 ^ (64 - bottom) mod 2 ^ 128))"

fun rfc_blocks :: "(bytes \<Rightarrow> bytes) \<Rightarrow> nat \<Rightarrow> bytes \<Rightarrow> bytes \<Rightarrow> bytes \<Rightarrow> bytes \<times> bytes" where
  "rfc_blocks e i m offset checksum =
     (if 16 \<le> length m then
        let offset = xor_string offset (L_num e (trailing_zeros i));
            c = xor_string offset (e (xor_string (take 16 m) offset));
            (cs, tag) = rfc_blocks e (i + 1) (drop 16 m) offset (xor_string checksum (take 16 m))
        in (c @ cs, tag)
      else if m = [] then ([], e (xor_string (xor_string checksum offset) (L_dollar e)))
      else
        let offset = xor_string offset (L_star e);
            checksum = xor_string checksum (pad_one m)
        in (xor_string m (take (length m) (e offset)), e (xor_string (xor_string checksum offset) (L_dollar e))))"

declare rfc_blocks.simps [simp del]

definition rfc_encrypt :: "(bytes \<Rightarrow> bytes) \<Rightarrow> bytes \<Rightarrow> bytes \<Rightarrow> bytes \<Rightarrow> bytes \<times> bytes" where
  "rfc_encrypt e n a m =
     (let (c, tag) = rfc_blocks e 1 m (rfc_offset e n) (replicate 16 0)
      in (c, xor_string tag (rfc_hash e 1 a (replicate 16 0) (replicate 16 0))))"

section \<open>Strings and blocks\<close>

lemma be_bytes_length [simp]: "length (be_bytes n v) = n"
  by (induction n arbitrary: v) simp_all

lemma be_val_be_bytes: "be_val (be_bytes n v) = v mod 256 ^ n"
proof (induction n arbitrary: v)
  case (Suc n)
  have "unat (of_nat v :: byte) = v mod 256" by (simp add: unat_of_nat)
  then show ?case using mod_mult2_eq [of v 256 "256 ^ n"] by (simp add: be_val_append Suc mult.commute)
qed simp

lemma be_bytes_be_val: "length b = n \<Longrightarrow> be_bytes n (be_val b) = b"
  using be_val_less [of b] by (intro be_val_inj) (simp_all add: be_val_be_bytes)

lemma xor_string_length [simp]: "length (xor_string a b) = min (length a) (length b)"
  by (simp add: xor_string_def)

lemma xor_block_string: "length a = 16 \<Longrightarrow> length b = 16 \<Longrightarrow> xor_block a b = xor_string a b"
  by (rule nth_equalityI) (simp_all add: xor_string_def)

lemma xor_string_commute: "xor_string a b = xor_string b a"
  by (auto simp: xor_string_def xor.commute intro!: nth_equalityI)

lemma rfc_double_block: "length b = 16 \<Longrightarrow> rfc_double b = double_block b"
  unfolding rfc_double_def double_block_arith [symmetric] by (rule be_bytes_be_val) simp

lemma rfc_double_length [simp]: "length (rfc_double b) = 16"
  by (simp add: rfc_double_def)

lemma rfc_offset_length: "length (rfc_offset e n) = 16"
  by (simp only: rfc_offset_def Let_def be_bytes_length)

lemma L_num_length [simp]: "length (L_num e i) = 16"
  by (cases i) simp_all

section \<open>Numbers\<close>

lemma bit_above: "r < 2 ^ m \<Longrightarrow> bit (a * 2 ^ m + r :: nat) n \<longleftrightarrow> (if n < m then bit r n else bit a (n - m))"
proof (cases "n < m")
  case True
  then obtain k where m: "m = n + Suc k" using less_iff_Suc_add by auto
  have "(a * 2 ^ m + r) div 2 ^ n = a * 2 ^ Suc k + r div 2 ^ n"
    using div_mult_self1 [of "2 ^ n :: nat" r "a * 2 ^ Suc k"] by (simp add: m power_add ac_simps)
  then show ?thesis using True by (simp add: bit_iff_odd)
next
  case False
  assume r: "r < 2 ^ m"
  from False obtain k where n: "n = m + k" using le_Suc_ex [of m n] by auto
  have "(a * 2 ^ m + r) div 2 ^ m = a" using r by simp
  then have "(a * 2 ^ m + r) div 2 ^ n = a div 2 ^ k" by (simp add: n power_add div_mult2_eq)
  then show ?thesis using False by (simp add: bit_iff_odd n)
qed

lemma xor_less: "r < 2 ^ m \<Longrightarrow> s < 2 ^ m \<Longrightarrow> r XOR s < (2 ^ m :: nat)"
  by (metis take_bit_nat_eq_self take_bit_nat_less_exp take_bit_xor)

lemma xor_above:
  assumes "r < 2 ^ m" and "s < 2 ^ m"
  shows "(a * 2 ^ m + r) XOR (b * 2 ^ m + s) = (a XOR b) * 2 ^ m + (r XOR s :: nat)"
  by (rule bit_eqI) (simp add: bit_simps bit_above assms xor_less)

lemma be_val_less_2: "be_val b < 2 ^ (8 * length b)"
  using be_val_less [of b] by (simp add: power_mult)

lemma be_val_xor: "length a = length b \<Longrightarrow> be_val (xor_string a b) = be_val a XOR be_val b"
proof (induction a b rule: list_induct2)
  case (Cons x xs y ys)
  have pow: "(256 :: nat) ^ length ys = 2 ^ (8 * length ys)" by (simp add: power_mult)
  have "be_val (xor_string (x # xs) (y # ys)) = (unat x XOR unat y) * 2 ^ (8 * length ys) + (be_val xs XOR be_val ys)"
    using Cons.IH Cons.hyps by (simp add: xor_string_def unsigned_xor_eq pow)
  also have "\<dots> = (unat x * 2 ^ (8 * length ys) + be_val xs) XOR (unat y * 2 ^ (8 * length ys) + be_val ys)"
    using be_val_less_2 [of xs] be_val_less_2 [of ys] Cons.hyps by (intro xor_above [symmetric]) simp_all
  finally show ?case using Cons.hyps by (simp add: pow)
qed (simp add: xor_string_def)

lemma be_val_take: "n \<le> length b \<Longrightarrow> be_val (take n b) = be_val b div 256 ^ (length b - n)"
  using be_val_append [of "take n b" "drop n b"] be_val_less [of "drop n b"] by simp

lemma be_val_drop: "n \<le> length b \<Longrightarrow> be_val (drop n b) = be_val b mod 256 ^ (length b - n)"
  using be_val_append [of "take n b" "drop n b"] be_val_less [of "drop n b"] by simp

lemma div_mod_power: "x mod 2 ^ 120 div 2 ^ 56 = x div 2 ^ 56 mod (2 ^ 64 :: nat)"
proof -
  have "drop_bit 56 (take_bit 120 x) = take_bit 64 (drop_bit 56 x)"
    by (rule bit_eqI) (auto simp: bit_simps)
  then show ?thesis by (simp add: drop_bit_eq_div take_bit_eq_mod)
qed

lemma window:
  assumes "b \<le> 64"
  shows "(x * 2 ^ b) mod 2 ^ 192 div 2 ^ 64 = x div 2 ^ (64 - b) mod (2 ^ 128 :: nat)"
proof -
  have "drop_bit 64 (take_bit 192 (push_bit b x)) = take_bit 128 (drop_bit (64 - b) x)"
    by (rule bit_eqI) (use assms in \<open>auto simp: bit_simps\<close>)
  then show ?thesis by (simp add: drop_bit_eq_div take_bit_eq_mod push_bit_eq_mult)
qed

section \<open>The initial offset\<close>

lemma byte_masks:
  "unat (b AND 0xC0 :: byte) = unat b - unat b mod 64"
  "b AND 0x20 = 0 \<Longrightarrow> unat (b AND 0x1F) = unat b mod 64"
proof -
  have bit: "bit b n \<Longrightarrow> n < 8" for n using bit_imp_le_length [of b n] by simp
  have "b AND 0xC0 = push_bit 6 (drop_bit 6 b)"
    by (rule bit_word_eqI) (auto simp: bit_simps byte_bits dest: bit)
  then have "unat (b AND 0xC0) = take_bit 8 (push_bit 6 (drop_bit 6 (unat b)))"
    using unsigned_less [of b, where 'a = nat] by (simp add: unsigned_push_bit_eq unsigned_drop_bit_eq take_bit_nat_eq_self)
  also have "\<dots> = unat b div 64 * 64"
    using unsigned_less [of b, where 'a = nat] by (simp add: take_bit_eq_mod drop_bit_eq_div push_bit_eq_mult) 
  finally show "unat (b AND 0xC0) = unat b - unat b mod 64" by (simp add: minus_mod_eq_div_mult)
  show "unat (b AND 0x1F) = unat b mod 64" if "b AND 0x20 = 0"
  proof -
    have "\<not> bit (b AND 0x20) 5" using that by simp
    then have "\<not> bit b 5" by (simp add: bit_and_iff byte_bits)
    then have "b AND 0x1F = take_bit 6 b"
      by (intro bit_word_eqI) (auto simp: bit_simps byte_bits less_Suc_eq numeral_eq_Suc)
    then have "unat (b AND 0x1F) = take_bit 6 (unat b)" by (simp only: unsigned_take_bit_eq)
    then show ?thesis by (simp add: take_bit_eq_mod)
  qed
qed

lemma offset_init_rfc:
  assumes "length (enc_iv ctx) = 16" and "enc_iv ctx ! 11 AND 0x20 = 0"
    and E: "\<And>b. length b = 16 \<Longrightarrow> length (E (key ctx) b) = 16"
  shows "offset_init E ctx = rfc_offset (E (key ctx)) (take 12 (enc_iv ctx))"
proof -
  let ?n = "take 12 (enc_iv ctx)" and ?x = "enc_iv ctx ! 11" and ?init = "[0, 0, 0, 1] @ take 11 (enc_iv ctx)"
  define v where "v = 2 ^ 96 + be_val ?n"
  have nonce: "nonce_init ctx = ?init @ [?x]" "length ?init = 15"
    using assms(1) take_Suc_conv_app_nth [of 11 "enc_iv ctx"] by (simp_all add: nonce_init_eq)
  have "be_val (nonce_init ctx) = v"
    using assms(1) be_val_append [of "[0, 0, 0, 1]" ?n] by (simp add: nonce_init_eq v_def)
  then have v: "v = be_val ?init * 256 + unat ?x" using be_val_append [of ?init "[?x]"] by (simp add: nonce(1))
  have m: "v mod 64 = unat ?x mod 64"
    using mod_mult_self3 [of "4 * be_val ?init" 64 "unat ?x"] unfolding v by (simp add: ac_simps)
  define bottom where "bottom = v mod 64"
  have bottom: "unat (nonce_init ctx ! 15 AND 0x1F) = bottom" "bottom < 64"
    using byte_masks(2) [OF assms(2)] nonce(2) by (simp_all add: bottom_def m nonce(1) nth_append)
  have "be_val ((nonce_init ctx)[15 := nonce_init ctx ! 15 AND 0xC0]) = v - bottom"
    unfolding bottom_def unfolding m unfolding v
    using nonce(2) be_val_append [of ?init "[?x AND 0xC0]"] byte_masks(1) [of ?x]
    by (simp add: nonce(1) nth_append list_update_append)
  moreover have "length ((nonce_init ctx)[15 := nonce_init ctx ! 15 AND 0xC0]) = 16" using nonce by simp
  ultimately have "(nonce_init ctx)[15 := nonce_init ctx ! 15 AND 0xC0] = be_bytes 16 (v - bottom)"
    using be_bytes_be_val by metis
  then have ktop: "ktop_init E ctx (nonce_init ctx) = E (key ctx) (be_bytes 16 (v - bottom))" (is "_ = ?ktop")
    by (simp add: ktop_init_def)
  let ?kt = "be_val ?ktop"
  have len: "length ?ktop = 16" by (simp add: E)
  have "map (\<lambda>i. ?ktop ! i XOR ?ktop ! (i + 1)) [0..<8] = xor_string (take 8 ?ktop) (take 8 (drop 1 ?ktop))"
    by (rule nth_equalityI) (simp_all add: xor_string_def len)
  then have stretch: "stretch_init ?ktop = ?ktop @ xor_string (take 8 ?ktop) (take 8 (drop 1 ?ktop))"
    by (simp add: stretch_init_def)
  let ?st = "stretch_init ?ktop"
  define z where "z = ?kt * 2 ^ 64 + (?kt div 2 ^ 64 XOR (?kt div 2 ^ 56) mod 2 ^ 64)"
  have pow: "(256 :: nat) ^ 8 = 2 ^ 64" "(256 :: nat) ^ 24 = 2 ^ 192" "(256 :: nat) ^ 15 = 2 ^ 120" "(256 :: nat) ^ 7 = 2 ^ 56"
    by simp_all
  have "be_val (take 8 (drop 1 ?ktop)) = ?kt mod 256 ^ 15 div 256 ^ 7"
    using be_val_take [of 8 "drop 1 ?ktop"] be_val_drop [of 1 ?ktop] by (simp add: len del: power_numeral)
  then have "be_val (take 8 (drop 1 ?ktop)) = (?kt div 2 ^ 56) mod 2 ^ 64"
    using div_mod_power [of ?kt] by (simp only: pow)
  moreover have "be_val (take 8 ?ktop) = ?kt div 2 ^ 64"
    using be_val_take [of 8 ?ktop] by (simp add: len pow(1) del: power_numeral)
  ultimately have st: "be_val ?st = z" "length ?st = 24"
    by (simp_all add: stretch be_val_append be_val_xor len pow(1) z_def del: power_numeral)
  have "be_val (take 16 (left_shift ?st 24 bottom)) = be_val (left_shift ?st 24 bottom) div 256 ^ 8"
    using be_val_take [of 16 "left_shift ?st 24 bottom"] by (simp del: power_numeral)
  also have "\<dots> = z * 2 ^ bottom mod 256 ^ 24 div 256 ^ 8"
    using left_shift_arith [of ?st bottom] by (simp only: st)
  also have "\<dots> = z div 2 ^ (64 - bottom) mod 2 ^ 128"
    unfolding pow by (rule window) (use bottom in simp)
  finally have "take 16 (left_shift ?st 24 bottom) = be_bytes 16 (z div 2 ^ (64 - bottom) mod 2 ^ 128)"
    using be_bytes_be_val [of "take 16 (left_shift ?st 24 bottom)" 16] by (simp del: power_numeral)
  moreover have "offset_init E ctx = take 16 (left_shift ?st 24 bottom)"
    using bottom(1) by (simp add: offset_init_def Let_def ktop)
  moreover have "rfc_offset (E (key ctx)) ?n = be_bytes 16 (z div 2 ^ (64 - bottom) mod 2 ^ 128)"
    by (simp only: rfc_offset_def Let_def bottom_def v_def z_def)
  ultimately show ?thesis by (simp only:)
qed

section \<open>The hash\<close>

lemma key_schedule:
  assumes "\<And>b. length b = 16 \<Longrightarrow> length (E k b) = 16"
  shows "L_star (E k) = E k zero_block" and "length (L_star (E k)) = 16" and "L_dollar (E k) = double_block (E k zero_block)"
    and "L_num (E k) 0 = keyvar_init E k" and "L_num (E k) (Suc 0) = double_block (keyvar_init E k)"
  using assms
  by (simp_all add: L_star_def L_dollar_def rfc_double_block keyvar_init_def zero_block_def)

lemma ntz_values: "ntz 0 = 0" "ntz 16 = 4"
  by (simp_all add: ntz_def)

lemma trailing_zeros_values: "trailing_zeros (Suc 0) = 0" "trailing_zeros (Suc (Suc 0)) = Suc 0"
  by (simp_all add: trailing_zeros.simps [of "Suc 0"] trailing_zeros.simps [of "Suc (Suc 0)"])

lemma pad_one_poke:
  assumes "length m < 16"
  shows "rbind (poke zero_block 0 m) (\<lambda>pad. rbind (poke pad (length m) [0x80]) f) = f (pad_one m)" and "length (pad_one m) = 16"
proof -
  have "poke zero_block 0 m = Inr (m @ replicate (16 - length m) 0)" using assms by (simp add: poke_def zero_block_def)
  moreover have "replicate (16 - length m) (0 :: byte) = 0 # replicate (15 - length m) 0"
    using assms by (simp add: replicate_Suc [symmetric] Suc_diff_le del: replicate_Suc)
  ultimately show "rbind (poke zero_block 0 m) (\<lambda>pad. rbind (poke pad (length m) [0x80]) f) = f (pad_one m)"
    using assms by (simp add: poke_def pad_one_def)
  show "length (pad_one m) = 16" using assms by (simp add: pad_one_def)
qed

lemma hash_block_string:
  assumes "length p = 16" and "length kv = 16" and "length s = 16" and "length off = 16"
    and E: "\<And>b. length b = 16 \<Longrightarrow> length (E (key ctx) b) = 16"
  shows "ocb3_hash_block E ctx p kv (s, off) =
    (xor_string s (E (key ctx) (xor_string p (xor_string off kv))), xor_string off kv)"
  using assms by (simp add: ocb3_hash_block_def xor_block_string xor_string_commute [of s] Let_def)

lemma hash_rfc:
  assumes "length a < 16 \<or> length a = 16 \<or> length a = 32" and E: "\<And>b. length b = 16 \<Longrightarrow> length (E (key ctx) b) = 16"
  shows "ocb3_hash_plaintext E ctx a (int (length a)) = Inr (rfc_hash (E (key ctx)) 1 a (replicate 16 0) (replicate 16 0))"
proof -
  note ks = key_schedule [where E = E and k = "key ctx", OF E]
  note hb = hash_block_string [where E = E and ctx = ctx, OF _ _ _ _ E]
  consider "a = []" | "a \<noteq> []" "length a < 16" | "length a = 16" | "length a = 32" using assms(1) by auto
  then show ?thesis
  proof cases
    case 1
    then show ?thesis by (simp add: ocb3_hash_plaintext_def rfc_hash.simps zero_block_def)
  next
    case 2
    then have "ocb3_hash_block_final E ctx a (length a) st = Inr (ocb3_hash_block E ctx (pad_one a) (L_star (E (key ctx))) st)" for st
      using pad_one_poke(1) [OF 2(2), of Inr] by (auto simp: ocb3_hash_block_final_def Let_def ks(1))
    with 2 show ?thesis
      by (simp add: ocb3_hash_plaintext_def rfc_hash.simps zero_block_def hb pad_one_poke(2) ks(2) E)
  next
    case 3
    then show ?thesis
      by (simp add: ocb3_hash_plaintext_def ocb3_hash_round_def bump_keyvar_def Let_def zero_block_def hb ks(4) [symmetric] rfc_hash.simps E
          trailing_zeros_values ntz_values)
  next
    case 4
    then show ?thesis
      by (simp add: ocb3_hash_plaintext_def ocb3_hash_round_def bump_keyvar_def Let_def zero_block_def hb ks(4) [symmetric] rfc_hash.simps E
          trailing_zeros_values ntz_values upt_rec numeral_2_eq_2 rfc_double_block [symmetric])
  qed
qed

lemma rfc_hash_length:
  assumes "\<And>b. length b = 16 \<Longrightarrow> length (e b) = 16"
  shows "length offset = 16 \<Longrightarrow> length acc = 16 \<Longrightarrow> length (rfc_hash e i a offset acc) = 16"
  using assms
proof (induction e i a offset acc rule: rfc_hash.induct)
  case (1 e i a offset acc)
  then show ?case by (subst rfc_hash.simps) (simp add: Let_def pad_one_poke(2) L_star_def)
qed

section \<open>The encryption\<close>

lemma tag_string:
  assumes "ocb3_hash_plaintext E ctx a n = Inr h" and "length h = 16" and "length s = 16" and "length off = 16"
    and E: "\<And>b. length b = 16 \<Longrightarrow> length (E (key ctx) b) = 16"
  shows "ocb3_compute_tag E ctx s off a n = Inr (xor_string (E (key ctx) (xor_string (xor_string s off) (L_dollar (E (key ctx))))) h)"
  using assms key_schedule(3) [where E = E and k = "key ctx", OF E]
  by (simp add: ocb3_compute_tag_def Let_def xor_block_string xor_string_commute [of h])

lemma pad_string:
  "length r \<le> length p \<Longrightarrow> xor_block_ex p r (length r) = Inr (xor_string r (take (length r) p))"
  by (auto simp: xor_block_ex_def xor_string_def xor.commute intro!: nth_equalityI)

lemma final_rfc:
  assumes "ocb3_hash_plaintext E ctx a (int (length a)) = Inr h" and "length h = 16"
    and "drop (i * 16) m = r" and "length r < 16" and "i * 16 \<le> length m" and "length m \<le> length out"
    and "length s = 16" and "length off = 16"
    and E: "\<And>b. length b = 16 \<Longrightarrow> length (E (key ctx) b) = 16"
  shows "case rfc_blocks (E (key ctx)) j r off s of (c, tag) \<Rightarrow>
    ocb3_encrypt_block_final E ctx i (int (length r)) m out (off, s) a (int (length a))
      = Inr (take (i * 16) out @ c @ drop (length m) out, xor_string tag h)"
proof -
  note ks = key_schedule [where E = E and k = "key ctx", OF E]
  note tag = tag_string [where E = E and ctx = ctx, OF assms(1,2) _ _ E]
  show ?thesis
  proof (cases "r = []")
    case True
    then have "i * 16 = length m" using assms(3,5) by simp
    then show ?thesis using True assms(7,8) by (simp add: ocb3_encrypt_block_final_def rfc_blocks.simps tag)
  next
    case False
    let ?off = "xor_string off (L_star (E (key ctx)))"
    let ?c = "xor_string r (take (length r) (E (key ctx) ?off))"
    have len: "length ?off = 16" "length (E (key ctx) ?off) = 16" using assms(8) ks(2) by (simp_all add: E)
    have offs: "xor_block (L_star (E (key ctx))) off = ?off"
      using assms(8) ks(2) by (simp add: xor_block_string xor_string_commute)
    have m: "length m = i * 16 + length r" using assms(3,5) by auto
    have "poke out (i * 16) ?c = Inr (take (i * 16) out @ ?c @ drop (length m) out)"
      using assms(4,6) len m by (simp add: poke_def)
    moreover have "xor_block s (pad_one r) = xor_string s (pad_one r)"
      using assms(4,7) by (simp add: xor_block_string pad_one_poke(2))
    moreover have "r @ 0x80 # drop (Suc (length r)) zero_block = pad_one r" by (simp add: pad_one_def zero_block_def)
    ultimately show ?thesis
      using False assms(4,7) len pad_string [of r "E (key ctx) ?off"] pad_one_poke(2) [OF assms(4)]
      by (simp add: ocb3_encrypt_block_final_def Let_def ks(1) [symmetric] offs assms(3) rfc_blocks.simps tag peek_def)
  qed
qed

lemma block_string:
  assumes "length b = 16" and "length kv = 16" and "length s = 16" and "length off = 16"
    and E: "\<And>b. length b = 16 \<Longrightarrow> length (E (key ctx) b) = 16"
  shows "ocb3_encrypt_block E ctx b kv (off, s) =
    (xor_string (xor_string off kv) (E (key ctx) (xor_string b (xor_string off kv))), xor_string off kv, xor_string s b)"
  using assms by (simp add: ocb3_encrypt_block_def xor_block_string Let_def)

lemma encrypt_rfc:
  assumes iv: "length (enc_iv ctx) = 16" "enc_iv ctx ! 11 AND 0x20 = 0"
    and E: "\<And>b. length b = 16 \<Longrightarrow> length (E (key ctx) b) = 16"
    and len: "length m < 32" "length m \<le> length out" "length a < 16 \<or> length a = 16 \<or> length a = 32"
  shows "case rfc_encrypt (E (key ctx)) (take 12 (enc_iv ctx)) a m of (c, tag) \<Rightarrow>
    ocb3_aes_encrypt E ctx m (int (length m)) a (int (length a)) out = Inr (c @ drop (length m) out, tag)"
proof -
  note ks = key_schedule [where E = E and k = "key ctx", OF E]
  let ?e = "E (key ctx)" and ?z = "replicate 16 0 :: bytes"
  define off where "off = rfc_offset ?e (take 12 (enc_iv ctx))"
  have off: "offset_init E ctx = off" "length off = 16"
    using offset_init_rfc [where E = E and ctx = ctx, OF iv E] by (simp_all only: off_def rfc_offset_length)
  define h where "h = rfc_hash ?e 1 a ?z ?z"
  have h: "ocb3_hash_plaintext E ctx a (int (length a)) = Inr h" "length h = 16"
    unfolding h_def by (rule hash_rfc [where E = E and ctx = ctx, OF len(3) E]) (simp_all add: rfc_hash_length E)
  note final = final_rfc [where E = E and ctx = ctx, OF h _ _ _ _ _ _ E]
  have spec: "rfc_encrypt ?e (take 12 (enc_iv ctx)) a m = (case rfc_blocks ?e 1 m off ?z of (c, tag) \<Rightarrow> (c, xor_string tag h))"
    by (simp add: rfc_encrypt_def off_def h_def)
  show ?thesis
  proof (cases "length m < 16")
    case True
    then have "nat (int (length m) div 16) = 0" by simp
    then show ?thesis
      using final [of 0 m m out ?z off 1] True len(2) off
      by (simp add: spec ocb3_aes_encrypt_def zero_block_def split_beta)
  next
    case False
    let ?o = "xor_string off (L_num ?e 0)" and ?b = "take 16 m" and ?r = "drop 16 m"
    let ?c = "xor_string ?o (?e (xor_string ?b ?o))"
    have n: "nat (int (length m) div 16) = 1"
    proof -
      have "length m div 16 = 1" by (rule div_nat_eqI) (use False len(1) in simp_all)
      then show ?thesis by (simp add: nat_div_distrib)
    qed
    have round: "ocb3_round E ctx m 0 (out, (ntz 0, keyvar_init E (key ctx)), off, ?z)
        = Inr (?c @ drop 16 out, (0, L_num ?e 0), ?o, xor_string ?z ?b)"
    proof -
      have "ocb3_encrypt_block E ctx ?b (keyvar_init E (key ctx)) (off, ?z) = (?c, ?o, xor_string ?z ?b)"
        using False off by (subst block_string) (simp_all only: ks(4) [symmetric] E, simp_all)
      moreover have "poke out 0 ?c = Inr (?c @ drop 16 out)"
        using False len(2) off E by (simp add: poke_def del: L_num.simps)
      moreover have "peek m 0 16 = Inr ?b" using False by (simp add: peek_def)
      ultimately show ?thesis
        by (simp add: ocb3_round_def bump_keyvar_def Let_def ntz_values ks(4) del: L_num.simps)
    qed
    have "rfc_blocks ?e 1 m off ?z = (case rfc_blocks ?e 2 ?r ?o (xor_string ?z ?b) of (cs, tag) \<Rightarrow> (?c @ cs, tag))"
      using False by (subst rfc_blocks.simps) (simp add: Let_def trailing_zeros_values numeral_2_eq_2)
    moreover have "case rfc_blocks ?e 2 ?r ?o (xor_string ?z ?b) of (cs, tag) \<Rightarrow>
      ocb3_encrypt_block_final E ctx 1 (int (length ?r)) m (?c @ drop 16 out) (?o, xor_string ?z ?b) a (int (length a))
        = Inr (take (1 * 16) (?c @ drop 16 out) @ cs @ drop (length m) (?c @ drop 16 out), xor_string tag h)"
      by (rule final) (use False len off E in \<open>simp_all\<close>)
    ultimately show ?thesis
      using False round off E
      by (simp add: spec ocb3_aes_encrypt_def n zero_block_def split_beta)
  qed
qed

section \<open>Properties\<close>

text \<open>
  C15: The code computes OCB3, the ciphertext and the whole tag of RFC 7253, for every message of less than two blocks,
  for associated data of less than one block, of one block or of two, and for a nonce whose last byte has bit 5 clear. (For
  other inputs it does not: the properties of the nonce, of the partial block and of \<open>ntz\<close> say why.)
\<close>

theorem ocb3_matches_rfc:
  assumes "length (enc_iv ctx) = 16" and "enc_iv ctx ! 11 AND 0x20 = 0"
    and "length m < 32" and "length m \<le> length out" and "length a < 16 \<or> length a = 16 \<or> length a = 32"
    and "\<And>b. length b = 16 \<Longrightarrow> length (E (key ctx) b) = 16"
  shows "case rfc_encrypt (E (key ctx)) (take 12 (enc_iv ctx)) a m of (c, tag) \<Rightarrow>
    ocb3_aes_encrypt E ctx m (int (length m)) a (int (length a)) out = Inr (c @ drop (length m) out, tag)"
  by (rule encrypt_rfc [where E = E and ctx = ctx, OF assms(1,2,6,3-5)])

theorem ocb3_matches_rfc_witness:
  "case rfc_encrypt (example_cipher zero_block) (replicate 12 0) (replicate 32 7) (replicate 16 3 @ [1, 2]) of (c, tag) \<Rightarrow>
    ocb3_aes_encrypt example_cipher example_ocb (replicate 16 3 @ [1, 2]) 18 (replicate 32 7) 32 (replicate 20 9)
      = Inr (c @ [9, 9], tag)"
proof -
  have "take 12 zero_block = replicate 12 0" "zero_block ! 11 AND 0x20 = (0 :: byte)" by (simp_all add: zero_block_def)
  moreover have "drop 18 (replicate 20 9) = [9, 9 :: byte]" by (simp add: numeral_2_eq_2)
  ultimately show ?thesis
    using ocb3_matches_rfc [of example_ocb "replicate 16 3 @ [1, 2]" "replicate 20 9" "replicate 32 7" example_cipher]
    by (simp add: example_cipher_def)
qed

end
