(* ===== verification/Ocb2_Spec.thy ===== *)
theory Ocb2_Spec
  imports Ocb2 Ocb3_Rfc
begin

text \<open>
  OCB2 as Rogaway defines it, the cipher of the protocol, for a nonce and a tag of 16 bytes and no header, as functions of
  the cipher \<open>e\<close> with a fixed key (and its inverse \<open>d\<close>); and the messages for which \<^verbatim>\<open>lib/mumble/ocb_aes.c\<close> computes it.

  A message has \<open>max 1 \<lceil>length / 16\<rceil>\<close> blocks. All of them but the last are masked; the last one, a full one too, is
  exclusive-ored with the enciphered number of its bits. The code takes the last block this way only when it is not full.
\<close>

section \<open>The reference\<close>

fun ocb2_blocks :: "(bytes \<Rightarrow> bytes) \<Rightarrow> bytes \<Rightarrow> bytes \<Rightarrow> bytes \<Rightarrow> bytes \<times> bytes" where
  "ocb2_blocks e m delta checksum =
     (if length m \<le> 16 then
        let pad = e (xor_string (be_bytes 16 (8 * length m)) delta);
            c = xor_string m (take (length m) pad);
            checksum = xor_string checksum (xor_string (c @ replicate (16 - length c) 0) pad)
        in (c, e (xor_string (xor_string delta (rfc_double delta)) checksum))
      else
        let c = xor_string delta (e (xor_string delta (take 16 m)));
            (cs, tag) = ocb2_blocks e (drop 16 m) (rfc_double delta) (xor_string checksum (take 16 m))
        in (c @ cs, tag))"

declare ocb2_blocks.simps [simp del]

definition ocb2_reference :: "(bytes \<Rightarrow> bytes) \<Rightarrow> bytes \<Rightarrow> bytes \<Rightarrow> bytes \<times> bytes" where
  "ocb2_reference e n m = ocb2_blocks e m (rfc_double (e n)) (replicate 16 0)"

text \<open>Decryption: the message and the tag it should have.\<close>

fun ocb2_unblocks :: "(bytes \<Rightarrow> bytes) \<Rightarrow> (bytes \<Rightarrow> bytes) \<Rightarrow> bytes \<Rightarrow> bytes \<Rightarrow> bytes \<Rightarrow> bytes \<times> bytes" where
  "ocb2_unblocks e d c delta checksum =
     (if length c \<le> 16 then
        let pad = e (xor_string (be_bytes 16 (8 * length c)) delta);
            m = xor_string c (take (length c) pad);
            checksum = xor_string checksum (xor_string (c @ replicate (16 - length c) 0) pad)
        in (m, e (xor_string (xor_string delta (rfc_double delta)) checksum))
      else
        let m = xor_string delta (d (xor_string delta (take 16 c)));
            (ms, tag) = ocb2_unblocks e d (drop 16 c) (rfc_double delta) (xor_string checksum m)
        in (m @ ms, tag))"

declare ocb2_unblocks.simps [simp del]

definition ocb2_opened :: "(bytes \<Rightarrow> bytes) \<Rightarrow> (bytes \<Rightarrow> bytes) \<Rightarrow> bytes \<Rightarrow> bytes \<Rightarrow> bytes \<times> bytes" where
  "ocb2_opened e d n c = ocb2_unblocks e d c (rfc_double (e n)) (replicate 16 0)"

section \<open>The reference decrypts what it encrypts\<close>

lemma xor_string_cancel: "length a = length b \<Longrightarrow> xor_string a (xor_string a b) = b"
  by (auto simp: xor_string_def xor.assoc [symmetric] intro!: nth_equalityI)

lemma xor_string_cancel_right: "length a \<le> length b \<Longrightarrow> xor_string (xor_string a b) b = a"
  by (auto simp: xor_string_def xor.assoc intro!: nth_equalityI)

lemma ocb2_unblocks_blocks:
  assumes "\<And>b. length b = 16 \<Longrightarrow> length (e b) = 16" and "\<And>b. length b = 16 \<Longrightarrow> d (e b) = b" and "length delta = 16"
  shows "ocb2_unblocks e d (fst (ocb2_blocks e m delta s)) delta s = (m, snd (ocb2_blocks e m delta s))
    \<and> length (fst (ocb2_blocks e m delta s)) = length m"
  using assms(3)
proof (induction "length m" arbitrary: m delta s rule: less_induct)
  case less
  show ?case
  proof (cases "length m \<le> 16")
    case True
    then have "length (e (xor_string (be_bytes 16 (8 * length m)) delta)) = 16" using less.prems assms(1) by simp
    then show ?thesis
      using True by (simp add: ocb2_blocks.simps [of e m] ocb2_unblocks.simps Let_def xor_string_cancel_right)
  next
    case False
    let ?c = "xor_string delta (e (xor_string delta (take 16 m)))" and ?t = "xor_string s (take 16 m)"
    have "length (drop 16 m) < length m" using False by simp
    from less.hyps [OF this, of "rfc_double delta" ?t]
    have rest: "ocb2_unblocks e d (fst (ocb2_blocks e (drop 16 m) (rfc_double delta) ?t)) (rfc_double delta) ?t
        = (drop 16 m, snd (ocb2_blocks e (drop 16 m) (rfc_double delta) ?t))"
      "length (fst (ocb2_blocks e (drop 16 m) (rfc_double delta) ?t)) = length m - 16" by simp_all
    have c: "length ?c = 16" using less.prems False assms(1) by simp
    have m: "xor_string delta (d (xor_string delta ?c)) = take 16 m"
      using less.prems False assms by (simp add: xor_string_cancel)
    have blocks: "ocb2_blocks e m delta s = (?c @ fst (ocb2_blocks e (drop 16 m) (rfc_double delta) ?t),
        snd (ocb2_blocks e (drop 16 m) (rfc_double delta) ?t))"
      using False by (simp add: ocb2_blocks.simps [of e m] Let_def split_beta)
    show ?thesis
      using False rest c m unfolding blocks by (simp add: ocb2_unblocks.simps [of e d "?c @ _"] Let_def)
  qed
qed

lemma ocb2_opened_reference:
  assumes "\<And>b. length b = 16 \<Longrightarrow> length (e b) = 16" and "\<And>b. length b = 16 \<Longrightarrow> d (e b) = b"
  shows "ocb2_opened e d n (fst (ocb2_reference e n m)) = (m, snd (ocb2_reference e n m))"
  using ocb2_unblocks_blocks [of e d "rfc_double (e n)" m "replicate 16 0"] assms by (simp add: ocb2_opened_def ocb2_reference_def)

section \<open>The code and the reference\<close>

text \<open>The masked blocks of a message from block \<open>i\<close> on.\<close>

abbreviation masked :: "(bytes \<Rightarrow> bytes) \<Rightarrow> (nat \<Rightarrow> bytes) \<Rightarrow> bytes \<Rightarrow> nat \<Rightarrow> bytes" where
  "masked e offset m i \<equiv> xor_block (e (xor_block (offset i) (msg_block m i))) (offset i)"

lemma blocks_sum_Suc: "blocks_sum m (Suc i) = xor_block (blocks_sum m i) (msg_block m i)"
  by (simp add: blocks_sum_def)

lemma blocks_sum_length [simp]: "length (blocks_sum m i) = 16"
  by (cases i) (simp_all add: blocks_sum_def zero_block_def)

lemma triple_string: "length b = 16 \<Longrightarrow> triple_block b = xor_string b (rfc_double b)"
  by (simp add: triple_block_def rfc_double_block xor_block_string)

lemma map2_xor_string: "map2 (XOR) a b = xor_string a b"
  by (simp add: xor_string_def)

text \<open>The last block of the reference, when it is not full.\<close>

lemma ocb2_last_block:
  assumes E_len: "\<And>b. length b = 16 \<Longrightarrow> length (E k b) = 16"
  shows "ocb2_blocks (E k) (msg_rest m) (ocb2_offset E k iv (length m div 16)) (blocks_sum m (length m div 16))
    = (map2 (XOR) (msg_rest m) (ocb2_pad E k iv (length m)), ocb2_tag E k iv m)"
proof -
  let ?r = "length m mod 16" and ?d = "ocb2_offset E k iv (length m div 16)" and ?s = "blocks_sum m (length m div 16)"
  let ?pad = "ocb2_pad E k iv (length m)"
  have pad_len: "length ?pad = 16" using E_len by (simp add: ocb2_pad_def)
  have size: "be_bytes 16 (8 * ?r) = replicate 15 0 @ [of_nat (8 * ?r)]"
  proof (rule be_val_inj)
    have "unat (of_nat (8 * ?r) :: byte) = 8 * ?r" by (rule unat_of_nat_byte) linarith
    then show "be_val (be_bytes 16 (8 * ?r)) = be_val (replicate 15 0 @ [of_nat (8 * ?r)])"
      by (simp add: be_val_be_bytes be_val_append)
  qed simp
  have pad: "E k (xor_string (be_bytes 16 (8 * length (msg_rest m))) ?d) = ?pad"
    by (simp add: size ocb2_pad_def xor_block_string)
  have rest: "xor_string (msg_rest m) (take ?r ?pad) = map2 (XOR) (msg_rest m) ?pad"
    by (rule nth_equalityI) (simp_all add: xor_string_def pad_len)
  have sum: "xor_string (map2 (XOR) (msg_rest m) ?pad @ replicate (16 - ?r) 0) ?pad = msg_rest m @ drop ?r ?pad"
    by (rule nth_equalityI) (auto simp: xor_string_def pad_len nth_append xor.assoc)
  show ?thesis
    using pad rest sum pad_len
    by (simp add: ocb2_blocks.simps Let_def ocb2_tag_def ocb2_tag_with_def triple_string xor_block_string xor_string_commute)
qed

text \<open>The blocks of the reference before the last one, from block \<open>i\<close> to block \<open>j\<close>.\<close>

lemma ocb2_leading_blocks:
  assumes E_len: "\<And>b. length b = 16 \<Longrightarrow> length (E k b) = 16" and iv: "length iv = 16" and "i \<le> j" and "j * 16 < length m"
  shows "ocb2_blocks (E k) (drop (i * 16) m) (ocb2_offset E k iv i) (blocks_sum m i) =
    (let (cs, tag) = ocb2_blocks (E k) (drop (j * 16) m) (ocb2_offset E k iv j) (blocks_sum m j)
     in (concat (map (masked (E k) (ocb2_offset E k iv) m) [i..<j]) @ cs, tag))"
  using assms(3)
proof (induction i rule: inc_induct)
  case base
  then show ?case by (simp add: split_beta)
next
  case (step i)
  have "Suc i * 16 \<le> j * 16" using step.hyps(2) by (intro mult_le_mono1) simp
  then have long: "\<not> length (drop (i * 16) m) \<le> 16" and block: "length (msg_block m i) = 16"
    using assms(4) by (simp_all add: msg_block_def)
  have next_block: "drop 16 (drop (i * 16) m) = drop (Suc i * 16) m" by (simp add: add.commute)
  have "[i..<j] = i # [Suc i..<j]" using step.hyps(2) by (simp add: upt_conv_Cons)
  moreover have "ocb2_blocks (E k) (drop (i * 16) m) (ocb2_offset E k iv i) (blocks_sum m i) =
    (masked (E k) (ocb2_offset E k iv) m i @ fst (ocb2_blocks (E k) (drop (Suc i * 16) m) (ocb2_offset E k iv (Suc i)) (blocks_sum m (Suc i))),
     snd (ocb2_blocks (E k) (drop (Suc i * 16) m) (ocb2_offset E k iv (Suc i)) (blocks_sum m (Suc i))))"
    unfolding ocb2_blocks.simps [of "E k" "drop (i * 16) m"] next_block
    using long block E_len
    by (simp add: Let_def split_beta msg_block_def [symmetric] rfc_double_block ocb2_offset_Suc blocks_sum_Suc xor_block_string
        xor_string_commute)
  ultimately show ?case using step.IH by (simp add: split_beta Let_def)
qed

lemma ocb2_offset_string:
  assumes "length (E k iv) = 16"
  shows "ocb2_offset E k iv i = (rfc_double ^^ Suc i) (E k iv)"
proof (induction i)
  case 0
  then show ?case using assms by (simp add: ocb2_offset_def rfc_double_block)
next
  case (Suc i)
  then show ?case by (simp add: ocb2_offset_Suc flip: rfc_double_block)
qed

lemma ocb2_reference_blocks:
  assumes "length (E k iv) = 16"
  shows "ocb2_reference (E k) iv m = ocb2_blocks (E k) (drop (0 * 16) m) (ocb2_offset E k iv 0) (blocks_sum m 0)"
  using ocb2_offset_string [of E k iv 0] assms by (simp add: ocb2_reference_def blocks_sum_def zero_block_def)

text \<open>The code computes the reference unless the last block is full.\<close>

lemma ocb2_code_reference:
  assumes E_len: "\<And>b. length b = 16 \<Longrightarrow> length (E k b) = 16" and iv: "length iv = 16" and rest: "m = [] \<or> length m mod 16 \<noteq> 0"
  shows "ocb2_reference (E k) iv m = (ocb2_cipher E k iv m, ocb2_tag E k iv m)"
proof -
  have L: "length (E k iv) = 16" using E_len iv .
  have last: "drop (length m div 16 * 16) m = msg_rest m" by (simp add: msg_rest_def)
  show ?thesis
  proof (cases "m = []")
    case True
    then show ?thesis using ocb2_last_block [of E k m iv] E_len ocb2_reference_blocks [of E k iv m, OF L] by (simp add: msg_rest_def ocb2_cipher_def)
  next
    case False
    have "length m div 16 * 16 < length m" using rest False div_mult_mod_eq [of "length m" 16] by linarith
    from ocb2_leading_blocks [of E k iv 0, OF E_len iv _ this] show ?thesis
      using ocb2_last_block [of E k m iv] E_len unfolding ocb2_reference_blocks [of E k iv m, OF L] last by (simp add: ocb2_cipher_def)
  qed
qed

text \<open>When the last block is full, the code masks it like the others, and takes an empty block to be the last.\<close>

lemma ocb2_code_whole:
  assumes E_len: "\<And>b. length b = 16 \<Longrightarrow> length (E k b) = 16" and iv: "length iv = 16" and whole: "m \<noteq> []" "length m mod 16 = 0"
  defines "n \<equiv> length m - 16" and "delta \<equiv> ocb2_offset E k iv (length m div 16 - 1)"
  shows "take n (ocb2_cipher E k iv m) = take n (fst (ocb2_reference (E k) iv m))"
    and "drop n (ocb2_cipher E k iv m) = xor_string delta (E k (xor_string delta (drop n m)))"
    and "drop n (fst (ocb2_reference (E k) iv m)) = xor_string (drop n m) (E k (xor_string (be_bytes 16 128) delta))"
proof -
  define j where "j = length m div 16 - 1"
  have len: "length m = Suc j * 16" using whole by (cases "length m div 16") (auto simp: j_def)
  have n: "n = j * 16" "length m div 16 = Suc j" by (simp_all add: n_def len)
  have L: "length (E k iv) = 16" using E_len iv .
  have block: "length (masked (E k) (ocb2_offset E k iv) m i) = 16" for i by simp
  let ?lead = "concat (map (masked (E k) (ocb2_offset E k iv) m) [0..<j])"
  have lead: "length ?lead = n" unfolding n(1) by (rule concat_blocks_length) (rule block)
  have last: "msg_block m j = drop n m" "length (drop n m) = 16" by (simp_all add: msg_block_def n len)
  have code: "ocb2_cipher E k iv m = ?lead @ masked (E k) (ocb2_offset E k iv) m j"
    by (simp add: ocb2_cipher_def n(2) msg_rest_def len)
  have delta: "delta = ocb2_offset E k iv j" by (simp add: delta_def n)
  have "j * 16 < length m" by (simp add: len)
  from ocb2_leading_blocks [of E k iv 0, OF E_len iv _ this]
  have ref: "fst (ocb2_reference (E k) iv m) = ?lead @ fst (ocb2_blocks (E k) (drop n m) delta (blocks_sum m j))"
    unfolding ocb2_reference_blocks [of E k iv m, OF L] by (simp add: split_beta n delta)
  show "take n (ocb2_cipher E k iv m) = take n (fst (ocb2_reference (E k) iv m))"
    by (simp add: code ref lead)
  show "drop n (ocb2_cipher E k iv m) = xor_string delta (E k (xor_string delta (drop n m)))"
  proof -
    have "drop n (ocb2_cipher E k iv m) = masked (E k) (ocb2_offset E k iv) m j" unfolding code using lead by simp
    then show ?thesis using last E_len by (simp add: delta xor_block_string xor_string_commute)
  qed
  show "drop n (fst (ocb2_reference (E k) iv m)) = xor_string (drop n m) (E k (xor_string (be_bytes 16 128) delta))"
    using last(2) E_len by (simp add: ref lead ocb2_blocks.simps Let_def delta)
qed

section \<open>Property\<close>

text \<open>
  C5: The encryption routine computes OCB2 of every message that is empty or does not end with a full block: for any message
  with room for it in \<open>out\<close> it returns without a fault, \<open>out\<close> starts with the ciphertext and is unchanged behind it, and ciphertext
  and tag are those of OCB2. Of a non-empty message of whole blocks it computes something else: its last block is masked, where OCB2
  takes it through the pad, and the tag is that of a message with one more, empty block.
\<close>

theorem ocb2_aes_encrypt_spec:
  assumes "\<And>b. length b = 16 \<Longrightarrow> length (E (key ctx) b) = 16" and "length (enc_iv ctx) = 16" and "length m \<le> length out"
  shows "\<exists>c tag. ocb2_aes_encrypt E ctx m (int (length m)) out = Inr (c @ drop (length m) out, tag) \<and> length c = length m
    \<and> (let e = E (key ctx); (c0, tag0) = ocb2_reference e (enc_iv ctx) m; n = length m - 16;
          delta = (rfc_double ^^ (length m div 16)) (e (enc_iv ctx));
          checksum = foldl xor_string (replicate 16 0) (map (\<lambda>i. take 16 (drop (i * 16) m)) [0..<length m div 16])
       in if m = [] \<or> length m mod 16 \<noteq> 0 then c = c0 \<and> tag = tag0
          else take n c = take n c0
            \<and> drop n c = xor_string delta (e (xor_string delta (drop n m)))
            \<and> drop n c0 = xor_string (drop n m) (e (xor_string (be_bytes 16 128) delta))
            \<and> tag = snd (ocb2_blocks e [] (rfc_double delta) checksum))"
proof -
  let ?k = "key ctx" and ?iv = "enc_iv ctx"
  have len: "length (ocb2_cipher E ?k ?iv m) = length m" by (rule ocb2_cipher_length) (rule assms(1))
  note code = ocb2_code_reference [of E ?k, OF assms(1,2)] and whole = ocb2_code_whole [of E ?k, OF assms(1,2)]
  have L: "length (E ?k ?iv) = 16" using assms(1,2) .
  have sums: "foldl xor_string (replicate 16 0) (map (msg_block m) [0..<j]) = blocks_sum m j" if "j \<le> length m div 16" for j
    using that
  proof (induction j)
    case (Suc j)
    then show ?case by (simp add: blocks_sum_Suc xor_block_string msg_block_length)
  qed (simp add: blocks_sum_def zero_block_def)
  have tag: "ocb2_tag E ?k ?iv m = snd (ocb2_blocks (E ?k) [] (rfc_double ((rfc_double ^^ (length m div 16)) (E ?k ?iv)))
      (blocks_sum m (length m div 16)))" if "length m mod 16 = 0"
  proof -
    have "msg_rest m = []" using that by (simp flip: length_0_conv)
    then show ?thesis using ocb2_last_block [of E ?k m ?iv] assms(1) ocb2_offset_string [of E ?k ?iv "length m div 16"] L by simp
  qed
  have delta: "ocb2_offset E ?k ?iv (length m div 16 - 1) = (rfc_double ^^ (length m div 16)) (E ?k ?iv)"
    if "m \<noteq> []" "length m mod 16 = 0"
    using ocb2_offset_string [of E ?k ?iv "length m div 16 - 1"] L that by (cases "length m div 16") auto
  show ?thesis
  proof (intro exI conjI)
    show "ocb2_aes_encrypt E ctx m (int (length m)) out = Inr (ocb2_cipher E ?k ?iv m @ drop (length m) out, ocb2_tag E ?k ?iv m)"
      using assms(1,3) by (rule ocb2_encrypt_exact)
  next
    show "let e = E ?k; (c0, tag0) = ocb2_reference e ?iv m; n = length m - 16; delta = (rfc_double ^^ (length m div 16)) (e ?iv);
          checksum = foldl xor_string (replicate 16 0) (map (\<lambda>i. take 16 (drop (i * 16) m)) [0..<length m div 16])
       in if m = [] \<or> length m mod 16 \<noteq> 0 then ocb2_cipher E ?k ?iv m = c0 \<and> ocb2_tag E ?k ?iv m = tag0
          else take n (ocb2_cipher E ?k ?iv m) = take n c0
            \<and> drop n (ocb2_cipher E ?k ?iv m) = xor_string delta (e (xor_string delta (drop n m)))
            \<and> drop n c0 = xor_string (drop n m) (e (xor_string (be_bytes 16 128) delta))
            \<and> ocb2_tag E ?k ?iv m = snd (ocb2_blocks e [] (rfc_double delta) checksum)"
      using code [of m] whole [of m] tag delta sums [of "length m div 16"]
      by (simp add: Let_def split_beta msg_block_def [abs_def])
  qed (rule len)
qed

theorem ocb2_aes_encrypt_spec_witness:
  "\<exists>c tag. ocb2_aes_encrypt example_cipher example_ocb [1, 2, 3] 3 (replicate 20 0) = Inr (c @ replicate 17 0, tag)
    \<and> (c, tag) = ocb2_reference (example_cipher zero_block) zero_block [1, 2, 3]"
  using ocb2_aes_encrypt_spec [of example_cipher example_ocb "[1, 2, 3]" "replicate 20 0"]
  by (auto simp: example_cipher_def Let_def split_beta zero_block_def)

text \<open>So the two differ: 16 zero bytes.\<close>

lemma ocb2_whole_block_differs:
  "(ocb2_cipher example_cipher zero_block zero_block (replicate 16 0), ocb2_tag example_cipher zero_block zero_block (replicate 16 0))
    \<noteq> ocb2_reference (example_cipher zero_block) zero_block (replicate 16 0)"
proof
  let ?m = "replicate 16 0 :: bytes" and ?e = "example_cipher zero_block"
  assume "(ocb2_cipher example_cipher zero_block zero_block ?m, ocb2_tag example_cipher zero_block zero_block ?m)
    = ocb2_reference ?e zero_block ?m"
  then have eq: "ocb2_cipher example_cipher zero_block zero_block ?m = fst (ocb2_reference ?e zero_block ?m)" by (metis fst_conv)
  have delta: "ocb2_offset example_cipher zero_block zero_block 0 = replicate 16 14" by code_simp
  have "length b = 16 \<Longrightarrow> length (example_cipher zero_block b) = 16" for b by (simp add: example_cipher_def)
  from ocb2_code_whole(2,3) [of example_cipher zero_block zero_block ?m, OF this]
  have "xor_string (replicate 16 14) (?e (xor_string (replicate 16 14) ?m)) = xor_string ?m (?e (xor_string (be_bytes 16 128) (replicate 16 14)))"
    by (simp add: delta eq)
  then have "xor_string (replicate 16 14) (?e (xor_string (replicate 16 14) ?m)) ! 0
    = xor_string ?m (?e (xor_string (be_bytes 16 128) (replicate 16 14))) ! 0" by simp
  moreover have "be_bytes 16 128 = replicate 15 0 @ [128]"
    by (rule be_val_inj) (simp_all add: be_val_be_bytes be_val_append)
  ultimately show False by (simp add: xor_string_def example_cipher_def nth_append)
qed

end
