(* ===== verification/Udp_Ssl.thy ===== *)
theory Udp_Ssl
  imports Ocb2 Buffer_Pool
begin

text \<open>
  The encrypted datagram transport of \<^verbatim>\<open>lib/mumble/uv_udp_ssl.c\<close>: the nonce counters, the packet
  layout (one byte of the nonce, three bytes of the tag, the ciphertext), the buffers it borrows from
  its pool while libuv reads or sends, and the callback that receives the plaintext.

  libuv is not modelled: what \<open>uv_udp_try_send\<close> returns is a parameter, and the calls libuv makes of
  \<open>alloc_cb\<close> and \<open>recv_cb\<close> for one datagram are the definition \<open>udp_receive\<close>. The contents of the
  pool's buffers are the field \<open>u_mem\<close>.
\<close>

record udp_ssl =
  u_cipher :: ocb_aes
  u_has_cb :: bool
  u_pool :: buffer_pool
  u_mem :: "addr \<Rightarrow> bytes"

section \<open>The code\<close>

text \<open>The loop of \<open>increment_iv\<close> with \<open>n\<close> rounds left, at byte \<open>i\<close>.\<close>

fun increment_from :: "nat \<Rightarrow> nat \<Rightarrow> bytes \<Rightarrow> bytes res" where
  "increment_from 0 i iv = Inr iv"
| "increment_from (Suc n) i iv =
     (if i < length iv then
        let iv' = iv[i := iv ! i + 1]
        in if iv' ! i \<noteq> 0 then Inr iv' else increment_from n (Suc i) iv'
      else Inl Out_of_bounds)"

definition increment_iv :: "bytes \<Rightarrow> nat \<Rightarrow> bytes res" where
  "increment_iv iv len = increment_from len 0 iv"

text \<open>
  \<open>buf\<close> is the whole buffer of the pool, \<open>len\<close> the number of bytes received. The result is the data
  handed to the callback, when there is one. The length \<open>len - 4\<close> is a \<open>size_t\<close> that \<open>ocb2_aes_decrypt\<close>
  takes as an \<open>int\<close>.
\<close>

definition uv_udp_ssl_decrypt ::
    "block_cipher \<Rightarrow> block_cipher \<Rightarrow> udp_ssl \<Rightarrow> bytes \<Rightarrow> nat \<Rightarrow> (udp_ssl \<times> bytes option) res" where
  "uv_udp_ssl_decrypt E D conn buf len =
     rbind (increment_iv (dec_iv (u_cipher conn)) (unat (ivlen (u_cipher conn)))) (\<lambda>iv'.
     let cipher = (u_cipher conn)\<lparr>dec_iv := iv'\<rparr> in
     rbind (peek buf 0 4) (\<lambda>iv_and_tag.
     rbind (ocb2_aes_decrypt E D cipher (drop 4 buf) (sint (word_of_int (int len - 4) :: i32))
         (replicate 10240 0)) (\<lambda>(out, intag).
     let conn' = conn\<lparr>u_cipher := cipher\<rparr> in
     if u_has_cb conn
     then rbind (peek out 0 (unat (word_of_int (int len - 4) :: u64))) (\<lambda>data. Inr (conn', Some data))
     else Inr (conn', None))))"

text \<open>
  The C function calls the user before it releases the buffer. Here the data is part of the result: what the user does
  with it comes after the release, which makes no difference, for the user does not touch the pool.
\<close>

definition udp_recv_cb ::
    "block_cipher \<Rightarrow> block_cipher \<Rightarrow> udp_ssl \<Rightarrow> int \<Rightarrow> addr \<Rightarrow> (udp_ssl \<times> bytes option) res" where
  "udp_recv_cb E D conn nread base =
     rbind (if 0 < nread then uv_udp_ssl_decrypt E D conn (u_mem conn base) (nat nread)
            else Inr (conn, None)) (\<lambda>(conn', data).
     rbind (buffer_pool_release (u_pool conn') base) (\<lambda>pool'.
     Inr (conn'\<lparr>u_pool := pool'\<rparr>, data)))"

definition udp_alloc_cb :: "udp_ssl \<Rightarrow> (addr \<times> nat \<times> udp_ssl) res" where
  "udp_alloc_cb conn =
     (case buffer_pool_acquire (u_pool conn) of
        (None, pool') \<Rightarrow> Inl Aborted
      | (Some base, pool') \<Rightarrow> Inr (base, p_size pool', conn\<lparr>u_pool := pool'\<rparr>))"

definition uv_udp_ssl_init :: "bool \<Rightarrow> (nat \<Rightarrow> addr option) \<Rightarrow> (addr \<Rightarrow> bytes) \<Rightarrow> udp_ssl res" where
  "uv_udp_ssl_init array_ok m mem =
     rbind (buffer_pool_init 2 1024 array_ok m) (\<lambda>pool.
     Inr \<lparr>u_cipher = \<lparr>key = zero_block, enc_iv = zero_block, dec_iv = zero_block, ivlen = 0, taglen = 0\<rparr>,
          u_has_cb = False, u_pool = pool, u_mem = mem\<rparr>)"

definition uv_udp_ssl_set_cb :: "udp_ssl \<Rightarrow> bool \<Rightarrow> udp_ssl" where
  "uv_udp_ssl_set_cb conn cb = conn\<lparr>u_has_cb := cb\<rparr>"

definition uv_udp_ssl_set_encryption :: "udp_ssl \<Rightarrow> bytes \<Rightarrow> bytes \<Rightarrow> bytes \<Rightarrow> nat \<Rightarrow> udp_ssl res" where
  "uv_udp_ssl_set_encryption conn k e_iv d_iv n =
     rbind (ocb_aes_set_keys (u_cipher conn) k e_iv d_iv (sint (of_nat n :: i32))) (\<lambda>cipher.
     Inr (conn\<lparr>u_cipher := cipher\<rparr>))"

definition encrypt_ocb ::
    "block_cipher \<Rightarrow> udp_ssl \<Rightarrow> bytes \<Rightarrow> bytes \<Rightarrow> nat \<Rightarrow> (udp_ssl \<times> bytes \<times> bytes \<times> nat) res" where
  "encrypt_ocb E conn source dest len =
     rbind (increment_iv (enc_iv (u_cipher conn)) (unat (ivlen (u_cipher conn)))) (\<lambda>iv'.
     let cipher = (u_cipher conn)\<lparr>enc_iv := iv'\<rparr> in
     rbind (ocb2_aes_encrypt E cipher source (sint (of_nat len :: i32)) dest) (\<lambda>(dest', tag).
     Inr (conn\<lparr>u_cipher := cipher\<rparr>, dest', tag, len)))"

text \<open>The result is the new state and the datagram handed to \<open>uv_udp_try_send\<close>.\<close>

definition uv_udp_ssl_write ::
    "block_cipher \<Rightarrow> (bytes \<Rightarrow> int) \<Rightarrow> udp_ssl \<Rightarrow> bytes \<Rightarrow> nat \<Rightarrow> (udp_ssl \<times> bytes) res" where
  "uv_udp_ssl_write E try_send conn buf len =
     (if 1020 < len then Inl Aborted
      else case buffer_pool_acquire (u_pool conn) of
        (None, pool') \<Rightarrow> Inl Aborted
      | (Some base, pool') \<Rightarrow>
          rbind (encrypt_ocb E (conn\<lparr>u_pool := pool'\<rparr>) buf (drop 4 (u_mem conn base)) len)
            (\<lambda>(conn', dest', tag, out_size).
          let header = [enc_iv (u_cipher conn') ! 0, tag ! 0, tag ! 1, tag ! 2];
              mem' = header @ dest';
              packet = take (out_size + 4) mem'
          in if 0 < try_send packet
             then rbind (buffer_pool_release (u_pool conn') base) (\<lambda>pool''.
                  Inr (conn'\<lparr>u_pool := pool'', u_mem := (u_mem conn')(base := mem')\<rparr>, packet))
             else Inl Assert_failed))"

text \<open>What libuv does with one datagram: ask for a buffer, read the datagram into it, report it.\<close>

definition udp_receive ::
    "block_cipher \<Rightarrow> block_cipher \<Rightarrow> udp_ssl \<Rightarrow> bytes \<Rightarrow> (udp_ssl \<times> bytes option) res" where
  "udp_receive E D conn packet =
     rbind (udp_alloc_cb conn) (\<lambda>(base, size, conn').
     let got = take size packet;
         mem = u_mem conn' base;
         conn'' = conn'\<lparr>u_mem := (u_mem conn')(base := got @ drop (length got) mem)\<rparr>
     in udp_recv_cb E D conn'' (int (length got)) base)"

section \<open>The nonce is a counter\<close>

fun le_val :: "bytes \<Rightarrow> nat" where
  "le_val [] = 0"
| "le_val (b # bs) = unat b + 256 * le_val bs"

lemma le_val_less: "le_val bs < 256 ^ length bs"
proof (induction bs)
  case (Cons b bs)
  then show ?case using unsigned_less [of b, where 'a = nat] by simp
qed simp

text \<open>The carry loop as a recursion on the bytes of the counter.\<close>

fun succ_bytes :: "nat \<Rightarrow> bytes \<Rightarrow> bytes" where
  "succ_bytes 0 bs = bs"
| "succ_bytes (Suc n) [] = []"
| "succ_bytes (Suc n) (b # bs) = (b + 1) # (if b + 1 \<noteq> 0 then bs else succ_bytes n bs)"

lemma succ_bytes_length [simp]: "length (succ_bytes n bs) = length bs"
  by (induction n bs rule: succ_bytes.induct) simp_all

lemma increment_from_append:
  "n \<le> length bs \<Longrightarrow> increment_from n (length as) (as @ bs) = Inr (as @ succ_bytes n bs)"
proof (induction n bs arbitrary: as rule: succ_bytes.induct)
  case (3 n b bs)
  then show ?case
    using "3.IH" [of "as @ [b + 1]"] by (auto simp: Let_def nth_append list_update_append)
qed simp_all

lemma increment_iv_Inr: "n \<le> length iv \<Longrightarrow> increment_iv iv n = Inr (succ_bytes n iv)"
  using increment_from_append [of n iv "[]"] by (simp add: increment_iv_def)

lemma unat_plus_one_byte: "unat ((b :: byte) + 1) = (unat b + 1) mod 256"
  by (simp add: unat_word_ariths)

lemma byte_carry: "(b :: byte) + 1 = 0 \<longleftrightarrow> unat b = 255"
proof -
  have "(b + 1 = 0) \<longleftrightarrow> (unat b + 1) mod 256 = 0"
    by (metis unat_plus_one_byte unsigned_0 unsigned_eq_0_iff)
  also have "\<dots> \<longleftrightarrow> unat b = 255"
    using unsigned_less [of b, where 'a = nat] by (cases "unat b = 255") simp_all
  finally show ?thesis .
qed

lemma succ_bytes_val:
  "n \<le> length bs \<Longrightarrow> le_val (take n (succ_bytes n bs)) = (le_val (take n bs) + 1) mod 256 ^ n"
proof (induction n bs rule: succ_bytes.induct)
  case (3 n b bs)
  show ?case
  proof (cases "b + 1 = 0")
    case True
    have "(unat b + 256 * le_val (take n bs) + 1) = 256 * (le_val (take n bs) + 1)"
      using True byte_carry [of b] by simp
    then show ?thesis using 3 True by (simp add: mult_mod_right)
  next
    case False
    have "unat b + 1 < 256" using False byte_carry [of b] unsigned_less [of b, where 'a = nat] by simp
    then have "unat b + 256 * le_val (take n bs) + 1 < 256 * 256 ^ n"
      using le_val_less [of "take n bs"] "3.prems" by simp
    with False \<open>unat b + 1 < 256\<close> show ?thesis by (simp add: unat_plus_one_byte)
  qed
qed simp_all

lemma sint_of_nat_small: "n < 2147483648 \<Longrightarrow> sint (of_nat n :: i32) = int n"
proof -
  assume n: "n < 2147483648"
  have "sint (of_nat n :: i32) = signed_take_bit 31 (int n)"
    by (simp add: signed_of_nat)
  then show ?thesis using n by (simp add: signed_take_bit_int_eq_self)
qed

section \<open>One datagram\<close>

definition wf_udp :: "udp_ssl \<Rightarrow> bool" where
  "wf_udp c \<longleftrightarrow> wf_ocb (u_cipher c) \<and> unat (ivlen (u_cipher c)) \<le> 16 \<and> wf_pool (u_pool c)
     \<and> p_size (u_pool c) = 1024 \<and> (\<forall>a \<in> set (p_buffers (u_pool c)). length (u_mem c a) = 1024)"

definition pool_room :: "udp_ssl \<Rightarrow> bool" where
  "pool_room c \<longleftrightarrow> card (held (u_pool c)) < p_count (u_pool c)"

definition next_enc :: "ocb_aes \<Rightarrow> ocb_aes" where
  "next_enc c = c\<lparr>enc_iv := succ_bytes (unat (ivlen c)) (enc_iv c)\<rparr>"

definition next_dec :: "ocb_aes \<Rightarrow> ocb_aes" where
  "next_dec c = c\<lparr>dec_iv := succ_bytes (unat (ivlen c)) (dec_iv c)\<rparr>"

text \<open>The bookkeeping of a buffer borrowed for one call.\<close>

lemma borrow:
  assumes "wf_udp c" and "pool_room c"
  obtains base pool' where "buffer_pool_acquire (u_pool c) = (Some base, pool')"
    "length (u_mem c base) = 1024" "p_size pool' = 1024" "base \<in> set (p_buffers (u_pool c))"
    "\<And>c'. u_pool c' = pool' \<Longrightarrow> \<exists>pool''. buffer_pool_release pool' base = Inr pool'' \<and> wf_pool pool''
      \<and> held pool'' = held (u_pool c) \<and> set (p_buffers pool'') = set (p_buffers (u_pool c))
      \<and> p_count pool'' = p_count (u_pool c) \<and> p_size pool'' = 1024"
proof -
  have wf: "wf_pool (u_pool c)" and size: "p_size (u_pool c) = 1024" using assms(1) by (simp_all add: wf_udp_def)
  obtain base pool' where a: "buffer_pool_acquire (u_pool c) = (Some base, pool')"
      and wf': "wf_pool pool'" and new: "base \<notin> held (u_pool c)"
      and held': "held pool' = insert base (held (u_pool c))"
    using pool.acquire_succeeds [OF wf] assms(2) unfolding pool_room_def by metis
  note acq = acquire_Some [OF wf a]
  have "base \<in> held pool'" using held' by simp
  then have "base \<in> set (p_buffers (u_pool c))"
    using acq(4) held_subset [of pool'] by auto
  moreover from this have "length (u_mem c base) = 1024"
    using assms(1) by (simp add: wf_udp_def)
  moreover have "\<exists>pool''. buffer_pool_release pool' base = Inr pool'' \<and> wf_pool pool''
      \<and> held pool'' = held (u_pool c) \<and> set (p_buffers pool'') = set (p_buffers (u_pool c))
      \<and> p_count pool'' = p_count (u_pool c) \<and> p_size pool'' = 1024"
    using release_held [OF wf' \<open>base \<in> held pool'\<close>] held' new acq(4,5,6) size by auto
  ultimately show thesis
    using that [OF a] acq(6) size by auto
qed

lemma write_works:
  assumes wf: "wf_udp c" and room: "pool_room c" and len: "length m \<le> 1020"
    and send: "\<And>p. 0 < try_send p"
    and E_len: "\<And>b. length b = 16 \<Longrightarrow> length (E (key (u_cipher c)) b) = 16"
  obtains c' packet where "uv_udp_ssl_write E try_send c m (length m) = Inr (c', packet)"
    "wf_udp c'" "pool_room c'" "u_cipher c' = next_enc (u_cipher c)" "u_has_cb c' = u_has_cb c"
    "length packet = length m + 4" "packet ! 0 = enc_iv (u_cipher c') ! 0"
    "take 3 (drop 1 packet) = take 3 (ocb2_tag E (key (u_cipher c)) (enc_iv (u_cipher c')) m)"
    "drop 4 packet = ocb2_cipher E (key (u_cipher c)) (enc_iv (u_cipher c')) m"
proof -
  let ?ci = "next_enc (u_cipher c)" and ?k = "key (u_cipher c)"
  obtain base pool' where a: "buffer_pool_acquire (u_pool c) = (Some base, pool')"
    and mem: "length (u_mem c base) = 1024" and base: "base \<in> set (p_buffers (u_pool c))"
    and rel: "\<exists>pool''. buffer_pool_release pool' base = Inr pool'' \<and> wf_pool pool''
      \<and> held pool'' = held (u_pool c) \<and> set (p_buffers pool'') = set (p_buffers (u_pool c))
      \<and> p_count pool'' = p_count (u_pool c) \<and> p_size pool'' = 1024"
    using borrow [OF wf room] by (metis udp_ssl.select_convs(3))
  from rel obtain pool'' where rel: "buffer_pool_release pool' base = Inr pool''"
    and pool'': "wf_pool pool''" "held pool'' = held (u_pool c)" "set (p_buffers pool'') = set (p_buffers (u_pool c))"
      "p_count pool'' = p_count (u_pool c)" "p_size pool'' = 1024" by blast
  have ivs: "wf_ocb (u_cipher c)" "unat (ivlen (u_cipher c)) \<le> length (enc_iv (u_cipher c))"
    using wf by (simp_all add: wf_udp_def wf_ocb_def)
  let ?cipher = "ocb2_cipher E ?k (enc_iv ?ci) m" and ?tag = "ocb2_tag E ?k (enc_iv ?ci) m"
  let ?dest = "?cipher @ drop (length m) (drop 4 (u_mem c base))"
  have enc: "encrypt_ocb E (c\<lparr>u_pool := pool'\<rparr>) m (drop 4 (u_mem c base)) (length m)
      = Inr (c\<lparr>u_pool := pool', u_cipher := ?ci\<rparr>, ?dest, ?tag, length m)"
    using ocb2_encrypt_exact [of E ?ci m "drop 4 (u_mem c base)"] E_len mem len
    by (simp add: encrypt_ocb_def increment_iv_Inr [OF ivs(2)] next_enc_def sint_of_nat_small)
  have clen: "length ?cipher = length m" and tlen: "length ?tag = 16"
    using ocb2_cipher_length [of E ?k] E_len by (simp_all add: ocb2_tag_def ocb2_tag_with_def)
  let ?hd = "[enc_iv ?ci ! 0, ?tag ! 0, ?tag ! 1, ?tag ! 2]"
  let ?c' = "c\<lparr>u_pool := pool'', u_cipher := ?ci, u_mem := (u_mem c)(base := ?hd @ ?dest)\<rparr>"
  have w: "uv_udp_ssl_write E try_send c m (length m) = Inr (?c', ?hd @ ?cipher)"
    using len send clen by (simp add: uv_udp_ssl_write_def a enc rel Let_def)
  have "take 3 ?tag = [?tag ! 0, ?tag ! 1, ?tag ! 2]"
    using tlen by (cases ?tag; cases "tl ?tag"; cases "tl (tl ?tag)") (simp_all add: numeral_3_eq_3 numeral_2_eq_2)
  moreover have "wf_udp ?c'"
    using wf pool'' mem clen len base by (auto simp: wf_udp_def wf_ocb_def next_enc_def)
  moreover have "pool_room ?c'" using room pool'' by (simp add: pool_room_def)
  ultimately show thesis
    using that [OF w] clen by (simp add: numeral_3_eq_3)
qed

lemma receive_works:
  assumes wf: "wf_udp c" and room: "pool_room c" and cb: "u_has_cb c"
    and len: "length header = 4" "length body \<le> 1020"
    and E_len: "\<And>b. length b = 16 \<Longrightarrow> length (E (key (u_cipher c)) b) = 16"
    and D_len: "\<And>b. length b = 16 \<Longrightarrow> length (D (key (u_cipher c)) b) = 16"
  obtains c' where "udp_receive E D c (header @ body)
      = Inr (c', Some (ocb2_plain E D (key (u_cipher c)) (dec_iv (next_dec (u_cipher c))) body))"
    "wf_udp c'" "pool_room c'" "u_cipher c' = next_dec (u_cipher c)" "u_has_cb c'"
proof -
  let ?ci = "next_dec (u_cipher c)" and ?k = "key (u_cipher c)"
  let ?plain = "ocb2_plain E D ?k (dec_iv ?ci) body"
  obtain base pool' where a: "buffer_pool_acquire (u_pool c) = (Some base, pool')" and size: "p_size pool' = 1024"
    and mem: "length (u_mem c base) = 1024" and base: "base \<in> set (p_buffers (u_pool c))"
    and rel: "\<exists>pool''. buffer_pool_release pool' base = Inr pool'' \<and> wf_pool pool''
      \<and> held pool'' = held (u_pool c) \<and> set (p_buffers pool'') = set (p_buffers (u_pool c))
      \<and> p_count pool'' = p_count (u_pool c) \<and> p_size pool'' = 1024"
    using borrow [OF wf room] by (metis udp_ssl.select_convs(3))
  from rel obtain pool'' where rel: "buffer_pool_release pool' base = Inr pool''"
    and pool'': "wf_pool pool''" "held pool'' = held (u_pool c)" "set (p_buffers pool'') = set (p_buffers (u_pool c))"
      "p_count pool'' = p_count (u_pool c)" "p_size pool'' = 1024" by blast
  have ivs: "unat (ivlen (u_cipher c)) \<le> length (dec_iv (u_cipher c))"
    using wf by (simp add: wf_udp_def wf_ocb_def)
  let ?rest = "drop (length body + 4) (u_mem c base)"
  let ?buf = "(header @ body) @ ?rest"
  have plain_len: "length ?plain = length body"
    by (rule ocb2_plain_length) (rule E_len)
  have dec: "ocb2_aes_decrypt E D ?ci (body @ ?rest) (int (length body)) (replicate 10240 0)
      = Inr (?plain @ replicate (10240 - length body) 0, ocb2_tag_with E ?k (dec_iv ?ci) ?plain (msg_rest body))"
    using ocb2_decrypt_computes [of E ?ci body "replicate 10240 0" ?plain D ?rest] E_len len
    by (simp add: next_dec_def)
  have words: "int (length header + length body) - 4 = int (length body)"
    using len by simp
  have "unat (of_nat (length body) :: u64) = length body"
    using len by (simp add: unsigned_of_nat take_bit_nat_eq_self)
  then have decrypt: "uv_udp_ssl_decrypt E D c' ?buf (length header + length body)
      = Inr (c'\<lparr>u_cipher := ?ci\<rparr>, Some ?plain)" if "u_cipher c' = u_cipher c" "u_has_cb c'" for c'
    using that len dec plain_len
    unfolding uv_udp_ssl_decrypt_def words
    by (simp add: increment_iv_Inr [OF ivs] next_dec_def [symmetric] sint_of_nat_small Let_def)
  have pos: "0 < int (length (header @ body))" using len by simp
  let ?c' = "c\<lparr>u_cipher := ?ci, u_pool := pool'', u_mem := (u_mem c)(base := ?buf)\<rparr>"
  have got: "take 1024 (header @ body) = header @ body" using len by simp
  define c1 where "c1 = c\<lparr>u_pool := pool', u_mem := (u_mem c)(base := ?buf)\<rparr>"
  have c1: "u_cipher c1 = u_cipher c" "u_has_cb c1" "u_mem c1 base = ?buf" "u_pool c1 = pool'"
    using cb by (simp_all add: c1_def)
  have "udp_receive E D c (header @ body) = udp_recv_cb E D c1 (int (length header + length body)) base"
    using len size unfolding udp_receive_def udp_alloc_cb_def a
    by (simp add: got c1_def add.commute)
  also have "\<dots> = Inr (c1\<lparr>u_cipher := ?ci, u_pool := pool''\<rparr>, Some ?plain)"
    using pos c1 rel decrypt [OF c1(1,2)] by (simp add: udp_recv_cb_def del: of_nat_add)
  also have "c1\<lparr>u_cipher := ?ci, u_pool := pool''\<rparr> = ?c'"
    by (simp add: c1_def)
  finally have "udp_receive E D c (header @ body) = Inr (?c', Some ?plain)" .
  moreover have "wf_udp ?c'"
    using wf pool'' mem len base by (auto simp: wf_udp_def wf_ocb_def next_dec_def)
  moreover have "pool_room ?c'" using room pool'' by (simp add: pool_room_def)
  ultimately show thesis using that cb by simp
qed

section \<open>Two peers\<close>

text \<open>The sender's encryption nonce is the receiver's decryption nonce, and they share the key.\<close>

definition udp_link :: "udp_ssl \<Rightarrow> udp_ssl \<Rightarrow> bool" where
  "udp_link a b \<longleftrightarrow> key (u_cipher a) = key (u_cipher b) \<and> ivlen (u_cipher a) = ivlen (u_cipher b)
     \<and> enc_iv (u_cipher a) = dec_iv (u_cipher b)"

text \<open>A sends each message in turn, and B receives each datagram before the next one is sent.\<close>

fun udp_exchange :: "block_cipher \<Rightarrow> block_cipher \<Rightarrow> (bytes \<Rightarrow> int) \<Rightarrow> udp_ssl \<Rightarrow> udp_ssl \<Rightarrow> bytes list
    \<Rightarrow> (udp_ssl \<times> udp_ssl \<times> bytes option list) res" where
  "udp_exchange E D try_send a b [] = Inr (a, b, [])"
| "udp_exchange E D try_send a b (m # ms) =
     rbind (uv_udp_ssl_write E try_send a m (length m)) (\<lambda>(a', packet).
     rbind (udp_receive E D b packet) (\<lambda>(b', data).
     rbind (udp_exchange E D try_send a' b' ms) (\<lambda>(a'', b'', ds). Inr (a'', b'', data # ds))))"

lemma exchange_step:
  assumes "wf_udp a" "pool_room a" "wf_udp b" "pool_room b" "u_has_cb b" and len: "length m \<le> 1020"
    and keys: "key (u_cipher a) = key (u_cipher b)"
    and send: "\<And>p. 0 < try_send p"
    and E_len: "\<And>k b. length b = 16 \<Longrightarrow> length (E k b) = 16"
    and D_len: "\<And>k b. length b = 16 \<Longrightarrow> length (D k b) = 16"
  obtains a' b' packet where "uv_udp_ssl_write E try_send a m (length m) = Inr (a', packet)"
    "udp_receive E D b packet = Inr (b', Some (ocb2_plain E D (key (u_cipher b)) (dec_iv (u_cipher b'))
        (ocb2_cipher E (key (u_cipher b)) (enc_iv (u_cipher a')) m)))"
    "wf_udp a'" "pool_room a'" "wf_udp b'" "pool_room b'" "u_has_cb b'"
    "u_cipher a' = next_enc (u_cipher a)" "u_cipher b' = next_dec (u_cipher b)"
proof -
  let ?c = "\<lambda>a'. ocb2_cipher E (key (u_cipher a)) (enc_iv (u_cipher a')) m"
  obtain a' packet where w: "uv_udp_ssl_write E try_send a m (length m) = Inr (a', packet)"
    "wf_udp a'" "pool_room a'" "u_cipher a' = next_enc (u_cipher a)" "u_has_cb a' = u_has_cb a"
    "length packet = length m + 4" "packet ! 0 = enc_iv (u_cipher a') ! 0"
    "take 3 (drop 1 packet) = take 3 (ocb2_tag E (key (u_cipher a)) (enc_iv (u_cipher a')) m)"
    "drop 4 packet = ?c a'"
    by (rule write_works [OF assms(1,2) len send E_len])
  have packet: "take 4 packet @ ?c a' = packet"
    using append_take_drop_id [of 4 packet] by (simp only: w(9))
  have len': "length (take 4 packet) = 4" "length (?c a') \<le> 1020"
    using w(6) len by (simp_all flip: w(9))
  obtain b' where r: "udp_receive E D b (take 4 packet @ ?c a')
      = Inr (b', Some (ocb2_plain E D (key (u_cipher b)) (dec_iv (next_dec (u_cipher b))) (?c a')))"
    "wf_udp b'" "pool_room b'" "u_cipher b' = next_dec (u_cipher b)" "u_has_cb b'"
    by (rule receive_works [OF assms(3,4,5) len' E_len D_len])
  show thesis
  proof (rule that [OF w(1)])
    show "udp_receive E D b packet = Inr (b', Some (ocb2_plain E D (key (u_cipher b)) (dec_iv (u_cipher b'))
        (ocb2_cipher E (key (u_cipher b)) (enc_iv (u_cipher a')) m)))"
      using r(1) packet by (simp add: r(4) keys)
  qed (rule w(2) w(3) w(4) r(2) r(3) r(4) r(5))+
qed

lemma udp_link_next:
  "udp_link a b \<Longrightarrow> u_cipher a' = next_enc (u_cipher a) \<Longrightarrow> u_cipher b' = next_dec (u_cipher b) \<Longrightarrow> udp_link a' b'"
  by (simp add: udp_link_def next_enc_def next_dec_def)

lemma next_key [simp]: "key (next_enc c) = key c" "key (next_dec c) = key c"
  by (simp_all add: next_enc_def next_dec_def)

lemma exchange_delivers:
  assumes send: "\<And>p. 0 < try_send p"
    and E_len: "\<And>k b. length b = 16 \<Longrightarrow> length (E k b) = 16"
    and D_len: "\<And>k b. length b = 16 \<Longrightarrow> length (D k b) = 16"
    and DE: "\<And>k b. length b = 16 \<Longrightarrow> D k (E k b) = b"
  shows "wf_udp a \<Longrightarrow> pool_room a \<Longrightarrow> wf_udp b \<Longrightarrow> pool_room b \<Longrightarrow> u_has_cb b \<Longrightarrow> udp_link a b
    \<Longrightarrow> \<forall>m \<in> set ms. length m \<le> 1020
    \<Longrightarrow> \<exists>a' b'. udp_exchange E D try_send a b ms = Inr (a', b', map Some ms) \<and> udp_link a' b'
      \<and> wf_udp a' \<and> pool_room a' \<and> wf_udp b' \<and> pool_room b'"
proof (induction ms arbitrary: a b)
  case (Cons m ms)
  have keys: "key (u_cipher a) = key (u_cipher b)" and ivs: "enc_iv (u_cipher a) = dec_iv (u_cipher b)"
    using Cons.prems(6) by (simp_all add: udp_link_def)
  have len: "length m \<le> 1020" using Cons.prems(7) by simp
  obtain a' b' packet where s: "uv_udp_ssl_write E try_send a m (length m) = Inr (a', packet)"
    "udp_receive E D b packet = Inr (b', Some (ocb2_plain E D (key (u_cipher b)) (dec_iv (u_cipher b'))
        (ocb2_cipher E (key (u_cipher b)) (enc_iv (u_cipher a')) m)))"
    "wf_udp a'" "pool_room a'" "wf_udp b'" "pool_room b'" "u_has_cb b'"
    "u_cipher a' = next_enc (u_cipher a)" "u_cipher b' = next_dec (u_cipher b)"
    by (rule exchange_step [OF Cons.prems(1-5) len keys send E_len D_len])
  have link: "udp_link a' b'"
    using Cons.prems(6) s(8,9) by (rule udp_link_next)
  then have "ocb2_plain E D (key (u_cipher b)) (dec_iv (u_cipher b'))
      (ocb2_cipher E (key (u_cipher b)) (enc_iv (u_cipher a')) m) = m"
    using ocb2_plain_cipher [of E "key (u_cipher b)" D] E_len DE by (simp add: udp_link_def)
  with Cons.IH [OF s(3,4,5,6,7) link] Cons.prems(7) s(1,2) show ?case by auto
qed simp

section \<open>A lost datagram\<close>

text \<open>The sender's counter is ahead of the receiver's by a constant that is not zero modulo the period.\<close>

definition iv_ahead :: "nat \<Rightarrow> udp_ssl \<Rightarrow> udp_ssl \<Rightarrow> bool" where
  "iv_ahead d a b \<longleftrightarrow> (let n = unat (ivlen (u_cipher b)) in
     ivlen (u_cipher a) = ivlen (u_cipher b) \<and> key (u_cipher a) = key (u_cipher b)
     \<and> le_val (take n (enc_iv (u_cipher a))) = (le_val (take n (dec_iv (u_cipher b))) + d) mod 256 ^ n)"

lemma iv_ahead_next:
  assumes "wf_udp a" and "wf_udp b" and "iv_ahead d a b"
    and "u_cipher a' = next_enc (u_cipher a)" and "u_cipher b' = next_dec (u_cipher b)"
  shows "iv_ahead d a' b'"
proof -
  let ?n = "unat (ivlen (u_cipher b))"
  have len: "?n \<le> length (enc_iv (u_cipher a))" "?n \<le> length (dec_iv (u_cipher b))"
    using assms(1-3) by (simp_all add: wf_udp_def wf_ocb_def)
  have "((x + d) mod p + 1) mod p = ((x + 1) mod p + d) mod p" for x p :: nat
    by (simp add: mod_simps)
  then show ?thesis
    using assms(3-5) succ_bytes_val [OF len(1)] succ_bytes_val [OF len(2)]
    by (simp add: iv_ahead_def Let_def next_enc_def next_dec_def)
qed

lemma link_sent_ahead:
  assumes "wf_udp a" and "udp_link a b" and "u_cipher a' = next_enc (u_cipher a)"
  shows "iv_ahead 1 a' b"
  using assms succ_bytes_val [of "unat (ivlen (u_cipher b))" "enc_iv (u_cipher a)"]
  by (simp add: iv_ahead_def udp_link_def next_enc_def wf_udp_def wf_ocb_def)

lemma iv_ahead_not_equal:
  assumes "iv_ahead 1 a b" and "0 < ivlen (u_cipher b)"
  shows "enc_iv (u_cipher a) \<noteq> dec_iv (u_cipher b)"
proof
  let ?n = "unat (ivlen (u_cipher b))" and ?x = "le_val (take (unat (ivlen (u_cipher b))) (dec_iv (u_cipher b)))"
  assume "enc_iv (u_cipher a) = dec_iv (u_cipher b)"
  then have eq: "?x = (?x + 1) mod 256 ^ ?n"
    using assms(1) by (simp add: iv_ahead_def Let_def)
  have n: "0 < ?n" using assms(2) by (simp add: word_less_nat_alt)
  then have big: "(1::nat) < 256 ^ ?n" by (intro one_less_power) simp_all
  show False
  proof (cases "?x + 1 < 256 ^ ?n")
    case True
    with eq show False by simp
  next
    case False
    have "?x < 256 ^ length (take ?n (dec_iv (u_cipher b)))" by (rule le_val_less)
    also have "\<dots> \<le> 256 ^ ?n" by (simp add: power_increasing)
    finally have "?x + 1 = 256 ^ ?n" using False by simp
    with eq big show False by simp
  qed
qed

lemma exchange_ahead:
  assumes send: "\<And>p. 0 < try_send p"
    and E_len: "\<And>k b. length b = 16 \<Longrightarrow> length (E k b) = 16"
    and D_len: "\<And>k b. length b = 16 \<Longrightarrow> length (D k b) = 16"
  shows "wf_udp a \<Longrightarrow> pool_room a \<Longrightarrow> wf_udp b \<Longrightarrow> pool_room b \<Longrightarrow> u_has_cb b \<Longrightarrow> iv_ahead d a b
    \<Longrightarrow> \<forall>m \<in> set ms. length m \<le> 1020
    \<Longrightarrow> \<exists>a' b' ds. udp_exchange E D try_send a b ms = Inr (a', b', ds) \<and> iv_ahead d a' b'
      \<and> ivlen (u_cipher b') = ivlen (u_cipher b)"
proof (induction ms arbitrary: a b)
  case (Cons m ms)
  have keys: "key (u_cipher a) = key (u_cipher b)"
    using Cons.prems(6) by (simp add: iv_ahead_def Let_def)
  have len: "length m \<le> 1020" using Cons.prems(7) by simp
  obtain a' b' packet where s: "uv_udp_ssl_write E try_send a m (length m) = Inr (a', packet)"
    "udp_receive E D b packet = Inr (b', Some (ocb2_plain E D (key (u_cipher b)) (dec_iv (u_cipher b'))
        (ocb2_cipher E (key (u_cipher b)) (enc_iv (u_cipher a')) m)))"
    "wf_udp a'" "pool_room a'" "wf_udp b'" "pool_room b'" "u_has_cb b'"
    "u_cipher a' = next_enc (u_cipher a)" "u_cipher b' = next_dec (u_cipher b)"
    by (rule exchange_step [OF Cons.prems(1-5) len keys send E_len D_len])
  have "iv_ahead d a' b'"
    by (rule iv_ahead_next [OF Cons.prems(1,3,6) s(8,9)])
  from Cons.IH [OF s(3-7) this] Cons.prems(7) s(1,2,9) show ?case
    by (auto simp: next_dec_def)
qed simp

section \<open>Properties\<close>

lemma succ_bytes_drop: "drop n (succ_bytes n bs) = drop n bs"
  by (induction n bs rule: succ_bytes.induct) (auto simp: drop_Suc)

text \<open>
  \<open>increment_iv\<close> adds one to the nonce read as a little-endian number of \<open>n\<close> bytes, modulo \<open>256 ^ n\<close>, and
  leaves the bytes behind them alone.
\<close>

theorem increment_iv_counter:
  assumes "n \<le> length iv"
  shows "\<exists>iv'. increment_iv iv n = Inr iv' \<and> length iv' = length iv \<and> drop n iv' = drop n iv
    \<and> le_val (take n iv') = (le_val (take n iv) + 1) mod 256 ^ n"
  using increment_iv_Inr [OF assms] succ_bytes_val [OF assms] by (simp add: succ_bytes_drop)

theorem increment_iv_counter_witness:
  "\<exists>iv'. increment_iv [0xFF, 0xFF, 0x02, 0x07] 3 = Inr iv' \<and> drop 3 iv' = [0x07]
    \<and> le_val (take 3 iv') = 0x030000"
  using increment_iv_counter [of 3 "[0xFF, 0xFF, 0x02, 0x07]"] by auto

definition example_udp :: udp_ssl where
  "example_udp = \<lparr>u_cipher = example_ocb, u_has_cb = True,
     u_pool = \<lparr>p_buffers = [0, 1], p_in_use = 0, p_size = 1024, p_count = 2\<rparr>,
     u_mem = (\<lambda>_. replicate 1024 0)\<rparr>"

lemma example_udp_ok:
  "wf_udp example_udp" "pool_room example_udp" "u_has_cb example_udp" "udp_link example_udp example_udp"
  by (simp_all add: example_udp_def wf_udp_def wf_ocb_def wf_pool_def pool_room_def held_def udp_link_def)

lemma example_cipher_ok:
  "length b = 16 \<Longrightarrow> length (example_cipher k b) = 16"
  "length b = 16 \<Longrightarrow> length (example_decipher k b) = 16"
  "length b = 16 \<Longrightarrow> example_decipher k (example_cipher k b) = b"
  by (simp_all add: example_cipher_def example_decipher_def comp_def)

text \<open>
  C6: Between two peers that hold the same key and crosswise nonces, every sequence of messages of at most
  1020 bytes, each received before the next is sent, is delivered to the receiver's callback unchanged
  and in order; the nonces stay crosswise, and both pools get their buffers back.
\<close>

theorem udp_exchange_delivers:
  assumes "wf_udp a" and "pool_room a" and "wf_udp b" and "pool_room b" and "u_has_cb b" and "udp_link a b"
    and "\<forall>m \<in> set ms. length m \<le> 1020"
    and "\<And>p. 0 < try_send p"
    and "\<And>k b. length b = 16 \<Longrightarrow> length (E k b) = 16"
    and "\<And>k b. length b = 16 \<Longrightarrow> length (D k b) = 16"
    and "\<And>k b. length b = 16 \<Longrightarrow> D k (E k b) = b"
  shows "\<exists>a' b'. udp_exchange E D try_send a b ms = Inr (a', b', map Some ms) \<and> udp_link a' b'
    \<and> wf_udp a' \<and> pool_room a' \<and> wf_udp b' \<and> pool_room b'"
  by (rule exchange_delivers [OF assms(8-11,1-7)])

theorem udp_exchange_delivers_witness:
  "\<exists>a' b'. udp_exchange example_cipher example_decipher (\<lambda>_. 1) example_udp example_udp
      [[1, 2, 3], [], [4]] = Inr (a', b', [Some [1, 2, 3], Some [], Some [4]]) \<and> udp_link a' b'"
proof -
  let ?ms = "[[1, 2, 3], [], [4]] :: bytes list"
  have "\<exists>a' b'. udp_exchange example_cipher example_decipher (\<lambda>_. 1) example_udp example_udp ?ms
      = Inr (a', b', map Some ?ms) \<and> udp_link a' b'
    \<and> wf_udp a' \<and> pool_room a' \<and> wf_udp b' \<and> pool_room b'"
    by (rule udp_exchange_delivers [OF example_udp_ok(1,2,1,2,3,4)]) (simp_all add: example_cipher_ok)
  then show ?thesis by (simp only: list.map) blast
qed

text \<open>
  C32: Once one datagram is lost, the peers never find each other again: however many messages the sender
  then sends, each of them received, its encryption nonce never equals the receiver's decryption nonce
  again. The nonce byte in the packet, which could resynchronise them, is not looked at.
\<close>

theorem udp_loss_desynchronises:
  assumes "wf_udp a" and "pool_room a" and "wf_udp b" and "pool_room b" and "u_has_cb b" and "udp_link a b"
    and "0 < ivlen (u_cipher b)"
    and "length lost \<le> 1020" and "\<forall>m \<in> set ms. length m \<le> 1020"
    and "\<And>p. 0 < try_send p"
    and "\<And>k b. length b = 16 \<Longrightarrow> length (E k b) = 16"
    and "\<And>k b. length b = 16 \<Longrightarrow> length (D k b) = 16"
  shows "\<exists>a1 p a' b' ds. uv_udp_ssl_write E try_send a lost (length lost) = Inr (a1, p)
    \<and> udp_exchange E D try_send a1 b ms = Inr (a', b', ds)
    \<and> enc_iv (u_cipher a') \<noteq> dec_iv (u_cipher b')"
proof -
  obtain a1 p where w: "uv_udp_ssl_write E try_send a lost (length lost) = Inr (a1, p)"
    "wf_udp a1" "pool_room a1" "u_cipher a1 = next_enc (u_cipher a)" "u_has_cb a1 = u_has_cb a"
    "length p = length lost + 4" "p ! 0 = enc_iv (u_cipher a1) ! 0"
    "take 3 (drop 1 p) = take 3 (ocb2_tag E (key (u_cipher a)) (enc_iv (u_cipher a1)) lost)"
    "drop 4 p = ocb2_cipher E (key (u_cipher a)) (enc_iv (u_cipher a1)) lost"
    by (rule write_works [OF assms(1,2,8,10,11)])
  have "iv_ahead 1 a1 b" by (rule link_sent_ahead [OF assms(1,6) w(4)])
  from exchange_ahead [where E = E and D = D and try_send = try_send, OF assms(10-12) w(2,3) assms(3-5) this assms(9)]
  obtain a' b' ds where e: "udp_exchange E D try_send a1 b ms = Inr (a', b', ds)" "iv_ahead 1 a' b'"
    "ivlen (u_cipher b') = ivlen (u_cipher b)" by blast
  have "enc_iv (u_cipher a') \<noteq> dec_iv (u_cipher b')"
    using iv_ahead_not_equal [OF e(2)] assms(7) by (simp add: e(3))
  with w(1) e(1) show ?thesis by blast
qed

theorem udp_loss_desynchronises_witness:
  "\<exists>a1 p a' b' ds. uv_udp_ssl_write example_cipher (\<lambda>_. 1) example_udp [9, 9] 2 = Inr (a1, p)
    \<and> udp_exchange example_cipher example_decipher (\<lambda>_. 1) a1 example_udp [[1, 2, 3], [4]] = Inr (a', b', ds)
    \<and> enc_iv (u_cipher a') \<noteq> dec_iv (u_cipher b')"
proof -
  have "0 < ivlen (u_cipher example_udp)" by (simp add: example_udp_def)
  then have "\<exists>a1 p a' b' ds. uv_udp_ssl_write example_cipher (\<lambda>_. 1) example_udp [9, 9] (length [9, 9 :: byte]) = Inr (a1, p)
    \<and> udp_exchange example_cipher example_decipher (\<lambda>_. 1) a1 example_udp [[1, 2, 3], [4]] = Inr (a', b', ds)
    \<and> enc_iv (u_cipher a') \<noteq> dec_iv (u_cipher b')"
    by (rule udp_loss_desynchronises [OF example_udp_ok(1,2,1,2,3,4)]) (simp_all add: example_cipher_ok)
  moreover have "length [9, 9 :: byte] = 2" by simp
  ultimately show ?thesis by (simp only:)
qed

text \<open>
  C33: Nothing of a datagram is authenticated: whatever the four bytes of nonce and tag in front of it are,
  any body of at most 1020 bytes is deciphered and handed to the callback, the same data for every
  header, and moves the nonce on.
\<close>

theorem udp_accepts_any_header:
  assumes "wf_udp c" and "pool_room c" and "u_has_cb c" and "length body \<le> 1020"
    and "\<And>k b. length b = 16 \<Longrightarrow> length (E k b) = 16"
    and "\<And>k b. length b = 16 \<Longrightarrow> length (D k b) = 16"
  shows "\<exists>data. length data = length body \<and> (\<forall>header. length header = 4 \<longrightarrow>
    (\<exists>c'. udp_receive E D c (header @ body) = Inr (c', Some data) \<and> u_cipher c' = next_dec (u_cipher c)))"
proof -
  let ?p = "ocb2_plain E D (key (u_cipher c)) (dec_iv (next_dec (u_cipher c))) body"
  have "length ?p = length body"
    by (rule ocb2_plain_length) (rule assms(5))
  moreover have "\<exists>c'. udp_receive E D c (header @ body) = Inr (c', Some ?p) \<and> u_cipher c' = next_dec (u_cipher c)"
    if len: "length header = 4" for header
    by (rule receive_works [where E = E and D = D, OF assms(1-3) len assms(4-6)]) blast+
  ultimately show ?thesis by blast
qed

theorem udp_accepts_any_header_witness:
  "\<exists>data. length data = length [5::byte, 6] \<and> (\<forall>header. length header = 4 \<longrightarrow>
    (\<exists>c'. udp_receive example_cipher example_decipher example_udp (header @ [5, 6]) = Inr (c', Some data)
      \<and> u_cipher c' = next_dec (u_cipher example_udp)))"
  by (rule udp_accepts_any_header [OF example_udp_ok(1-3)]) (simp_all add: example_cipher_ok)

lemma short_decrypt_faults:
  assumes "0 < l" and "l < 4" and "\<And>k b. length b = 16 \<Longrightarrow> length (E k b) = 16"
  shows "ocb2_aes_decrypt E D ctx inp (sint (word_of_int (int l - 4) :: i32)) out = Inl Out_of_bounds"
proof -
  from assms have "l = 1 \<or> l = 2 \<or> l = 3" by arith
  then have s: "sint (word_of_int (int l - 4) :: i32) = int l - 4"
    and n: "nat ((int l - 4) div 16) = 0"
    and r: "16 < unat (word_of_int (int l - 4) :: byte)"
    by (auto simp: unsigned_minus_1_eq_mask mask_eq_exp_minus_1)
  have "length (E (key ctx) (xor_block x (double_block y))) = 16" for x y
    using assms(3) by simp
  then have x: "xor_block_ex inp (E (key ctx) (xor_block x (double_block y))) (unat (word_of_int (int l - 4) :: byte))
      = Inl Out_of_bounds" for x y
    using r by (simp add: xor_block_ex_def)
  show ?thesis
    unfolding ocb2_aes_decrypt_def s Let_def n
    by (simp add: ocb2_encrypt_block_final_def x Let_def del: of_int_diff)
qed

text \<open>
  C36: A datagram of one, two or three bytes makes the receiver access memory outside its buffers: the length
  of the ciphertext, four less, is negative and is taken modulo 256 as the length of the last block.
\<close>

theorem udp_short_datagram_faults:
  assumes "wf_udp c" and "pool_room c" and "0 < length p" and "length p < 4"
    and "\<And>k b. length b = 16 \<Longrightarrow> length (E k b) = 16"
  shows "udp_receive E D c p = Inl Out_of_bounds"
proof -
  obtain base pool' where a: "buffer_pool_acquire (u_pool c) = (Some base, pool')" and size: "p_size pool' = 1024"
    and mem: "length (u_mem c base) = 1024" and base: "base \<in> set (p_buffers (u_pool c))"
    using borrow [OF assms(1,2)] by metis
  have ivs: "unat (ivlen (u_cipher c)) \<le> length (dec_iv (u_cipher c))"
    using assms(1) by (simp add: wf_udp_def wf_ocb_def)
  let ?buf = "p @ drop (length p) (u_mem c base)"
  have "uv_udp_ssl_decrypt E D c' ?buf (length p) = Inl Out_of_bounds"
    if "u_cipher c' = u_cipher c" for c'
    using that assms mem
    by (simp add: uv_udp_ssl_decrypt_def increment_iv_Inr [OF ivs] short_decrypt_faults Let_def del: of_int_diff)
  then show ?thesis
    using assms size by (simp add: udp_receive_def udp_alloc_cb_def a udp_recv_cb_def Let_def)
qed

theorem udp_short_datagram_faults_witness:
  "udp_receive example_cipher example_decipher example_udp [1, 2] = Inl Out_of_bounds"
  by (rule udp_short_datagram_faults [OF example_udp_ok(1,2)]) (simp_all add: example_cipher_ok)

end
