(* ===== verification/Udp_Ping.thy ===== *)
theory Udp_Ping
  imports Udp_Ssl Varint
begin

text \<open>
  The state machine of \<^verbatim>\<open>lib/mumble/udp_ping.c\<close> that finds out whether the UDP channel works: a ping
  goes out every period, and a reply that does not come within the timeout takes the channel down.

  A libuv timer is the time at which it is due, when it is armed. The clock of the event loop, in
  milliseconds, and what the two calls of \<open>time(NULL)\<close> return are arguments. \<open>pg_addressed\<close> tells whether the
  pointer to the peer's address has been set.
\<close>

record udp_ping =
  pg_connected :: bool
  pg_period :: nat
  pg_timeout :: nat
  pg_timestamp :: u64
  pg_waiting :: bool
  pg_buf :: bytes
  pg_period_due :: "nat option"
  pg_reply_due :: "nat option"
  pg_addressed :: bool

section \<open>The code\<close>

definition udp_ping_attempt_init :: "u64 \<Rightarrow> udp_ping \<Rightarrow> udp_ping" where
  "udp_ping_attempt_init t ping = ping\<lparr>pg_timestamp := t, pg_waiting := True\<rparr>"

definition reply_timer_cb :: "udp_ping \<Rightarrow> udp_ping" where
  "reply_timer_cb ping = ping\<lparr>pg_connected := False, pg_waiting := False\<rparr>"

definition period_timer_cb ::
    "block_cipher \<Rightarrow> (bytes \<Rightarrow> int) \<Rightarrow> u64 \<Rightarrow> u64 \<Rightarrow> nat \<Rightarrow> udp_ping \<Rightarrow> udp_ssl
      \<Rightarrow> (udp_ping \<times> udp_ssl \<times> bytes) res" where
  "period_timer_cb E try_send t1 t2 clock ping conn =
     (let ping = udp_ping_attempt_init t1 ping in
      rbind (varint_encode t2 (drop 1 (pg_buf ping)) (8 - 2) 0) (\<lambda>(ret, tail, written).
      if ret \<noteq> 0 then Inl Assert_failed
      else if \<not> written + 1 \<le> 8 then Inl Assert_failed
      else
        let ping = ping\<lparr>pg_buf := take 1 (pg_buf ping) @ tail\<rparr> in
        rbind (uv_udp_ssl_write E try_send conn (take (nat (written + 1)) (pg_buf ping)) (nat (written + 1)))
          (\<lambda>(conn', packet).
        Inr (ping\<lparr>pg_reply_due := Some (clock + pg_timeout ping)\<rparr>, conn', packet))))"

definition mumble_udp_ping_init_ex :: "bool \<Rightarrow> int \<Rightarrow> int \<Rightarrow> udp_ping res" where
  "mumble_udp_ping_init_ex has_socket timeout ping_period =
     (if \<not> 0 < timeout then Inl Assert_failed
      else if \<not> timeout < ping_period then Inl Assert_failed
      else if \<not> has_socket then Inl Assert_failed
      else Inr \<lparr>pg_connected = False, pg_period = nat ping_period, pg_timeout = nat timeout,
             pg_timestamp = 0, pg_waiting = False, pg_buf = (replicate 8 0)[0 := 0x20],
             pg_period_due = None, pg_reply_due = None,
             pg_addressed = False\<rparr>)"

definition mumble_udp_ping_init :: "bool \<Rightarrow> udp_ping res" where
  "mumble_udp_ping_init has_socket = mumble_udp_ping_init_ex has_socket 1000 5000"

definition mumble_udp_ping_address :: "udp_ping \<Rightarrow> udp_ping" where
  "mumble_udp_ping_address ping = ping\<lparr>pg_addressed := True\<rparr>"

definition mumble_udp_ping_recv :: "udp_ping \<Rightarrow> u64 \<Rightarrow> udp_ping" where
  "mumble_udp_ping_recv ping timestamp =
     (if pg_waiting ping then
        if timestamp = pg_timestamp ping
        then ping\<lparr>pg_connected := True, pg_waiting := False, pg_reply_due := None\<rparr>
        else ping
      else ping)"

definition mumble_udp_ping_start :: "nat \<Rightarrow> udp_ping \<Rightarrow> udp_ping" where
  "mumble_udp_ping_start clock ping = ping\<lparr>pg_period_due := Some (clock + 0)\<rparr>"

definition mumble_udp_ping_stop :: "udp_ping \<Rightarrow> udp_ping" where
  "mumble_udp_ping_stop ping = ping\<lparr>pg_period_due := None, pg_reply_due := None, pg_connected := False\<rparr>"

section \<open>The packets\<close>

lemma init_ex_fields:
  assumes "mumble_udp_ping_init_ex s timeout period = Inr p"
  shows "0 < pg_timeout p" and "pg_timeout p < pg_period p" and "pg_buf p = 0x20 # replicate 7 0"
    and "pg_reply_due p = None" and "pg_period_due p = None" and "\<not> pg_connected p"
  using assms by (auto simp: mumble_udp_ping_init_ex_def numeral_eq_Suc split: if_splits)

definition wf_ping :: "udp_ping \<Rightarrow> bool" where
  "wf_ping p \<longleftrightarrow> length (pg_buf p) = 8 \<and> pg_buf p ! 0 = 0x20 \<and> 0 < pg_timeout p \<and> pg_timeout p < pg_period p"

lemma varint_size_6: "varint_encode_size t \<le> 6 \<longleftrightarrow> t < 0x100000000"
  using less_steps(4) [of t] less_steps(3) [of t] less_steps(2) [of t] less_steps(1) [of t]
  by (auto simp: varint_encode_size_def)

lemma ping_encode:
  assumes "wf_ping p"
  shows "varint_encode t (drop 1 (pg_buf p)) (8 - 2) 0 =
    (if t < 0x100000000 then Inr (0, varint_bytes t @ drop (length (varint_bytes t) + 1) (pg_buf p),
       int (length (varint_bytes t)))
     else Inr (1, drop 1 (pg_buf p), 0))"
proof (cases "t < 0x100000000")
  case True
  then have "int (length (varint_bytes t)) \<le> 6"
    using varint_size_6 [of t] by (simp add: varint_encode_size_eq)
  then show ?thesis
    using True assms varint_size_6 [of t]
    by (subst varint_encode_eq) (simp_all add: wf_ping_def)
next
  case False
  then have "\<not> varint_encode_size t \<le> 6" using varint_size_6 by blast
  then show ?thesis using False by (simp add: varint_encode_def)
qed

lemma period_timer_works:
  assumes "wf_ping p" and conn: "wf_udp c" "pool_room c" and t: "t2 < 0x100000000"
    and send: "\<And>q. 0 < try_send q"
    and E_len: "\<And>b. length b = 16 \<Longrightarrow> length (E (key (u_cipher c)) b) = 16"
  obtains p' c' packet where "period_timer_cb E try_send t1 t2 clock p c = Inr (p', c', packet)"
    "uv_udp_ssl_write E try_send c (0x20 # varint_bytes t2) (length (0x20 # varint_bytes t2)) = Inr (c', packet)"
    "wf_udp c'" "pool_room c'" "wf_ping p'" "pg_timestamp p' = t1" "pg_waiting p'"
    "pg_connected p' = pg_connected p" "pg_reply_due p' = Some (clock + pg_timeout p)"
proof -
  let ?m = "0x20 # varint_bytes t2"
  have len: "length (varint_bytes t2) \<le> 6"
    using varint_size_6 [of t2] t by (simp add: varint_encode_size_eq)
  then have "length ?m \<le> 1020" by simp
  then obtain c' packet where w: "uv_udp_ssl_write E try_send c ?m (length ?m) = Inr (c', packet)"
    "wf_udp c'" "pool_room c'" "u_cipher c' = next_enc (u_cipher c)" "u_has_cb c' = u_has_cb c"
    "length packet = length ?m + 4" "packet ! 0 = enc_iv (u_cipher c') ! 0"
    "take 3 (drop 1 packet) = take 3 (ocb2_tag E (key (u_cipher c)) (enc_iv (u_cipher c')) ?m)"
    "drop 4 packet = ocb2_cipher E (key (u_cipher c)) (enc_iv (u_cipher c')) ?m"
    by (rule write_works [where try_send = try_send and E = E and c = c and m = ?m, OF conn _ send E_len])
  let ?q = "udp_ping_attempt_init t1 p"
  let ?buf = "take 1 (pg_buf p) @ varint_bytes t2 @ drop (length (varint_bytes t2) + 1) (pg_buf p)"
  have wfq: "wf_ping ?q" "pg_buf ?q = pg_buf p"
    using assms(1) by (simp_all add: wf_ping_def udp_ping_attempt_init_def)
  have head: "take (Suc 0) (pg_buf p) = [0x20]"
    using assms(1) by (cases "pg_buf p") (simp_all add: wf_ping_def)
  have "period_timer_cb E try_send t1 t2 clock p c
      = Inr (?q\<lparr>pg_buf := ?buf, pg_reply_due := Some (clock + pg_timeout p)\<rparr>, c', packet)"
    using w(1) len t ping_encode [OF wfq(1), of t2]
    by (simp add: period_timer_cb_def Let_def head wfq(2) nat_add_distrib udp_ping_attempt_init_def)
  moreover have "wf_ping (?q\<lparr>pg_buf := ?buf, pg_reply_due := Some (clock + pg_timeout p)\<rparr>)"
    using assms(1) len by (simp add: head wf_ping_def udp_ping_attempt_init_def)
  ultimately show thesis
    using that w(1-3) by (simp add: udp_ping_attempt_init_def)
qed

section \<open>The state machine\<close>

text \<open>
  What happens to a pinger, at a loop clock that is never late: time passes up to the next due timer,
  a due timer fires (the earlier one first; the repeating one is armed again before its callback
  runs), a reply arrives, the pinger is started or stopped.
\<close>

datatype ping_event = Tick | Period_fires bytes | Reply_late | Reply_received u64 | Started | Stopped

type_synonym ping_state = "nat \<times> udp_ping \<times> udp_ssl"

definition not_before :: "nat option \<Rightarrow> nat \<Rightarrow> bool" where
  "not_before due t \<longleftrightarrow> (case due of None \<Rightarrow> True | Some d \<Rightarrow> t \<le> d)"

lemma not_before_simps [simp]: "not_before None t" "not_before (Some d) t \<longleftrightarrow> t \<le> d"
  by (simp_all add: not_before_def)

inductive ping_step :: "block_cipher \<Rightarrow> (bytes \<Rightarrow> int) \<Rightarrow> ping_state \<Rightarrow> ping_event \<Rightarrow> ping_state \<Rightarrow> bool"
    for E try_send where
  tick: "t \<le> t' \<Longrightarrow> not_before (pg_period_due p) t' \<Longrightarrow> not_before (pg_reply_due p) t'
    \<Longrightarrow> ping_step E try_send (t, p, c) Tick (t', p, c)"
| period: "pg_period_due p = Some d \<Longrightarrow> d \<le> t \<Longrightarrow> not_before (pg_reply_due p) d
    \<Longrightarrow> period_timer_cb E try_send t1 t2 t (p\<lparr>pg_period_due := Some (t + pg_period p)\<rparr>) c = Inr (p', c', packet)
    \<Longrightarrow> ping_step E try_send (t, p, c) (Period_fires packet) (t, p', c')"
| reply_late: "pg_reply_due p = Some d \<Longrightarrow> d \<le> t \<Longrightarrow> not_before (pg_period_due p) d
    \<Longrightarrow> ping_step E try_send (t, p, c) Reply_late (t, reply_timer_cb (p\<lparr>pg_reply_due := None\<rparr>), c)"
| received: "ping_step E try_send (t, p, c) (Reply_received ts) (t, mumble_udp_ping_recv p ts, c)"
| started: "ping_step E try_send (t, p, c) Started (t, mumble_udp_ping_start t p, c)"
| stopped: "ping_step E try_send (t, p, c) Stopped (t, mumble_udp_ping_stop p, c)"

inductive_cases ping_stepE: "ping_step E try_send (t, p, c) e s'"

inductive ping_run :: "block_cipher \<Rightarrow> (bytes \<Rightarrow> int) \<Rightarrow> ping_state \<Rightarrow> ping_event list \<Rightarrow> ping_state \<Rightarrow> bool"
    for E try_send where
  nil: "ping_run E try_send s [] s"
| snoc: "ping_run E try_send s es s' \<Longrightarrow> ping_step E try_send s' e s'' \<Longrightarrow> ping_run E try_send s (es @ [e]) s''"

lemma period_timer_cb_fields:
  assumes "period_timer_cb E try_send t1 t2 t p c = Inr (p', c', packet)"
  shows "pg_connected p' = pg_connected p \<and> pg_timeout p' = pg_timeout p \<and> pg_period p' = pg_period p
    \<and> pg_period_due p' = pg_period_due p \<and> pg_reply_due p' = Some (t + pg_timeout p) \<and> pg_waiting p'
    \<and> pg_timestamp p' = t1"
  using assms
  by (auto simp: period_timer_cb_def udp_ping_attempt_init_def Let_def rbind_Inr_iff split: if_splits)

lemmas ping_ops = reply_timer_cb_def mumble_udp_ping_recv_def mumble_udp_ping_start_def mumble_udp_ping_stop_def

text \<open>What holds in every reachable state.\<close>

definition ping_inv :: "ping_state \<Rightarrow> bool" where
  "ping_inv s \<longleftrightarrow> (case s of (t, p, c) \<Rightarrow>
     0 < pg_timeout p \<and> pg_timeout p < pg_period p
     \<and> (pg_reply_due p \<noteq> None \<longrightarrow> pg_waiting p \<and> pg_period_due p \<noteq> None)
     \<and> not_before (pg_reply_due p) t \<and> not_before (pg_period_due p) t
     \<and> (\<forall>d. pg_period_due p = Some d \<longrightarrow> d \<le> t + pg_period p)
     \<and> (\<forall>r. pg_reply_due p = Some r \<longrightarrow> r \<le> t + pg_timeout p))"

lemma ping_inv_step:
  assumes "ping_inv (t, p, c)" and "ping_step E try_send (t, p, c) e s'"
  shows "ping_inv s'"
  using assms(2,1)
  by (elim ping_stepE) (auto simp: ping_inv_def ping_ops dest!: period_timer_cb_fields split: if_splits)

lemma ping_inv_run: "ping_run E try_send s es s' \<Longrightarrow> ping_inv s \<Longrightarrow> ping_inv s'"
proof (induction rule: ping_run.induct)
  case (snoc s es s' e s'')
  then show ?case using ping_inv_step by (metis prod_cases3)
qed

text \<open>
  A silent stretch, without replies, starts and stops: from a time \<open>T\<close> on, either the channel is down, or
  the next ping is still to come, or its timeout is running.
\<close>

definition silent :: "ping_event list \<Rightarrow> bool" where
  "silent es \<longleftrightarrow> (\<forall>e \<in> set es. case e of Reply_received ts \<Rightarrow> False | Started \<Rightarrow> False | Stopped \<Rightarrow> False | _ \<Rightarrow> True)"

definition fading :: "nat \<Rightarrow> nat \<Rightarrow> nat \<Rightarrow> ping_state \<Rightarrow> bool" where
  "fading T period timeout s \<longleftrightarrow> (case s of (t, p, c) \<Rightarrow>
     pg_period p = period \<and> pg_timeout p = timeout \<and>
     (\<not> pg_connected p
      \<or> (\<exists>d. pg_period_due p = Some d \<and> d \<le> T + period)
      \<or> (\<exists>d r. pg_period_due p = Some d \<and> pg_reply_due p = Some r \<and> r < d \<and> r \<le> T + period + timeout)))"

lemma fading_step:
  assumes "ping_inv (t, p, c)" and "fading T period timeout (t, p, c)"
    and "ping_step E try_send (t, p, c) e s'" and "silent [e]"
  shows "fading T period timeout s'"
  using assms(3,1,2,4)
  by (elim ping_stepE)
    (auto simp: ping_inv_def fading_def silent_def reply_timer_cb_def dest!: period_timer_cb_fields)

lemma fading_run:
  "ping_run E try_send s es s' \<Longrightarrow> ping_inv s \<Longrightarrow> fading T period timeout s \<Longrightarrow> silent es
    \<Longrightarrow> ping_inv s' \<and> fading T period timeout s'"
proof (induction rule: ping_run.induct)
  case (snoc s es s' e s'')
  then have "silent es" "silent [e]" by (auto simp: silent_def)
  moreover obtain t p c where "s' = (t, p, c)" by (cases s')
  ultimately show ?case
    using snoc ping_inv_step [of t p c E try_send e s''] fading_step [of t p c T period timeout E try_send e s'']
    by blast
qed simp

lemma ping_run_constants:
  "ping_run E try_send s es s' \<Longrightarrow> pg_period (fst (snd s')) = pg_period (fst (snd s))
    \<and> pg_timeout (fst (snd s')) = pg_timeout (fst (snd s))"
proof (induction rule: ping_run.induct)
  case (snoc s es s' e s'')
  then show ?case
    by (cases s') (auto simp: ping_ops elim!: ping_stepE dest!: period_timer_cb_fields)
qed simp

lemma ping_inv_init:
  "mumble_udp_ping_init_ex h timeout period = Inr p \<Longrightarrow> ping_inv (0, p, c)"
  by (auto simp: ping_inv_def mumble_udp_ping_init_ex_def split: if_splits)

section \<open>Properties\<close>

text \<open>
  C16: A link that dies is noticed in time: from any state of a running pinger that a new pinger can reach, if no
  reply comes (and the pinger is neither stopped nor started again), then once more than a period and a
  timeout have passed the channel counts as down.
\<close>

theorem dead_link_is_noticed:
  assumes "mumble_udp_ping_init_ex True timeout period = Inr p0"
    and "ping_run E try_send (0, p0, c0) es (T, p, c)" and "pg_period_due p \<noteq> None"
    and "ping_run E try_send (T, p, c) es' (t, p', c')" and "silent es'"
    and "int T + period + timeout < int t"
  shows "\<not> pg_connected p'"
proof -
  have "0 < timeout" "timeout < period"
    and fixed: "pg_period p0 = nat period" "pg_timeout p0 = nat timeout"
    using assms(1) by (auto simp: mumble_udp_ping_init_ex_def split: if_splits)
  have inv: "ping_inv (T, p, c)"
    using ping_inv_run [OF assms(2)] ping_inv_init [OF assms(1)] by blast
  moreover have p: "pg_period p = nat period" "pg_timeout p = nat timeout"
    using ping_run_constants [OF assms(2)] fixed by simp_all
  ultimately have "fading T (nat period) (nat timeout) (T, p, c)"
    using assms(3) by (auto simp: fading_def ping_inv_def)
  then have "fading T (nat period) (nat timeout) (t, p', c')" and "ping_inv (t, p', c')"
    using fading_run [OF assms(4) inv _ assms(5)] by blast+
  moreover have "T + nat period + nat timeout < t"
    using assms(6) \<open>0 < timeout\<close> \<open>timeout < period\<close> by linarith
  ultimately show ?thesis
    using \<open>0 < timeout\<close> \<open>timeout < period\<close> by (auto simp: fading_def ping_inv_def)
qed

text \<open>
  When the period timer fires, the pinger sends \<open>0x20\<close> and the varint of the second reading of the clock,
  expects the reply to carry the first reading, and arms the reply timer; if the clock needs more than
  32 bits the encoder has no room and an assertion fails.
\<close>

theorem ping_sends:
  assumes "wf_ping p" and "wf_udp c" and "pool_room c" and "\<And>q. 0 < try_send q"
    and "\<And>b. length b = 16 \<Longrightarrow> length (E (key (u_cipher c)) b) = 16"
  shows "if t2 < 0x100000000
    then \<exists>p' c' packet. period_timer_cb E try_send t1 t2 clock p c = Inr (p', c', packet)
      \<and> uv_udp_ssl_write E try_send c (0x20 # varint_bytes t2) (length (0x20 # varint_bytes t2)) = Inr (c', packet)
      \<and> pg_timestamp p' = t1 \<and> pg_waiting p' \<and> pg_reply_due p' = Some (clock + pg_timeout p)
    else period_timer_cb E try_send t1 t2 clock p c = Inl Assert_failed"
proof (cases "t2 < 0x100000000")
  case True
  show ?thesis
    unfolding if_P [OF True]
    by (rule period_timer_works [where E = E and try_send = try_send, OF assms(1-3) True assms(4,5)]) blast+
next
  case False
  have "wf_ping (udp_ping_attempt_init t1 p)"
    using assms(1) by (simp add: wf_ping_def udp_ping_attempt_init_def)
  from ping_encode [OF this, of t2] False show ?thesis
    by (simp add: period_timer_cb_def Let_def)
qed

definition example_ping :: udp_ping where
  "example_ping = \<lparr>pg_connected = False, pg_period = 5000, pg_timeout = 1000, pg_timestamp = 0,
     pg_waiting = False, pg_buf = 0x20 # replicate 7 0, pg_period_due = None, pg_reply_due = None, pg_addressed = False\<rparr>"

lemma example_ping_init: "mumble_udp_ping_init_ex True 1000 5000 = Inr example_ping"
  by (simp add: mumble_udp_ping_init_ex_def example_ping_def numeral_eq_Suc)

lemma example_ping_ok: "wf_ping example_ping"
  by (simp add: wf_ping_def example_ping_def)

theorem ping_sends_witness:
  "\<exists>p' c' packet. period_timer_cb example_cipher (\<lambda>_. 1) 7 7 100 example_ping example_udp = Inr (p', c', packet)
      \<and> pg_timestamp p' = 7 \<and> pg_reply_due p' = Some 1100"
proof -
  have "if (7::u64) < 0x100000000
    then \<exists>p' c' packet. period_timer_cb example_cipher (\<lambda>_. 1) 7 7 100 example_ping example_udp = Inr (p', c', packet)
      \<and> uv_udp_ssl_write example_cipher (\<lambda>_. 1) example_udp (0x20 # varint_bytes 7) (length (0x20 # varint_bytes 7)) = Inr (c', packet)
      \<and> pg_timestamp p' = 7 \<and> pg_waiting p' \<and> pg_reply_due p' = Some (100 + pg_timeout example_ping)
    else period_timer_cb example_cipher (\<lambda>_. 1) 7 7 100 example_ping example_udp = Inl Assert_failed"
    by (rule ping_sends [OF example_ping_ok example_udp_ok(1,2)]) (simp_all add: example_cipher_ok)
  then show ?thesis by (auto simp: example_ping_def)
qed

lemma small_time: "(0 :: u64) < 0x100000000"
  by (simp add: word_less_nat_alt)

text \<open>
  A stopped pinger can come up for good: stopping does not forget the attempt, so the reply to a ping that was
  under way marks the channel connected while both timers are off and nothing will ever take it down.
\<close>

theorem stopped_pinger_reconnects:
  assumes "mumble_udp_ping_init_ex True timeout period = Inr p0" and "wf_udp c" and "pool_room c"
    and "\<And>q. 0 < try_send q"
    and "\<And>b. length b = 16 \<Longrightarrow> length (E (key (u_cipher c)) b) = 16"
  shows "\<exists>packet p' c'. ping_run E try_send (0, p0, c)
      [Started, Period_fires packet, Stopped, Reply_received t1] (0, p', c')
    \<and> pg_connected p' \<and> pg_period_due p' = None \<and> pg_reply_due p' = None"
proof -
  have p0: "pg_period_due p0 = None" "pg_reply_due p0 = None" and wf: "wf_ping p0"
    using init_ex_fields [OF assms(1)] by (simp_all add: wf_ping_def)
  let ?p1 = "mumble_udp_ping_start 0 p0"
  let ?p2 = "?p1\<lparr>pg_period_due := Some (0 + pg_period ?p1)\<rparr>"
  have wf2: "wf_ping ?p2" using wf by (simp add: wf_ping_def mumble_udp_ping_start_def)
  obtain p3 c' packet where w: "period_timer_cb E try_send t1 0 0 ?p2 c = Inr (p3, c', packet)"
    "uv_udp_ssl_write E try_send c (0x20 # varint_bytes 0) (length (0x20 # varint_bytes 0)) = Inr (c', packet)"
    "wf_udp c'" "pool_room c'" "wf_ping p3" "pg_timestamp p3 = t1" "pg_waiting p3"
    "pg_connected p3 = pg_connected ?p2" "pg_reply_due p3 = Some (0 + pg_timeout ?p2)"
    by (rule period_timer_works [where E = E and try_send = try_send, OF wf2 assms(2,3) small_time assms(4,5)])
  let ?p4 = "mumble_udp_ping_recv (mumble_udp_ping_stop p3) t1"
  have "ping_run E try_send (0, p0, c) ([] @ [Started]) (0, ?p1, c)"
    by (rule ping_run.snoc [OF ping_run.nil ping_step.started])
  moreover have "ping_step E try_send (0, ?p1, c) (Period_fires packet) (0, p3, c')"
    by (rule ping_step.period [OF _ _ _ w(1)]) (simp_all add: mumble_udp_ping_start_def p0)
  ultimately have "ping_run E try_send (0, p0, c) (([] @ [Started]) @ [Period_fires packet]) (0, p3, c')"
    by (rule ping_run.snoc)
  from ping_run.snoc [OF ping_run.snoc [OF this ping_step.stopped] ping_step.received]
  have "ping_run E try_send (0, p0, c) (((([] @ [Started]) @ [Period_fires packet]) @ [Stopped]) @ [Reply_received t1]) (0, ?p4, c')" .
  moreover have "pg_connected ?p4" "pg_period_due ?p4 = None" "pg_reply_due ?p4 = None"
    using w(6,7) by (simp_all add: ping_ops)
  ultimately show ?thesis by auto
qed

theorem stopped_pinger_reconnects_witness:
  "\<exists>packet p' c'. ping_run example_cipher (\<lambda>_. 1) (0, example_ping, example_udp)
      [Started, Period_fires packet, Stopped, Reply_received 7] (0, p', c')
    \<and> pg_connected p' \<and> pg_period_due p' = None \<and> pg_reply_due p' = None"
  by (rule stopped_pinger_reconnects [OF example_ping_init example_udp_ok(1,2)])
    (simp_all add: example_cipher_ok)

lemma silent_round:
  assumes "wf_ping p" and "wf_udp c" and "pool_room c" and "pg_period_due p = Some t" and "pg_reply_due p = None"
    and "\<And>q. 0 < try_send q" and "\<And>k b. length b = 16 \<Longrightarrow> length (E k b) = 16"
    and run: "ping_run E try_send s es (t, p, c)"
  shows "\<exists>packet p' c'. ping_run E try_send s (es @ [Period_fires packet, Tick, Reply_late, Tick]) (t + pg_period p, p', c')
    \<and> wf_ping p' \<and> wf_udp c' \<and> pool_room c' \<and> pg_period_due p' = Some (t + pg_period p) \<and> pg_reply_due p' = None
    \<and> pg_period p' = pg_period p"
proof -
  let ?p1 = "p\<lparr>pg_period_due := Some (t + pg_period p)\<rparr>"
  have wf1: "wf_ping ?p1" using assms(1) by (simp add: wf_ping_def)
  obtain p2 c' packet where w: "period_timer_cb E try_send 0 0 t ?p1 c = Inr (p2, c', packet)"
    "uv_udp_ssl_write E try_send c (0x20 # varint_bytes 0) (length (0x20 # varint_bytes 0)) = Inr (c', packet)"
    "wf_udp c'" "pool_room c'" "wf_ping p2" "pg_timestamp p2 = 0" "pg_waiting p2"
    "pg_connected p2 = pg_connected ?p1" "pg_reply_due p2 = Some (t + pg_timeout ?p1)"
    by (rule period_timer_works [where E = E and try_send = try_send, OF wf1 assms(2,3) small_time assms(6,7)])
  have p2: "pg_period_due p2 = Some (t + pg_period p)" "pg_timeout p2 = pg_timeout p" "pg_period p2 = pg_period p"
    using period_timer_cb_fields [OF w(1)] by simp_all
  have to: "pg_timeout p < pg_period p" using assms(1) by (simp add: wf_ping_def)
  let ?p3 = "reply_timer_cb (p2\<lparr>pg_reply_due := None\<rparr>)"
  have "ping_step E try_send (t, p, c) (Period_fires packet) (t, p2, c')"
    by (rule ping_step.period [OF assms(4) _ _ w(1)]) (simp_all add: assms(5))
  moreover have "ping_step E try_send (t, p2, c') Tick (t + pg_timeout p, p2, c')"
    using w(9) p2 to by (intro ping_step.tick) simp_all
  moreover have "ping_step E try_send (t + pg_timeout p, p2, c') Reply_late (t + pg_timeout p, ?p3, c')"
    using w(9) p2 to by (intro ping_step.reply_late [where d = "t + pg_timeout p"]) simp_all
  moreover have "ping_step E try_send (t + pg_timeout p, ?p3, c') Tick (t + pg_period p, ?p3, c')"
    using p2 to by (intro ping_step.tick) (simp_all add: reply_timer_cb_def)
  ultimately have "ping_run E try_send s ((((es @ [Period_fires packet]) @ [Tick]) @ [Reply_late]) @ [Tick]) (t + pg_period p, ?p3, c')"
    using run by (blast intro: ping_run.snoc)
  then have "ping_run E try_send s (es @ [Period_fires packet, Tick, Reply_late, Tick]) (t + pg_period p, ?p3, c')"
    by simp
  moreover have "wf_ping ?p3" "pg_period_due ?p3 = Some (t + pg_period p)" "pg_reply_due ?p3 = None"
    "pg_period ?p3 = pg_period p"
    using w(5) p2 by (simp_all add: wf_ping_def reply_timer_cb_def)
  ultimately show ?thesis
    using w(3,4) by blast
qed

theorem dead_link_is_noticed_witness:
  "\<exists>p es t p' c'. ping_run example_cipher (\<lambda>_. 1) (0, example_ping, example_udp) [Started] (0, p, example_udp)
    \<and> ping_run example_cipher (\<lambda>_. 1) (0, p, example_udp) es (t, p', c') \<and> silent es \<and> 6000 < t \<and> \<not> pg_connected p'"
proof -
  let ?p = "mumble_udp_ping_start 0 example_ping"
  have start: "ping_run example_cipher (\<lambda>_. 1) (0, example_ping, example_udp) ([] @ [Started]) (0, ?p, example_udp)"
    by (rule ping_run.snoc [OF ping_run.nil ping_step.started])
  have p: "wf_ping ?p" "pg_period_due ?p = Some 0" "pg_reply_due ?p = None" "pg_period ?p = 5000"
    by (simp_all add: wf_ping_def mumble_udp_ping_start_def example_ping_def)
  obtain k1 p1 c1 where r1: "ping_run example_cipher (\<lambda>_. 1) (0, ?p, example_udp)
      ([] @ [Period_fires k1, Tick, Reply_late, Tick]) (0 + pg_period ?p, p1, c1)"
    and w1: "wf_ping p1" "wf_udp c1" "pool_room c1" "pg_period_due p1 = Some (0 + pg_period ?p)" "pg_reply_due p1 = None"
      "pg_period p1 = pg_period ?p"
    using silent_round [where E = example_cipher and try_send = "\<lambda>_. 1", OF p(1) example_udp_ok(1,2) p(2,3) _ _ ping_run.nil]
      example_cipher_ok(1) by fastforce
  obtain k2 p2 c2 where r2: "ping_run example_cipher (\<lambda>_. 1) (0, ?p, example_udp)
      (([] @ [Period_fires k1, Tick, Reply_late, Tick]) @ [Period_fires k2, Tick, Reply_late, Tick])
      (0 + pg_period ?p + pg_period p1, p2, c2)"
    using silent_round [where E = example_cipher and try_send = "\<lambda>_. 1", OF w1(1-5) _ _ r1] example_cipher_ok(1)
    by fastforce
  have silent: "silent (([] @ [Period_fires k1, Tick, Reply_late, Tick]) @ [Period_fires k2, Tick, Reply_late, Tick])"
    by (simp add: silent_def)
  have "\<not> pg_connected p2"
    by (rule dead_link_is_noticed [OF example_ping_init start _ r2 silent]) (simp_all add: p w1)
  then show ?thesis
    using start r2 silent p w1 by (intro exI conjI) (assumption | simp)+
qed

end
