(* ===== verification/Opus_Codec.thy ===== *)
theory Opus_Codec
  imports Stream_Buffer Varint
begin

text \<open>
  The opus codec wrapper \<^verbatim>\<open>lib/mumble/codec/opus.c\<close>: PCM is cut into frames by the framing buffer, each
  frame is encoded and handed on behind the varint of its length; the other way the length is read,
  its termination bit taken off, and the rest decoded.

  libopus is a parameter: \<open>opus_encode state pcm frame_size max\<close> and
  \<open>opus_decode state data frame_size\<close> give the return value, the bytes or samples written and the new
  state, \<open>nb_samples\<close> the value of \<open>opus_decoder_get_nb_samples\<close>.
\<close>

type_synonym samples = "u16 list"
type_synonym 'e opus_encode = "'e \<Rightarrow> bytes \<Rightarrow> nat \<Rightarrow> nat \<Rightarrow> int \<times> bytes \<times> 'e"
type_synonym 'd opus_decode = "'d \<Rightarrow> bytes \<Rightarrow> int \<Rightarrow> int \<times> samples \<times> 'd"

record 'e opus_encoder =
  oe_encoder :: 'e
  oe_buffer :: mumble_buffer
  oe_buffer_ms :: u16
  oe_codec_size :: nat
  oe_framed :: bytes
  oe_framed_size :: nat

section \<open>Decoding\<close>

definition mumble_codec_opus_create_decoder :: "bool \<Rightarrow> 'd option \<Rightarrow> 'd res" where
  "mumble_codec_opus_create_decoder struct_ok created =
     (if \<not> struct_ok then Inl Assert_failed
      else case created of None \<Rightarrow> Inl Assert_failed | Some d \<Rightarrow> Inr d)"

text \<open>
  Result: the return value, the samples, \<open>*pcm_len\<close>, \<open>*termination\<close> and the decoder's state. \<open>malloc_ok\<close>
  tells whether the allocation of a number of bytes succeeds. \<open>len\<close> is compared as an unsigned 64-bit
  number.
\<close>

definition mumble_codec_opus_decode ::
    "'d opus_decode \<Rightarrow> (bytes \<Rightarrow> int) \<Rightarrow> (int \<Rightarrow> bool) \<Rightarrow> 'd \<Rightarrow> bytes \<Rightarrow> int
      \<Rightarrow> (int \<times> samples \<times> int \<times> bool \<times> 'd) comp" where
  "mumble_codec_opus_decode opus_decode nb_samples malloc_ok d buffer len =
     cbind (varint_decode buffer len 0) (\<lambda>(ret, varlen).
     let termination = (varlen AND 0x2000 \<noteq> 0);
         varlen = (if termination then varlen AND 0x1FFF else varlen)
     in if \<not> 0 < ret then faults Assert_failed
        else if \<not> 0 < varlen then faults Assert_failed
        else if \<not> varlen < word_of_int len then faults Assert_failed
        else
          let buffer = drop (nat ret) buffer; len = len - ret in
          if varlen \<noteq> word_of_int len then faults Assert_failed
          else
            cbind (Some (peek buffer 0 (unat varlen))) (\<lambda>packet.
            let num_samples = nb_samples packet; pcm_len = 2 * num_samples in
            if \<not> malloc_ok pcm_len then faults Assert_failed
            else
              let (ret, pcm, d') = opus_decode d packet pcm_len in
              if \<not> 0 < ret then faults Assert_failed
              else ok (ret, pcm, pcm_len, termination, d')))"

section \<open>Encoding\<close>

text \<open>
  The callback of the framing buffer. \<open>cb\<close> is the callback of the codec's user and \<open>c\<close> the state it works
  on; it is handed the framed packet.
\<close>

definition on_encoder_frame ::
    "'e opus_encode \<Rightarrow> (bytes \<Rightarrow> bool \<Rightarrow> 'c \<Rightarrow> 'c res) \<Rightarrow> ('e opus_encoder \<times> 'c) buffer_cb" where
  "on_encoder_frame opus_encode cb buf sz bool_final = (\<lambda>(codec, c).
     let (ret, out, enc') = opus_encode (oe_encoder codec) buf (sz div 2) (oe_codec_size codec) in
     if \<not> 0 < ret then Inl Assert_failed
     else
       rbind (varint_encode (word_of_int ret) (oe_framed codec) (int (oe_framed_size codec)) 0)
         (\<lambda>(varint_ret, framed, written).
       if varint_ret \<noteq> 0 then Inl Assert_failed
       else if \<not> ret + written < int (oe_framed_size codec) then Inl Assert_failed
       else
         rbind (peek out 0 (nat ret)) (\<lambda>payload.
         rbind (poke framed (nat written) payload) (\<lambda>framed'.
         rbind (cb (take (nat (written + ret)) framed') bool_final c) (\<lambda>c'.
         Inr (codec\<lparr>oe_encoder := enc', oe_framed := framed'\<rparr>, c'))))))"

text \<open>
  \<open>buffer_size sample_rate buffer_ms\<close> is the C expression \<open>sample_rate * ((float)buffer_ms / 1000)\<close> converted
  to \<open>int\<close>; it is a number of samples and is used as a number of bytes. \<open>create\<close> is what
  \<open>opus_encoder_create\<close> returns for an application, \<open>mem1\<close>, \<open>mem2\<close>, \<open>mem3\<close> the memory of the three
  buffers.
\<close>

definition codec_buf_init :: "bytes option \<Rightarrow> int \<Rightarrow> (bytes \<times> nat) res" where
  "codec_buf_init mem sz = (case mem of None \<Rightarrow> Inl Assert_failed | Some m \<Rightarrow> Inr (m, nat sz))"

definition mumble_codec_opus_create_encoder ::
    "bool \<Rightarrow> (int \<Rightarrow> 'e option) \<Rightarrow> (u16 \<Rightarrow> u16 \<Rightarrow> int) \<Rightarrow> bytes option \<Rightarrow> bytes option \<Rightarrow> bytes option
      \<Rightarrow> u16 \<Rightarrow> u16 \<Rightarrow> int \<Rightarrow> 'e opus_encoder res" where
  "mumble_codec_opus_create_encoder struct_ok create buffer_size mem1 mem2 mem3 sample_rate buffer_ms app =
     (let app = (if app = 0 then 2048 else app) in
      if \<not> struct_ok then Inl Assert_failed
      else case create app of
        None \<Rightarrow> Inl Assert_failed
      | Some enc \<Rightarrow>
          let audio_buffer_size = buffer_size sample_rate buffer_ms in
          rbind (mumble_buffer_create (nat audio_buffer_size) True mem1) (\<lambda>buf.
          rbind (codec_buf_init mem2 audio_buffer_size) (\<lambda>(codec_out, codec_size).
          rbind (codec_buf_init mem3 audio_buffer_size) (\<lambda>(framed, framed_size).
          Inr \<lparr>oe_encoder = enc, oe_buffer = buf, oe_buffer_ms = buffer_ms, oe_codec_size = codec_size,
               oe_framed = framed, oe_framed_size = framed_size\<rparr>))))"

definition mumble_codec_opus_encode ::
    "'e opus_encode \<Rightarrow> (bytes \<Rightarrow> bool \<Rightarrow> 'c \<Rightarrow> 'c res) \<Rightarrow> bytes \<Rightarrow> nat \<Rightarrow> bool \<Rightarrow> 'e opus_encoder \<Rightarrow> 'c
      \<Rightarrow> ('e opus_encoder \<times> 'c) comp" where
  "mumble_codec_opus_encode opus_encode cb pcm pcm_size termination codec c =
     cbind (Some (peek pcm 0 (pcm_size * 2))) (\<lambda>data.
     cbind (mumble_buffer_write (on_encoder_frame opus_encode cb) data termination (oe_buffer codec) (codec, c))
       (\<lambda>(b, codec', c'). ok (codec'\<lparr>oe_buffer := b\<rparr>, c')))"

section \<open>Packets\<close>

text \<open>A framed packet: the varint of the payload's length and the payload.\<close>

definition opus_packet :: "bytes \<Rightarrow> bytes" where
  "opus_packet payload = varint_bytes (of_nat (length payload)) @ payload"

lemma small_length_word:
  assumes "n < 0x2000"
  shows "\<not> bit (of_nat n :: u64) 31" and "(of_nat n :: u64) AND 0x2000 = 0" and "unat (of_nat n :: u64) = n"
proof -
  show u: "unat (of_nat n :: u64) = n"
    using assms by (simp add: unsigned_of_nat take_bit_nat_eq_self)
  have less: "(of_nat n :: u64) < 2 ^ 13"
    using assms u by (simp add: word_less_nat_alt)
  have bits: "k < 13" if "bit (of_nat n :: u64) k" for k
    using word_less_bit [OF less _ that] by simp
  then show "\<not> bit (of_nat n :: u64) 31" by fastforce
  have "bit (0x2000 :: int) k \<longleftrightarrow> k = 13" for k
  proof -
    have "(0x2000 :: int) = 2 ^ 13" by simp
    then show ?thesis by (simp only: bit_exp_iff) auto
  qed
  then show "(of_nat n :: u64) AND 0x2000 = 0"
    using bits by (intro bit_word_eqI) (auto simp: bit_and_iff)
qed

lemma opus_decode_packet:
  assumes "0 < length payload" and "length payload < 0x2000"
    and "malloc_ok (2 * nb_samples payload)"
    and "opus_decode d payload (2 * nb_samples payload) = (ret, pcm, d')" and "0 < ret"
  shows "mumble_codec_opus_decode opus_decode nb_samples malloc_ok d (opus_packet payload)
      (int (length (opus_packet payload))) = ok (ret, pcm, 2 * nb_samples payload, False, d')"
proof -
  let ?v = "of_nat (length payload) :: u64"
  note w = small_length_word [OF assms(2)]
  have size: "varint_encode_size ?v = int (length (varint_bytes ?v))"
    by (rule varint_encode_size_eq)
  have "varint_decode (varint_bytes ?v @ payload) (int (length (opus_packet payload))) 0
      = ok (varint_encode_size ?v, if bit ?v 31 then ?v OR 0xFFFFFFFF00000000 else ?v)"
    by (rule varint_decode_bytes) (simp add: size opus_packet_def)
  then have dec: "varint_decode (opus_packet payload) (int (length (opus_packet payload))) 0
      = ok (int (length (varint_bytes ?v)), ?v)"
    using w(1) by (simp add: size opus_packet_def)
  have pos: "0 < length (varint_bytes ?v)" "length (varint_bytes ?v) \<le> 9"
    by (rule varint_bytes_length)+
  let ?l = "int (length (opus_packet payload))"
  have l: "?l = int (length (varint_bytes ?v) + length payload)" by (simp add: opus_packet_def)
  have "unat (word_of_int ?l :: u64) = length (varint_bytes ?v) + length payload"
    using assms(2) pos unfolding l by (simp add: unsigned_of_nat take_bit_nat_eq_self del: of_nat_add)
  then have less: "?v < word_of_int ?l"
    using pos w(3) by (simp add: word_less_nat_alt)
  have v0: "0 < ?v" using assms(1) w(3) by (simp add: word_less_nat_alt)
  have rest: "?l - int (length (varint_bytes ?v)) = int (length payload)" by (simp add: opus_packet_def)
  have drop: "drop (length (varint_bytes ?v)) (opus_packet payload) = payload" by (simp add: opus_packet_def)
  show ?thesis
    unfolding mumble_codec_opus_decode_def dec
    using assms(3-5) w pos less v0 by (simp add: Let_def rest drop)
qed

lemma on_encoder_frame_packet:
  assumes "on_encoder_frame opus_encode cb buf n fin (codec, c) = Inr (codec', c')"
    and "length (oe_framed codec) = oe_framed_size codec" and "oe_framed_size codec \<le> 0x2000"
  obtains payload out enc' where "opus_encode (oe_encoder codec) buf (n div 2) (oe_codec_size codec) = (int (length payload), out, enc')"
    "payload = take (length payload) out" "0 < length payload"
    "length (opus_packet payload) < oe_framed_size codec"
    "cb (opus_packet payload) fin c = Inr c'"
    "oe_framed_size codec' = oe_framed_size codec" "length (oe_framed codec') = oe_framed_size codec"
    "oe_buffer codec' = oe_buffer codec" "oe_codec_size codec' = oe_codec_size codec" "oe_encoder codec' = enc'"
proof -
  obtain ret out enc' where enc: "opus_encode (oe_encoder codec) buf (n div 2) (oe_codec_size codec) = (ret, out, enc')"
    by (cases "opus_encode (oe_encoder codec) buf (n div 2) (oe_codec_size codec)") auto
  let ?n = "oe_framed_size codec" and ?v = "word_of_int ret :: u64"
  obtain vret framed written where ve: "varint_encode ?v (oe_framed codec) (int ?n) 0 = Inr (vret, framed, written)"
    and vok: "vret = 0" and fits: "ret + written < int ?n" and ret: "0 < ret"
    and len: "nat ret \<le> length out"
    and rest: "rbind (poke framed (nat written) (take (nat ret) out)) (\<lambda>framed'.
         rbind (cb (take (nat (written + ret)) framed') fin c) (\<lambda>c'.
         Inr (codec\<lparr>oe_encoder := enc', oe_framed := framed'\<rparr>, c'))) = Inr (codec', c')"
    using assms(1) by (auto simp: on_encoder_frame_def enc Let_def rbind_Inr_iff peek_def split: if_splits)
  have "varint_encode_size ?v \<le> int ?n"
    using ve vok by (auto simp: varint_encode_def Let_def split: if_splits)
  moreover from this have "length (varint_bytes ?v) \<le> length (oe_framed codec)"
    using assms(2) by (simp add: varint_encode_size_eq)
  ultimately have "framed = varint_bytes ?v @ drop (length (varint_bytes ?v)) (oe_framed codec)"
    and w: "written = int (length (varint_bytes ?v))"
    using ve varint_encode_eq [of ?v "int ?n" "oe_framed codec" 0] by simp_all
  let ?p = "take (nat ret) out"
  have plen: "length ?p = nat ret" using len by simp
  have v: "?v = of_nat (length ?p)" using ret plen by simp
  have "length (varint_bytes ?v) + nat ret \<le> length (oe_framed codec)"
    using fits w assms(2) ret by linarith
  then have "poke framed (nat written) ?p = Inr (varint_bytes ?v @ ?p
      @ drop (length (varint_bytes ?v) + nat ret) (oe_framed codec))"
    using plen \<open>framed = _\<close> by (simp add: w poke_def add.commute)
  moreover have "nat (written + ret) = length (varint_bytes ?v @ ?p)"
    using plen ret w by simp
  ultimately have "rbind (cb (opus_packet ?p) fin c) (\<lambda>c'. Inr (codec\<lparr>oe_encoder := enc',
      oe_framed := varint_bytes ?v @ ?p @ drop (length (varint_bytes ?v) + nat ret) (oe_framed codec)\<rparr>, c'))
      = Inr (codec', c')"
    using rest v plen by (simp add: opus_packet_def)
  then obtain c1 where "cb (opus_packet ?p) fin c = Inr c1" and "c1 = c'" and codec': "codec' = codec\<lparr>oe_encoder := enc',
      oe_framed := varint_bytes ?v @ ?p @ drop (length (varint_bytes ?v) + nat ret) (oe_framed codec)\<rparr>"
    by (auto simp: rbind_Inr_iff)
  moreover have "length (opus_packet ?p) < ?n"
    using fits w ret plen v by (simp add: opus_packet_def)
  moreover have "length (varint_bytes ?v @ ?p @ drop (length (varint_bytes ?v) + nat ret) (oe_framed codec)) = ?n"
    using \<open>length (varint_bytes ?v) + nat ret \<le> length (oe_framed codec)\<close> assms(2) plen by simp
  ultimately show thesis
    using that [of ?p out enc'] enc ret plen len by (cases "out = []") simp_all
qed

section \<open>What leaves the encoder\<close>

definition wf_opus_encoder :: "'e opus_encoder \<Rightarrow> bool" where
  "wf_opus_encoder codec \<longleftrightarrow> wf_buffer (oe_buffer codec) \<and> length (oe_framed codec) = oe_framed_size codec
     \<and> oe_framed_size codec \<le> 0x2000"

definition log_packet :: "bytes \<Rightarrow> bool \<Rightarrow> bytes list \<Rightarrow> bytes list res" where
  "log_packet packet bool_final log = Inr (log @ [packet])"

definition packets_inv :: "nat \<Rightarrow> 'e opus_encoder \<times> bytes list \<Rightarrow> bool" where
  "packets_inv k s \<longleftrightarrow> oe_framed_size (fst s) = k \<and> length (oe_framed (fst s)) = k \<and> k \<le> 0x2000
     \<and> (\<forall>packet \<in> set (snd s). \<exists>payload. packet = opus_packet payload \<and> 0 < length payload \<and> length packet < k)"

interpretation opus_sink: frame_sink "on_encoder_frame opus_encode log_packet" n "packets_inv k"
  for opus_encode :: "'e opus_encode" and n k
proof
  fix s s' :: "'e opus_encoder \<times> bytes list" and f fin
  assume inv: "packets_inv k s" and run: "on_encoder_frame opus_encode log_packet f n fin s = Inr s'"
  obtain codec log codec' log' where s: "s = (codec, log)" "s' = (codec', log')" by (cases s; cases s')
  obtain payload out enc' where "opus_encode (oe_encoder codec) f (n div 2) (oe_codec_size codec) = (int (length payload), out, enc')"
    "payload = take (length payload) out" "0 < length payload"
    "length (opus_packet payload) < oe_framed_size codec"
    "log_packet (opus_packet payload) fin log = Inr log'"
    "oe_framed_size codec' = oe_framed_size codec" "length (oe_framed codec') = oe_framed_size codec"
    "oe_buffer codec' = oe_buffer codec" "oe_codec_size codec' = oe_codec_size codec" "oe_encoder codec' = enc'"
    by (rule on_encoder_frame_packet [OF run [unfolded s]]) (use inv s in \<open>auto simp: packets_inv_def\<close>)
  then show "packets_inv k s'"
    using inv unfolding s by (auto simp: packets_inv_def log_packet_def)
qed

lemma opus_encode_keeps:
  assumes "wf_opus_encoder codec"
    and "mumble_codec_opus_encode opus_encode log_packet pcm n False codec [] = ok (codec', log)"
  shows "wf_opus_encoder codec' \<and> packets_inv (oe_framed_size codec) (codec', log)"
proof -
  obtain data b c1 where w: "mumble_buffer_write (on_encoder_frame opus_encode log_packet) data False (oe_buffer codec) (codec, [])
      = ok (b, c1, log)" and codec': "codec' = c1\<lparr>oe_buffer := b\<rparr>"
    using assms(2) by (auto simp: mumble_codec_opus_encode_def cbind_ok_iff)
  have "packets_inv (oe_framed_size codec) (codec, [])"
    using assms(1) by (simp add: packets_inv_def wf_opus_encoder_def)
  from opus_sink.write_inv [OF _ refl this w] assms(1)
  have "packets_inv (oe_framed_size codec) (c1, log)" "wf_buffer b"
    by (simp_all add: wf_opus_encoder_def)
  then show ?thesis
    by (simp add: codec' packets_inv_def wf_opus_encoder_def)
qed

section \<open>What opus makes of the samples\<close>

text \<open>The frames of the samples, behind those left over from the call before, and what opus returns for them one by one.\<close>

definition opus_frames :: "'e opus_encoder \<Rightarrow> bytes \<Rightarrow> bytes list" where
  "opus_frames codec data =
     map fst (fst (buffer_frames (b_allocated (oe_buffer codec)) False (pending (oe_buffer codec) @ data)))"

fun opus_payloads :: "'e opus_encode \<Rightarrow> nat \<Rightarrow> nat \<Rightarrow> 'e \<Rightarrow> bytes list \<Rightarrow> bytes list" where
  "opus_payloads opus_encode frame_size room e [] = []"
| "opus_payloads opus_encode frame_size room e (f # fs) =
     (case opus_encode e f frame_size room of (ret, out, e') \<Rightarrow>
        take (nat ret) out # opus_payloads opus_encode frame_size room e' fs)"

lemma opus_payloads_length [simp]: "length (opus_payloads oe k room e fs) = length fs"
  by (induction fs arbitrary: e) (auto split: prod.splits)

lemma deliver_payloads:
  assumes "deliver (on_encoder_frame oe log_packet) n fs (codec, log0) = Inr (codec', log)"
    and "length (oe_framed codec) = oe_framed_size codec" and "oe_framed_size codec \<le> 0x2000"
  shows "log = log0 @ map opus_packet (opus_payloads oe (n div 2) (oe_codec_size codec) (oe_encoder codec) (map fst fs))
    \<and> [] \<notin> set (opus_payloads oe (n div 2) (oe_codec_size codec) (oe_encoder codec) (map fst fs))"
  using assms
proof (induction fs arbitrary: codec log0)
  case (Cons x fs)
  obtain f fin where x: "x = (f, fin)" by fastforce
  obtain codec1 log1 where run: "on_encoder_frame oe log_packet f n fin (codec, log0) = Inr (codec1, log1)"
    and rest: "deliver (on_encoder_frame oe log_packet) n fs (codec1, log1) = Inr (codec', log)"
    using Cons.prems(1) by (auto simp: x rbind_Inr_iff)
  obtain payload out enc' where p: "oe (oe_encoder codec) f (n div 2) (oe_codec_size codec) = (int (length payload), out, enc')"
    "payload = take (length payload) out" "0 < length payload"
    "length (opus_packet payload) < oe_framed_size codec"
    "log_packet (opus_packet payload) fin log0 = Inr log1"
    "oe_framed_size codec1 = oe_framed_size codec" "length (oe_framed codec1) = oe_framed_size codec"
    "oe_buffer codec1 = oe_buffer codec" "oe_codec_size codec1 = oe_codec_size codec" "oe_encoder codec1 = enc'"
    by (rule on_encoder_frame_packet [OF run Cons.prems(2,3)])
  from p(2) have payload: "take (length payload) out = payload" by simp
  then show ?case
    using Cons.IH [OF rest] p Cons.prems(3) by (auto simp: x log_packet_def)
qed simp

section \<open>Properties\<close>


definition example_opus_encode :: "unit opus_encode" where
  "example_opus_encode st pcm frame_size room = (2, take 2 pcm, ())"

definition example_opus_encoder :: "unit opus_encoder" where
  "example_opus_encoder = \<lparr>oe_encoder = (), oe_buffer = \<lparr>b_buf = [0, 0, 0, 0], b_allocated = 4, b_used = 0\<rparr>,
     oe_buffer_ms = 20, oe_codec_size = 4, oe_framed = [0, 0, 0, 0], oe_framed_size = 4\<rparr>"

definition example_opus_decode :: "unit opus_decode" where
  "example_opus_decode d data k = (int (length data) + 1, map ucast data, ())"

lemma example_opus_run:
  "\<exists>codec'. mumble_codec_opus_encode example_opus_encode log_packet [1, 2, 3, 4, 5, 6] 3 False example_opus_encoder []
    = ok (codec', [[2, 1, 2]])"
proof -
  let ?cb = "on_encoder_frame example_opus_encode log_packet" and ?b = "oe_buffer example_opus_encoder"
  let ?c1 = "example_opus_encoder\<lparr>oe_framed := [2, 1, 2, 0]\<rparr>"
  have wf: "wf_buffer ?b" by (simp add: example_opus_encoder_def wf_buffer_def)
  have frames: "buffer_frames (b_allocated ?b) False (pending ?b @ [1, 2, 3, 4, 5, 6]) = ([([1, 2, 3, 4], False)], [5, 6])"
    by (simp add: example_opus_encoder_def pending_def buffer_frames.simps)
  have size: "varint_encode_size 2 = 1" and bytes: "varint_bytes 2 = [2]"
    by (simp_all add: varint_encode_size_def varint_bytes_def varint_writes_def)
  have cb: "?cb [1, 2, 3, 4] 4 False (example_opus_encoder, []) = Inr (?c1, [[2, 1, 2]])"
    using varint_encode_eq [of 2 4 "[0, 0, 0, 0]" 0]
    by (simp add: size bytes on_encoder_frame_def example_opus_encode_def example_opus_encoder_def
        log_packet_def peek_def poke_def Let_def)
  have "b_allocated ?b = 4" by (simp add: example_opus_encoder_def)
  with buffer_write_frames [OF wf frames, of ?cb "(example_opus_encoder, [])"] cb
  obtain b' where "mumble_buffer_write ?cb [1, 2, 3, 4, 5, 6] False ?b (example_opus_encoder, [])
      = ok (b', ?c1, [[2, 1, 2]])" by auto
  then show ?thesis
    by (simp add: mumble_codec_opus_encode_def)
qed


end
