(* ===== verification/Audio_Packets.thy ===== *)
theory Audio_Packets
  imports Opus_Codec
begin

text \<open>
  The audio packets: \<^verbatim>\<open>lib/mumble/audio_decoder.c\<close> reads a packet (codec, target, source, sequence number,
  opus data, position) and hands it to a callback, \<^verbatim>\<open>lib/mumble/audio_encoder.c\<close> puts the header and the
  sequence number in front of what the codec produced.

  A position is three floats, kept as their bit patterns.
\<close>

type_synonym position = "u32 \<times> u32 \<times> u32"

record audio_packet =
  ap_codec :: byte
  ap_data :: samples
  ap_hz :: int
  ap_samples :: int
  ap_position :: position
  ap_sequence :: u64
  ap_source :: u64
  ap_target :: u64

definition empty_packet :: audio_packet where
  "empty_packet = \<lparr>ap_codec = 0, ap_data = [], ap_hz = 0, ap_samples = 0, ap_position = (0, 0, 0),
     ap_sequence = 0, ap_source = 0, ap_target = 0\<rparr>"

text \<open>Floats in memory, on a little-endian machine.\<close>

definition float_bytes :: "u32 \<Rightarrow> bytes" where
  "float_bytes w = [ucast w, ucast (drop_bit 8 w), ucast (drop_bit 16 w), ucast (drop_bit 24 w)]"

definition float_at :: "bytes \<Rightarrow> nat \<Rightarrow> u32" where
  "float_at bs i = ucast (bs ! (4 * i)) OR push_bit 8 (ucast (bs ! (4 * i + 1)))
     OR push_bit 16 (ucast (bs ! (4 * i + 2))) OR push_bit 24 (ucast (bs ! (4 * i + 3)))"

definition position_bytes :: "position \<Rightarrow> bytes" where
  "position_bytes = (\<lambda>(x, y, z). float_bytes x @ float_bytes y @ float_bytes z)"

definition MUMBLE_AUDIO_TYPE :: "byte \<Rightarrow> byte" where
  "MUMBLE_AUDIO_TYPE x = drop_bit 5 (x AND 0xE0)"

definition MUMBLE_AUDIO_TARGET :: "byte \<Rightarrow> byte" where
  "MUMBLE_AUDIO_TARGET x = x AND 0x1F"

lemma unat_up_ucast: "unat (ucast (w :: u32) :: u64) = unat w"
  using unsigned_less [where 'a = nat, of w] by (simp add: unsigned_ucast_eq take_bit_nat_eq_self)

lemma ucast_down_up:
  assumes "(w :: u64) < 2 ^ 32"
  shows "ucast (ucast w :: u32) = w"
proof -
  have "unat w < 2 ^ 32" using assms by (simp add: word_less_nat_alt)
  then have "unat (ucast w :: u32) = unat w" by (simp add: unsigned_ucast_eq take_bit_nat_eq_self)
  then show ?thesis by (simp add: word_unat_eq_iff unat_up_ucast)
qed

section \<open>The decoder\<close>

record 'd audio_decoder =
  ad_has_cb :: bool
  ad_opus :: 'd
  ad_sequence :: u32
  ad_packets :: u32
  ad_dropped :: u32

definition mumble_audio_decoder_init :: "bool \<Rightarrow> 'd option \<Rightarrow> 'd audio_decoder res" where
  "mumble_audio_decoder_init struct_ok created =
     rbind (mumble_codec_opus_create_decoder struct_ok created) (\<lambda>opus.
     Inr \<lparr>ad_has_cb = False, ad_opus = opus, ad_sequence = 0, ad_packets = 0, ad_dropped = 0\<rparr>)"

definition mumble_audio_decoder_set_cb :: "'d audio_decoder \<Rightarrow> bool \<Rightarrow> 'd audio_decoder" where
  "mumble_audio_decoder_set_cb decoder cb = decoder\<lparr>ad_has_cb := cb\<rparr>"

text \<open>
  The part of the decoder behind the sequence number: the codec's data and the position. The codec
  returns a number of samples, and the decoder advances by so many bytes.
\<close>

definition decode_payload ::
    "'d opus_decode \<Rightarrow> (bytes \<Rightarrow> int) \<Rightarrow> (int \<Rightarrow> bool) \<Rightarrow> byte \<Rightarrow> bytes \<Rightarrow> int \<Rightarrow> 'd audio_decoder \<Rightarrow> audio_packet
      \<Rightarrow> ('d audio_decoder \<times> audio_packet) comp" where
  "decode_payload opus_decode nb_samples malloc_ok type buf len decoder audio =
     cbind (if type = 4 then
         cbind (mumble_codec_opus_decode opus_decode nb_samples malloc_ok (ad_opus decoder) buf len)
           (\<lambda>(ret, pcm, pcm_size, terminated, opus').
           if \<not> 0 < ret then faults Assert_failed
           else ok (drop (nat ret) buf, len - ret, decoder\<lparr>ad_opus := opus'\<rparr>,
             audio\<lparr>ap_data := pcm, ap_samples := ret, ap_hz := 48000\<rparr>))
       else ok (buf, len, decoder, audio)) (\<lambda>(buf, len, decoder, audio).
     if 0 < len then
       if len \<noteq> 4 * 3 then faults Assert_failed
       else cbind (Some (peek buf 0 12)) (\<lambda>pos_buf.
         ok (decoder, audio\<lparr>ap_position := (float_at pos_buf 0, float_at pos_buf 1, float_at pos_buf 2)\<rparr>))
     else ok (decoder, audio))"

text \<open>The result is the return value, the decoder and what its callback is called with.\<close>

definition mumble_audio_decoder_decode ::
    "'d opus_decode \<Rightarrow> (bytes \<Rightarrow> int) \<Rightarrow> (int \<Rightarrow> bool) \<Rightarrow> 'd audio_decoder \<Rightarrow> bytes \<Rightarrow> int
      \<Rightarrow> (int \<times> 'd audio_decoder \<times> audio_packet option) comp" where
  "mumble_audio_decoder_decode opus_decode nb_samples malloc_ok decoder buf len =
     (let decoder = decoder\<lparr>ad_packets := ad_packets decoder + 1\<rparr> in
      if \<not> 8 < len then faults Assert_failed
      else
        cbind (Some (peek buf 0 1)) (\<lambda>header.
        let type = MUMBLE_AUDIO_TYPE (header ! 0) in
        if type = 1 then faults Assert_failed
        else
          let audio = empty_packet\<lparr>ap_codec := type, ap_target := ucast (MUMBLE_AUDIO_TARGET (header ! 0))\<rparr>;
              buf = drop 1 buf; len = len - 1
          in cbind (varint_decode buf len 0) (\<lambda>(ret, sourceid).
          if \<not> 0 < ret then faults Assert_failed
          else
            let audio = audio\<lparr>ap_source := sourceid\<rparr>; buf = drop (nat ret) buf; len = len - ret
            in cbind (varint_decode buf len 0) (\<lambda>(ret, seq).
            if \<not> 0 < ret then faults Assert_failed
            else
              let audio = audio\<lparr>ap_sequence := seq\<rparr>; buf = drop (nat ret) buf; len = len - ret in
              if seq < ucast (ad_sequence decoder)
              then ok (1, decoder\<lparr>ad_dropped := ad_dropped decoder + 1\<rparr>, None)
              else
                cbind (decode_payload opus_decode nb_samples malloc_ok type buf len
                    (decoder\<lparr>ad_sequence := ucast seq\<rparr>) audio) (\<lambda>(decoder, audio).
                ok (0, decoder, if ad_has_cb decoder then Some audio else None))))))"

section \<open>The encoder\<close>

record 'e audio_encoder =
  ae_opus :: "'e opus_encoder"
  ae_sequence :: u32
  ae_has_cb :: bool

definition mumble_audio_encoder_init ::
    "bool \<Rightarrow> (int \<Rightarrow> 'e option) \<Rightarrow> (u16 \<Rightarrow> u16 \<Rightarrow> int) \<Rightarrow> bytes option \<Rightarrow> bytes option \<Rightarrow> bytes option
      \<Rightarrow> u16 \<Rightarrow> u16 \<Rightarrow> int \<Rightarrow> 'e audio_encoder res" where
  "mumble_audio_encoder_init struct_ok create buffer_size mem1 mem2 mem3 sample_rate buffer_ms app =
     rbind (mumble_codec_opus_create_encoder struct_ok create buffer_size mem1 mem2 mem3 sample_rate buffer_ms app)
       (\<lambda>opus. Inr \<lparr>ae_opus = opus, ae_sequence = 0, ae_has_cb = False\<rparr>)"

definition mumble_audio_encoder_set_cb :: "'e audio_encoder \<Rightarrow> bool \<Rightarrow> 'e audio_encoder" where
  "mumble_audio_encoder_set_cb encoder cb = encoder\<lparr>ae_has_cb := cb\<rparr>"

text \<open>
  The callback of the codec. The state is the encoder's sequence number and the state of the encoder's
  own callback \<open>cb\<close>. \<open>malloc\<close> is taken to succeed, so that the assertion on its result holds; the contents of the memory
  it returns do not matter, for what is handed on has been written.
\<close>

definition encoder_codec_cb ::
    "(bytes \<Rightarrow> 'c \<Rightarrow> 'c res) \<Rightarrow> byte \<Rightarrow> u64 \<Rightarrow> position \<Rightarrow> bytes \<Rightarrow> bool \<Rightarrow> u32 \<times> 'c \<Rightarrow> (u32 \<times> 'c) res" where
  "encoder_codec_cb cb codec target pos buf bool_final = (\<lambda>(sequence, c).
     let packet_sequence = ucast sequence :: u64;
         sz = length buf;
         encoded_size = sz + 8 * 3 + 12 + 1;
         encoded_data = replicate encoded_size 0
     in rbind (poke encoded_data 0 [push_bit 5 codec OR ucast (target AND 0x1F)]) (\<lambda>encoded_data.
        rbind (varint_encode packet_sequence (drop 1 encoded_data) (int encoded_size) 0) (\<lambda>(ret, tail, written).
        if ret \<noteq> 0 then Inl Assert_failed
        else
          let encoded_data = take 1 encoded_data @ tail; position = 1 + nat written in
          if \<not> int sz < int encoded_size - int position then Inl Assert_failed
          else
            rbind (poke encoded_data position buf) (\<lambda>encoded_data.
            let position = position + sz in
            if \<not> 12 < int encoded_size - int position then Inl Assert_failed
            else
              rbind (poke encoded_data position (position_bytes pos)) (\<lambda>encoded_data.
              rbind (cb (take position encoded_data) c) (\<lambda>c'.
              Inr (sequence + 1, c')))))))"

text \<open>A call of the encoder's own callback, when there is none, jumps to the null pointer.\<close>

definition mumble_audio_encoder_encode ::
    "'e opus_encode \<Rightarrow> (bytes \<Rightarrow> 'c \<Rightarrow> 'c res) \<Rightarrow> u64 \<Rightarrow> bytes \<Rightarrow> nat \<Rightarrow> position \<Rightarrow> 'e audio_encoder \<Rightarrow> 'c
      \<Rightarrow> ('e audio_encoder \<times> 'c) comp" where
  "mumble_audio_encoder_encode opus_encode cb target pcm samples pos encoder c =
     (let cb = if ae_has_cb encoder then cb else (\<lambda>buf c. Inl Null_deref) in
      cbind (mumble_codec_opus_encode opus_encode (encoder_codec_cb cb 4 target pos) pcm samples False
          (ae_opus encoder) (ae_sequence encoder, c))
        (\<lambda>(opus', sequence', c'). ok (encoder\<lparr>ae_opus := opus', ae_sequence := sequence'\<rparr>, c')))"

section \<open>Packets on the wire\<close>

definition audio_header :: "byte \<Rightarrow> u64 \<Rightarrow> byte" where
  "audio_header codec target = push_bit 5 codec OR ucast (target AND 0x1F)"

text \<open>What a client sends, and what the server makes of it: it inserts the number of the sender.\<close>

definition sent_packet :: "byte \<Rightarrow> u64 \<Rightarrow> u32 \<Rightarrow> bytes \<Rightarrow> bytes" where
  "sent_packet codec target sequence payload =
     audio_header codec target # varint_bytes (ucast sequence) @ payload"

definition relayed :: "u64 \<Rightarrow> bytes \<Rightarrow> bytes" where
  "relayed source packet = hd packet # varint_bytes source @ tl packet"

lemma position_bytes_length [simp]: "length (position_bytes p) = 12"
  by (cases p) (simp add: position_bytes_def float_bytes_def)

lemma encoder_codec_cb_sends:
  "encoder_codec_cb cb codec target pos buf fin (sequence, c) =
     rbind (cb (sent_packet codec target sequence buf) c) (\<lambda>c'. Inr (sequence + 1, c'))"
proof -
  let ?v = "varint_bytes (ucast sequence)" and ?h = "push_bit 5 codec OR ucast (target AND 0x1F)"
  let ?n = "length buf + 8 * 3 + 12"
  have len: "length ?v \<le> 9" by (rule varint_bytes_length)
  have enc: "varint_encode (ucast sequence) (replicate ?n 0) (int (?n + 1)) 0
      = Inr (0, ?v @ drop (length ?v) (replicate ?n 0), int (length ?v))"
    using len by (intro varint_encode_eq) (simp_all add: varint_encode_size_eq)
  have poke0: "poke (replicate (?n + 1) 0) 0 [?h] = Inr (?h # replicate ?n 0)"
    by (simp add: poke_def)
  have fit1: "int (length buf) < int (?n + 1) - int (1 + length ?v)"
    and fit2: "12 < int (?n + 1) - int (1 + length ?v + length buf)"
    using len by simp_all
  show ?thesis
    using len enc unfolding encoder_codec_cb_def case_prod_conv Let_def poke0 rbind_simps
    by (simp add: sent_packet_def audio_header_def)
qed

lemma audio_header_fields:
  "MUMBLE_AUDIO_TYPE (audio_header 4 t) = 4"
  "ucast (MUMBLE_AUDIO_TARGET (audio_header 4 t)) = t AND 0x1F"
proof -
  have four: "(4 :: byte) = push_bit 2 1" by simp
  show "MUMBLE_AUDIO_TYPE (audio_header 4 t) = 4"
    unfolding byte_eq_bits all_less_8 MUMBLE_AUDIO_TYPE_def audio_header_def
    by (simp add: bit_simps byte_bits)
  show "ucast (MUMBLE_AUDIO_TARGET (audio_header 4 t)) = t AND 0x1F"
  proof (rule bit_word_eqI)
    fix n assume "n < LENGTH(64)"
    show "bit (ucast (MUMBLE_AUDIO_TARGET (audio_header 4 t)) :: u64) n = bit (t AND 0x1F) n"
      by (cases "n < 5") (auto simp: MUMBLE_AUDIO_TARGET_def audio_header_def bit_simps byte_bits)
  qed
qed

lemma varint_decode_exact:
  assumes "\<not> bit v 31" and "int (length (varint_bytes v)) \<le> sz"
  shows "varint_decode (varint_bytes v @ rest) sz r = ok (int (length (varint_bytes v)), v)"
  using varint_decode_bytes [of v sz rest r] assms by (simp add: varint_encode_size_eq)

text \<open>The decoder on a packet that starts with a header, a source and a sequence number.\<close>

lemma decoder_on_packet:
  assumes "MUMBLE_AUDIO_TYPE h \<noteq> 1" and "\<not> bit source 31" and "\<not> bit seq 31"
    and buf: "buf = h # varint_bytes source @ varint_bytes seq @ rest" and "8 < length buf"
  shows "mumble_audio_decoder_decode od nb mok dec buf (int (length buf)) =
    (let dec = dec\<lparr>ad_packets := ad_packets dec + 1\<rparr> in
     if seq < ucast (ad_sequence dec) then ok (1, dec\<lparr>ad_dropped := ad_dropped dec + 1\<rparr>, None)
     else cbind (decode_payload od nb mok (MUMBLE_AUDIO_TYPE h) rest (int (length rest)) (dec\<lparr>ad_sequence := ucast seq\<rparr>)
        (empty_packet\<lparr>ap_codec := MUMBLE_AUDIO_TYPE h, ap_target := ucast (MUMBLE_AUDIO_TARGET h),
           ap_source := source, ap_sequence := seq\<rparr>))
        (\<lambda>(decoder, audio). ok (0, decoder, if ad_has_cb decoder then Some audio else None)))"
proof -
  let ?s = "varint_bytes source" and ?q = "varint_bytes seq"
  have d1: "varint_decode (?s @ ?q @ rest) (int (length buf) - 1) 0 = ok (int (length ?s), source)"
    by (rule varint_decode_exact [OF assms(2)]) (simp add: buf)
  have d2: "varint_decode (?q @ rest) (int (length buf) - 1 - int (length ?s)) 0 = ok (int (length ?q), seq)"
    by (rule varint_decode_exact [OF assms(3)]) (simp add: buf)
  have pos: "0 < length ?s" "0 < length ?q" by (rule varint_bytes_length)+
  have len: "int (length buf) - 1 - int (length ?s) - int (length ?q) = int (length rest)"
    by (simp add: buf)
  have peek: "peek buf 0 1 = Inr [h]" and tl: "drop 1 buf = ?s @ ?q @ rest"
    by (simp_all add: buf peek_def)
  have "8 < int (length buf)" using assms(5) by simp
  then show ?thesis
    using assms(1) pos
    unfolding mumble_audio_decoder_decode_def Let_def peek cbind_simps case_prod_conv tl
    by (simp add: d1 d2 len)
qed

text \<open>Behind an opus packet that the codec accepts there is nothing left for a position.\<close>

lemma decode_payload_opus:
  assumes "0 < length payload" and "length payload < 0x2000" and "mok (2 * nb payload)"
    and "od (ad_opus dec) payload (2 * nb payload) = (ret, pcm, d')"
    and "int (length (opus_packet payload)) \<le> ret"
  shows "decode_payload od nb mok 4 (opus_packet payload) (int (length (opus_packet payload))) dec audio
    = ok (dec\<lparr>ad_opus := d'\<rparr>, audio\<lparr>ap_data := pcm, ap_samples := ret, ap_hz := 48000\<rparr>)"
proof -
  have "length payload \<le> length (opus_packet payload)" by (simp add: opus_packet_def)
  then have "0 < ret" using assms(1,5) by linarith
  from opus_decode_packet [where opus_decode = od and nb_samples = nb and malloc_ok = mok, OF assms(1-4) this]
  show ?thesis
    using assms(5) \<open>0 < ret\<close> by (simp add: decode_payload_def)
qed

section \<open>The sender's packets\<close>

definition log_audio :: "bytes \<Rightarrow> bytes list \<Rightarrow> bytes list res" where
  "log_audio packet log = Inr (log @ [packet])"

text \<open>Everything sent so far: opus packets behind consecutive sequence numbers.\<close>

definition sent_inv :: "nat \<Rightarrow> u64 \<Rightarrow> u32 \<Rightarrow> 'e opus_encoder \<times> u32 \<times> bytes list \<Rightarrow> bool" where
  "sent_inv k target seq0 s \<longleftrightarrow> (case s of (codec, sequence, log) \<Rightarrow>
     oe_framed_size codec = k \<and> length (oe_framed codec) = k \<and> k \<le> 0x2000
     \<and> sequence = seq0 + of_nat (length log)
     \<and> (\<forall>i < length log. \<exists>payload. log ! i = sent_packet 4 target (seq0 + of_nat i) (opus_packet payload)
          \<and> 0 < length payload \<and> length (opus_packet payload) < k))"

interpretation audio_sink: frame_sink "on_encoder_frame oe (encoder_codec_cb log_audio 4 target pos)" n "sent_inv k target seq0"
  for oe :: "'e opus_encode" and target pos n k seq0
proof
  fix s s' :: "'e opus_encoder \<times> u32 \<times> bytes list" and f fin
  assume inv: "sent_inv k target seq0 s"
    and run: "on_encoder_frame oe (encoder_codec_cb log_audio 4 target pos) f n fin s = Inr s'"
  obtain codec sequence log codec' c' where s: "s = (codec, sequence, log)" "s' = (codec', c')"
    by (cases s; cases s')
  obtain payload out enc' where o: "oe (oe_encoder codec) f (n div 2) (oe_codec_size codec) = (int (length payload), out, enc')"
    "payload = take (length payload) out" "0 < length payload"
    "length (opus_packet payload) < oe_framed_size codec"
    "encoder_codec_cb log_audio 4 target pos (opus_packet payload) fin (sequence, log) = Inr c'"
    "oe_framed_size codec' = oe_framed_size codec" "length (oe_framed codec') = oe_framed_size codec"
    "oe_buffer codec' = oe_buffer codec" "oe_codec_size codec' = oe_codec_size codec" "oe_encoder codec' = enc'"
    by (rule on_encoder_frame_packet [OF run [unfolded s]]) (use inv s in \<open>auto simp: sent_inv_def\<close>)
  from o(5) have c': "c' = (sequence + 1, log @ [sent_packet 4 target sequence (opus_packet payload)])"
    by (simp add: encoder_codec_cb_sends log_audio_def)
  show "sent_inv k target seq0 s'"
    using inv o(3,4,6,7) unfolding s c' by (auto simp: sent_inv_def nth_append less_Suc_eq algebra_simps)
qed

definition wf_audio_encoder :: "'e audio_encoder \<Rightarrow> bool" where
  "wf_audio_encoder enc \<longleftrightarrow> wf_opus_encoder (ae_opus enc) \<and> ae_has_cb enc"

lemma audio_encode_sends:
  assumes "wf_audio_encoder enc"
    and "mumble_audio_encoder_encode oe log_audio target pcm n pos enc [] = ok (enc', log)"
  shows "wf_audio_encoder enc' \<and> sent_inv (oe_framed_size (ae_opus enc)) target (ae_sequence enc)
    (ae_opus enc', ae_sequence enc', log)"
proof -
  let ?cb = "on_encoder_frame oe (encoder_codec_cb log_audio 4 target pos)" and ?codec = "ae_opus enc"
  obtain data b c1 where w: "mumble_buffer_write ?cb data False (oe_buffer ?codec) (?codec, ae_sequence enc, [])
      = ok (b, c1, ae_sequence enc', log)" and enc': "ae_opus enc' = c1\<lparr>oe_buffer := b\<rparr>" "ae_has_cb enc'"
    using assms by (auto simp: mumble_audio_encoder_encode_def mumble_codec_opus_encode_def cbind_ok_iff wf_audio_encoder_def)
  have "sent_inv (oe_framed_size ?codec) target (ae_sequence enc) (?codec, ae_sequence enc, [])"
    using assms(1) by (simp add: sent_inv_def wf_opus_encoder_def wf_audio_encoder_def)
  from audio_sink.write_inv [OF _ refl this w] assms(1)
  have "sent_inv (oe_framed_size ?codec) target (ae_sequence enc) (c1, ae_sequence enc', log)" "wf_buffer b"
    by (simp_all add: wf_opus_encoder_def wf_audio_encoder_def)
  then show ?thesis
    by (auto simp: enc' sent_inv_def wf_opus_encoder_def wf_audio_encoder_def)
qed

section \<open>Receiving\<close>

text \<open>A run of packets through the decoder: what its callback is handed, in order.\<close>

fun audio_deliver ::
    "'d opus_decode \<Rightarrow> (bytes \<Rightarrow> int) \<Rightarrow> (int \<Rightarrow> bool) \<Rightarrow> 'd audio_decoder \<Rightarrow> bytes list
      \<Rightarrow> ('d audio_decoder \<times> audio_packet list) comp" where
  "audio_deliver od nb mok dec [] = ok (dec, [])"
| "audio_deliver od nb mok dec (p # ps) =
     cbind (mumble_audio_decoder_decode od nb mok dec p (int (length p))) (\<lambda>(_, dec', delivered).
     cbind (audio_deliver od nb mok dec' ps) (\<lambda>(dec'', log).
     ok (dec'', case delivered of None \<Rightarrow> log | Some audio \<Rightarrow> audio # log)))"

lemma decode_payload_keeps:
  assumes "decode_payload od nb mok type buf len dec audio = ok (dec', audio')"
  shows "ad_sequence dec' = ad_sequence dec \<and> ad_packets dec' = ad_packets dec \<and> ad_dropped dec' = ad_dropped dec
    \<and> ad_has_cb dec' = ad_has_cb dec \<and> ap_sequence audio' = ap_sequence audio"
  using assms
  by (auto simp: decode_payload_def cbind_ok_iff split: if_splits)

lemma decoder_step:
  assumes "mumble_audio_decoder_decode od nb mok dec buf len = ok (ret, dec', delivered)" and "ad_has_cb dec"
  shows "ad_has_cb dec' \<and> ad_packets dec' = ad_packets dec + 1 \<and>
    (case delivered of
       None \<Rightarrow> ret = 1 \<and> ad_sequence dec' = ad_sequence dec \<and> ad_dropped dec' = ad_dropped dec + 1
     | Some audio \<Rightarrow> ret = 0 \<and> ad_sequence dec' = ucast (ap_sequence audio) \<and> ad_dropped dec' = ad_dropped dec
         \<and> ucast (ad_sequence dec) \<le> ap_sequence audio)"
  using assms
  by (auto simp: mumble_audio_decoder_decode_def Let_def cbind_ok_iff not_less
      dest!: decode_payload_keeps split: if_splits)

lemma audio_deliver_ordered:
  assumes "audio_deliver od nb mok dec packets = ok (dec', log)" and "ad_has_cb dec"
    and "\<forall>audio \<in> set log. ap_sequence audio < 2 ^ 32"
  shows "sorted (map ap_sequence log) \<and> (\<forall>audio \<in> set log. ucast (ad_sequence dec) \<le> ap_sequence audio)
    \<and> ad_packets dec' = ad_packets dec + of_nat (length packets)
    \<and> ad_dropped dec' = ad_dropped dec + of_nat (length packets) - of_nat (length log)"
  using assms
proof (induction packets arbitrary: dec log)
  case (Cons p ps)
  then obtain ret dec1 delivered log1 where
    d: "mumble_audio_decoder_decode od nb mok dec p (int (length p)) = ok (ret, dec1, delivered)"
    and r: "audio_deliver od nb mok dec1 ps = ok (dec', log1)"
    and log: "log = (case delivered of None \<Rightarrow> log1 | Some audio \<Rightarrow> audio # log1)"
    by (auto simp: cbind_ok_iff)
  note step = decoder_step [OF d Cons.prems(2)]
  have IH: "sorted (map ap_sequence log1) \<and> (\<forall>audio \<in> set log1. ucast (ad_sequence dec1) \<le> ap_sequence audio)
    \<and> ad_packets dec' = ad_packets dec1 + of_nat (length ps)
    \<and> ad_dropped dec' = ad_dropped dec1 + of_nat (length ps) - of_nat (length log1)"
    using Cons.prems(3) step log by (intro Cons.IH [OF r]) (auto split: option.splits)
  show ?case
  proof (cases delivered)
    case None
    then show ?thesis using step log IH by (simp add: algebra_simps)
  next
    case (Some audio)
    then have "ap_sequence audio < 2 ^ 32" using Cons.prems(3) log by simp
    then have "ucast (ucast (ap_sequence audio) :: u32) = ap_sequence audio" by (rule ucast_down_up)
    moreover have "ad_sequence dec1 = ucast (ap_sequence audio)" "ucast (ad_sequence dec) \<le> ap_sequence audio"
      "ad_dropped dec1 = ad_dropped dec" "ad_packets dec1 = ad_packets dec + 1"
      using step Some by simp_all
    ultimately show ?thesis using Some log IH by (auto simp: algebra_simps intro: order_trans)
  qed
qed simp

lemma relayed_packet_decodes:
  assumes "payload \<noteq> []" and "length payload < 0x2000" and "mok (2 * nb payload)"
    and "od (ad_opus dec) payload (2 * nb payload) = (ret, pcm, d')"
    and "int (length (opus_packet payload)) \<le> ret"
    and "\<not> bit source 31" and "\<not> bit sequence 31" and "ad_sequence dec \<le> sequence" and "ad_has_cb dec"
    and "p = relayed source (sent_packet 4 target sequence (opus_packet payload))" and "8 < length p"
  shows "mumble_audio_decoder_decode od nb mok dec p (int (length p))
    = ok (0, dec\<lparr>ad_packets := ad_packets dec + 1, ad_sequence := sequence, ad_opus := d'\<rparr>,
        Some \<lparr>ap_codec = 4, ap_data = pcm, ap_hz = 48000, ap_samples = ret, ap_position = (0, 0, 0),
          ap_sequence = ucast sequence, ap_source = source, ap_target = target AND 0x1F\<rparr>)"
proof -
  have p: "p = audio_header 4 target # varint_bytes source @ varint_bytes (ucast sequence) @ opus_packet payload"
    using assms(10) by (simp add: relayed_def sent_packet_def)
  have "\<not> bit (ucast sequence :: u64) 31"
    using assms(7) by (simp add: bit_simps)
  moreover have "ucast (ucast sequence :: u64) = sequence"
    by (rule bit_word_eqI) (simp add: bit_simps)
  moreover have "\<not> (ucast sequence :: u64) < ucast (ad_sequence dec)"
    using assms(8) by (simp add: not_less unat_up_ucast word_le_nat_alt)
  moreover have "0 < length payload" using assms(1) by simp
  ultimately show ?thesis
    using assms(9) decoder_on_packet [where od = od and nb = nb and mok = mok and dec = dec, OF _ assms(6) _ p assms(11)]
      decode_payload_opus [where od = od and nb = nb and mok = mok, OF _ assms(2,3) _ assms(5)] assms(4)
    by (simp add: audio_header_fields Let_def empty_packet_def)
qed

lemma audio_encode_fits:
  assumes "wf_audio_encoder enc" and "oe_framed_size (ae_opus enc) \<le> 960"
    and "mumble_audio_encoder_encode oe log_audio target pcm n pos enc [] = ok (enc', log)"
  shows "ae_sequence enc' = ae_sequence enc + of_nat (length log)"
    and "\<forall>i < length log. \<exists>payload. log ! i = sent_packet 4 target (ae_sequence enc + of_nat i) (opus_packet payload)
        \<and> payload \<noteq> [] \<and> length (log ! i) \<le> 1020"
proof -
  have len: "length (sent_packet 4 target q (opus_packet p)) \<le> 1020" if "length (opus_packet p) < 960" for q p
    using that varint_bytes_length(2) [of "ucast q"] by (simp add: sent_packet_def)
  have inv: "sent_inv (oe_framed_size (ae_opus enc)) target (ae_sequence enc) (ae_opus enc', ae_sequence enc', log)"
    using audio_encode_sends [OF assms(1,3)] by simp
  from this have seq: "ae_sequence enc' = ae_sequence enc + of_nat (length log)"
    by (simp add: sent_inv_def)
  have each: "\<exists>payload. log ! i = sent_packet 4 target (ae_sequence enc + of_nat i) (opus_packet payload)
        \<and> 0 < length payload \<and> length (opus_packet payload) < oe_framed_size (ae_opus enc)" if "i < length log" for i
    using that inv by (simp add: sent_inv_def)
  have "\<exists>payload. log ! i = sent_packet 4 target (ae_sequence enc + of_nat i) (opus_packet payload)
        \<and> payload \<noteq> [] \<and> length (log ! i) \<le> 1020" if "i < length log" for i
  proof -
    obtain payload where p: "log ! i = sent_packet 4 target (ae_sequence enc + of_nat i) (opus_packet payload)"
        "0 < length payload" "length (opus_packet payload) < oe_framed_size (ae_opus enc)"
      using each [OF \<open>i < length log\<close>] by blast
    have "length (log ! i) \<le> 1020"
      unfolding p(1) using p(3) assms(2) by (intro len) linarith
    with p(1,2) show ?thesis by (intro exI [of _ payload]) simp
  qed
  with seq show "ae_sequence enc' = ae_sequence enc + of_nat (length log)"
    and "\<forall>i < length log. \<exists>payload. log ! i = sent_packet 4 target (ae_sequence enc + of_nat i) (opus_packet payload)
        \<and> payload \<noteq> [] \<and> length (log ! i) \<le> 1020" by simp_all
qed

section \<open>Properties\<close>

text \<open>
  C21: Whatever PCM is sent, the packets handed to the transport are numbered consecutively from the encoder's
  sequence number, carry the header, the number and a framed opus packet, and fit a datagram of 1020
  bytes if the encoder's buffer is the program's of 960 bytes.
\<close>

theorem audio_sent_in_sequence:
  assumes "wf_audio_encoder enc" and "oe_framed_size (ae_opus enc) \<le> 960"
    and "mumble_audio_encoder_encode oe log_audio target pcm n pos enc [] = ok (enc', log)"
  shows "ae_sequence enc' = ae_sequence enc + of_nat (length log)
    \<and> (\<forall>i < length log. \<exists>payload. log ! i = sent_packet 4 target (ae_sequence enc + of_nat i) (opus_packet payload)
        \<and> payload \<noteq> [] \<and> length (log ! i) \<le> 1020)"
  using audio_encode_fits [OF assms] by blast

text \<open>
  A packet of opus data that a client sent and the server relayed with its number is delivered with that
  number, its target, its sequence number and the samples opus made of exactly the sender's payload, if
  it is not older than the last one and opus returns at least as many samples as the data has bytes (the
  decoder advances by samples); bit 31 of the numbers must be clear.
\<close>

theorem audio_relay_roundtrip:
  assumes "payload \<noteq> []" and "length payload < 0x2000" and "mok (2 * nb payload)"
    and "od (ad_opus dec) payload (2 * nb payload) = (ret, pcm, d')"
    and "int (length (opus_packet payload)) \<le> ret"
    and "\<not> bit source 31" and "\<not> bit sequence 31" and "ad_sequence dec \<le> sequence" and "ad_has_cb dec"
    and "p = relayed source (sent_packet 4 target sequence (opus_packet payload))" and "8 < length p"
  shows "mumble_audio_decoder_decode od nb mok dec p (int (length p))
    = ok (0, dec\<lparr>ad_packets := ad_packets dec + 1, ad_sequence := sequence, ad_opus := d'\<rparr>,
        Some \<lparr>ap_codec = 4, ap_data = pcm, ap_hz = 48000, ap_samples = ret, ap_position = (0, 0, 0),
          ap_sequence = ucast sequence, ap_source = source, ap_target = target AND 0x1F\<rparr>)"
  using assms by (rule relayed_packet_decodes)

text \<open>
  C38: A position behind the opus data cannot be received: whatever bytes follow the framed packet, the codec's
  assertion that its packet is the last thing fails.
\<close>

theorem audio_position_fails:
  assumes "payload \<noteq> []" and "length payload < 0x2000" and "extra \<noteq> []"
    and "\<not> bit source 31" and "\<not> bit sequence 31" and "ad_sequence dec \<le> sequence"
    and "p = relayed source (sent_packet 4 target sequence (opus_packet payload @ extra))" and "8 < length p"
    and "length p < 2 ^ 31"
  shows "mumble_audio_decoder_decode od nb mok dec p (int (length p)) = faults Assert_failed"
proof -
  let ?v = "of_nat (length payload) :: u64"
  have p: "p = audio_header 4 target # varint_bytes source @ varint_bytes (ucast sequence) @ opus_packet payload @ extra"
    using assms(7) by (simp add: relayed_def sent_packet_def)
  let ?rest = "opus_packet payload @ extra"
  have "length ?rest < 2 ^ 31" using assms(9) by (simp add: p)
  have codec: "mumble_codec_opus_decode od nb mok d ?rest (int (length ?rest)) = faults Assert_failed" for d
  proof -
    note w = small_length_word [OF assms(2)]
    have dec: "varint_decode ?rest (int (length ?rest)) 0 = ok (int (length (varint_bytes ?v)), ?v)"
      unfolding opus_packet_def append_assoc by (rule varint_decode_exact [OF w(1)]) simp
    have left: "int (length ?rest) - int (length (varint_bytes ?v)) = int (length payload + length extra)"
      by (simp add: opus_packet_def)
    have "length payload + length extra < 2 ^ 31"
      using \<open>length ?rest < 2 ^ 31\<close> by (simp add: opus_packet_def)
    then have "unat (word_of_int (int (length payload + length extra)) :: u64) = length payload + length extra"
      by (simp add: unsigned_of_nat take_bit_nat_eq_self del: of_nat_add)
    then have "?v \<noteq> word_of_int (int (length payload + length extra))"
      using w(3) assms(3) by auto
    then have "?v \<noteq> word_of_int (int (length ?rest) - int (length (varint_bytes ?v)))"
      unfolding left .
    then show ?thesis
      unfolding mumble_codec_opus_decode_def dec cbind_simps case_prod_conv
      by (simp only: Let_def w if_False simp_thms) simp
  qed
  have "\<not> bit (ucast sequence :: u64) 31"
    using assms(5) by (simp add: bit_simps)
  moreover have "\<not> (ucast sequence :: u64) < ucast (ad_sequence dec)"
    using assms(6) by (simp add: not_less unat_up_ucast word_le_nat_alt)
  ultimately show ?thesis
    using decoder_on_packet [where od = od and nb = nb and mok = mok and dec = dec, OF _ assms(4) _ p assms(8)]
    by (simp add: audio_header_fields Let_def decode_payload_def codec [unfolded length_append of_nat_add])
qed

text \<open>
  C13: Packets are delivered in the order of their sequence numbers, whatever order they arrive in, with none older
  than the decoder's number; every packet is counted, and what is not delivered is counted as dropped, for
  sequence numbers that fit the decoder's 32 bits.
\<close>

theorem audio_delivered_in_order:
  assumes "audio_deliver od nb mok dec packets = ok (dec', log)" and "ad_has_cb dec"
    and "\<forall>audio \<in> set log. ap_sequence audio < 2 ^ 32"
  shows "sorted (map ap_sequence log) \<and> (\<forall>audio \<in> set log. ucast (ad_sequence dec) \<le> ap_sequence audio)
    \<and> ad_packets dec' = ad_packets dec + of_nat (length packets)
    \<and> ad_dropped dec' = ad_dropped dec + of_nat (length packets) - of_nat (length log)"
  using assms by (rule audio_deliver_ordered)

section \<open>Examples\<close>

definition example_decoder :: "u32 \<Rightarrow> unit audio_decoder" where
  "example_decoder seq = \<lparr>ad_has_cb = True, ad_opus = (), ad_sequence = seq, ad_packets = 0, ad_dropped = 0\<rparr>"

definition example_samples :: "unit opus_decode" where
  "example_samples d data k = (480, map ucast data, ())"

definition example_relayed :: "u32 \<Rightarrow> bytes" where
  "example_relayed sequence = relayed 7 (sent_packet 4 1 sequence (opus_packet [1, 2, 3, 4, 5]))"

lemma ucast_twice: "(ucast (ucast (w :: u32) :: u64) :: byte) = ucast w"
  by (rule bit_word_eqI) (simp add: bit_simps)

lemma small_sequence_bits:
  assumes "(sequence :: u32) < 0x80"
  shows "\<not> bit sequence 31" and "\<not> bit (ucast sequence :: u64) 31"
proof -
  have "(ucast sequence :: u64) < 2 ^ 7" using assms by (simp add: word_less_nat_alt unat_up_ucast)
  from word_less_bit [OF this, of 31] show "\<not> bit (ucast sequence :: u64) 31" by auto
  then show "\<not> bit sequence 31" by (simp add: bit_simps)
qed

lemma varint_bytes_small: "v < 0x80 \<Longrightarrow> varint_bytes v = [ucast v]"
  by (simp add: varint_bytes_def varint_writes_def)

lemma example_relayed_eq:
  "sequence < 0x80 \<Longrightarrow> example_relayed sequence = [0x81, 7, ucast sequence, 5, 1, 2, 3, 4, 5]"
  by (simp add: example_relayed_def relayed_def sent_packet_def opus_packet_def varint_bytes_small audio_header_def
      word_less_nat_alt unat_up_ucast ucast_twice)

lemma example_relayed_delivered:
  assumes "sequence < 0x80" and "ad_sequence dec \<le> sequence" and "ad_has_cb dec"
  shows "mumble_audio_decoder_decode example_samples (\<lambda>data. 480) (\<lambda>k. True) dec (example_relayed sequence)
     (int (length (example_relayed sequence)))
   = ok (0, dec\<lparr>ad_packets := ad_packets dec + 1, ad_sequence := sequence\<rparr>,
       Some \<lparr>ap_codec = 4, ap_data = [1, 2, 3, 4, 5], ap_hz = 48000, ap_samples = 480, ap_position = (0, 0, 0),
         ap_sequence = ucast sequence, ap_source = 7, ap_target = 1\<rparr>)"
proof -
  have "\<not> bit sequence 31"
    using assms(1) by (rule small_sequence_bits)
  moreover have "length (example_relayed sequence) = 9"
    using assms(1) by (simp add: example_relayed_eq)
  ultimately show ?thesis
    using relayed_packet_decodes [of "[1, 2, 3, 4, 5]" "\<lambda>k. True" "\<lambda>data. 480" example_samples dec
        480 "[1, 2, 3, 4, 5]" "()" 7 sequence "example_relayed sequence" 1] assms(2,3)
    by (simp add: example_samples_def opus_packet_def varint_bytes_small example_relayed_def)
qed

lemma example_relayed_dropped:
  assumes "sequence < 0x80" and "sequence < ad_sequence dec"
  shows "mumble_audio_decoder_decode example_samples (\<lambda>data. 480) (\<lambda>k. True) dec (example_relayed sequence)
     (int (length (example_relayed sequence)))
   = ok (1, dec\<lparr>ad_packets := ad_packets dec + 1, ad_dropped := ad_dropped dec + 1\<rparr>, None)"
proof -
  have "\<not> bit (ucast sequence :: u64) 31"
    using assms(1) by (rule small_sequence_bits)
  moreover have "length (example_relayed sequence) = 9"
    using assms(1) by (simp add: example_relayed_eq)
  moreover have "example_relayed sequence
      = 0x81 # varint_bytes 7 @ varint_bytes (ucast sequence) @ opus_packet [1, 2, 3, 4, 5]"
    by (simp add: example_relayed_def relayed_def sent_packet_def audio_header_def)
  moreover have "(ucast sequence :: u64) < ucast (ad_sequence dec)"
    using assms(2) by (simp add: word_less_nat_alt unat_up_ucast)
  ultimately show ?thesis
    using decoder_on_packet [of "0x81" 7 "ucast sequence" "example_relayed sequence" "opus_packet [1, 2, 3, 4, 5]"
        example_samples "\<lambda>data. 480" "\<lambda>k. True" dec]
    by (simp add: MUMBLE_AUDIO_TYPE_def)
qed

theorem audio_delivered_in_order_witness:
  "\<exists>dec' log. audio_deliver example_samples (\<lambda>data. 480) (\<lambda>k. True) (example_decoder 3)
       [example_relayed 5, example_relayed 4, example_relayed 6] = ok (dec', log)
    \<and> map ap_sequence log = [5, 6] \<and> sorted (map ap_sequence log) \<and> ad_dropped dec' = 1"
proof -
  let ?go = "mumble_audio_decoder_decode example_samples (\<lambda>data. 480) (\<lambda>k. True)"
  define d1 where "d1 = example_decoder 3\<lparr>ad_packets := 1, ad_sequence := 5\<rparr>"
  define d2 where "d2 = d1\<lparr>ad_packets := 2, ad_dropped := 1\<rparr>"
  have "?go (example_decoder 3) (example_relayed 5) (int (length (example_relayed 5))) = ok (0, d1,
      Some (empty_packet\<lparr>ap_codec := 4, ap_data := [1, 2, 3, 4, 5], ap_hz := 48000, ap_samples := 480,
         ap_sequence := 5, ap_source := 7, ap_target := 1\<rparr>))"
    using example_relayed_delivered [of 5 "example_decoder 3"] by (simp add: example_decoder_def d1_def empty_packet_def)
  moreover have "?go d1 (example_relayed 4) (int (length (example_relayed 4))) = ok (1, d2, None)"
    using example_relayed_dropped [of 4 d1] by (simp add: example_decoder_def d1_def d2_def)
  moreover have "\<exists>d3. ?go d2 (example_relayed 6) (int (length (example_relayed 6))) = ok (0, d3,
      Some (empty_packet\<lparr>ap_codec := 4, ap_data := [1, 2, 3, 4, 5], ap_hz := 48000, ap_samples := 480,
         ap_sequence := 6, ap_source := 7, ap_target := 1\<rparr>))"
    using example_relayed_delivered [of 6 d2] by (simp add: example_decoder_def d1_def d2_def empty_packet_def)
  ultimately obtain dec' log where run: "audio_deliver example_samples (\<lambda>data. 480) (\<lambda>k. True) (example_decoder 3)
       [example_relayed 5, example_relayed 4, example_relayed 6] = ok (dec', log)" "map ap_sequence log = [5, 6]"
    by auto
  moreover have "ad_has_cb (example_decoder 3)" "ad_dropped (example_decoder 3) = 0"
    by (simp_all add: example_decoder_def)
  moreover have "length log = 2" using run(2) by (metis length_map length_Cons list.size(3) numeral_2_eq_2)
  moreover have "\<forall>audio \<in> set log. ap_sequence audio < 2 ^ 32"
  proof
    fix audio assume "audio \<in> set log"
    then have "ap_sequence audio \<in> set (map ap_sequence log)" by simp
    then show "ap_sequence audio < 2 ^ 32" unfolding run(2) by (auto simp: word_less_nat_alt)
  qed
  ultimately show ?thesis
    using audio_delivered_in_order [OF run(1)] by simp
qed

theorem audio_relay_roundtrip_witness:
  "mumble_audio_decoder_decode example_samples (\<lambda>data. 480) (\<lambda>k. True) (example_decoder 3) (example_relayed 4)
     (int (length (example_relayed 4)))
   = ok (0, example_decoder 3\<lparr>ad_packets := 1, ad_sequence := 4\<rparr>,
       Some \<lparr>ap_codec = 4, ap_data = [1, 2, 3, 4, 5], ap_hz = 48000, ap_samples = 480, ap_position = (0, 0, 0),
         ap_sequence = 4, ap_source = 7, ap_target = 1\<rparr>)"
proof -
  have "length (example_relayed 4) = 9"
    by (simp add: example_relayed_eq)
  then show ?thesis
    using audio_relay_roundtrip [of "[1, 2, 3, 4, 5]" "\<lambda>k. True" "\<lambda>data. 480" example_samples "example_decoder 3"
        480 "[1, 2, 3, 4, 5]" "()" 7 4 "example_relayed 4" 1]
    by (simp add: example_samples_def example_decoder_def opus_packet_def varint_bytes_small example_relayed_def)
qed

theorem audio_position_fails_witness:
  "mumble_audio_decoder_decode example_samples (\<lambda>data. 480) (\<lambda>k. True) (example_decoder 3)
     (relayed 7 (sent_packet 4 1 4 (opus_packet [9, 9] @ position_bytes (0, 0, 0)))) 18 = faults Assert_failed"
proof -
  let ?p = "relayed 7 (sent_packet 4 1 4 (opus_packet [9, 9] @ position_bytes (0, 0, 0)))"
  have len: "length ?p = 18"
    by (simp add: relayed_def sent_packet_def opus_packet_def varint_bytes_small)
  moreover have "position_bytes (0, 0, 0) \<noteq> []"
    using position_bytes_length [of "(0, 0, 0)"] by (metis length_0_conv zero_neq_numeral)
  ultimately show ?thesis
    using audio_position_fails [of "[9, 9]" "position_bytes (0, 0, 0)" 7 4 "example_decoder 3" ?p 1 example_samples]
    by (simp add: example_decoder_def)
qed

definition example_audio_encoder :: "unit audio_encoder" where
  "example_audio_encoder = \<lparr>ae_opus = example_opus_encoder, ae_sequence = 9, ae_has_cb = True\<rparr>"

lemma example_audio_run:
  "\<exists>enc'. mumble_audio_encoder_encode example_opus_encode log_audio 1 [1, 2, 3, 4, 5, 6] 3 (0, 0, 0)
       example_audio_encoder [] = ok (enc', [[0x81, 9, 2, 1, 2]]) \<and> ae_sequence enc' = 10"
proof -
  let ?cb = "on_encoder_frame example_opus_encode (encoder_codec_cb log_audio 4 1 (0, 0, 0))"
    and ?b = "oe_buffer example_opus_encoder"
  let ?c1 = "example_opus_encoder\<lparr>oe_framed := [2, 1, 2, 0]\<rparr>"
  have wf: "wf_buffer ?b" by (simp add: example_opus_encoder_def wf_buffer_def)
  have frames: "buffer_frames (b_allocated ?b) False (pending ?b @ [1, 2, 3, 4, 5, 6]) = ([([1, 2, 3, 4], False)], [5, 6])"
    by (simp add: example_opus_encoder_def pending_def buffer_frames.simps)
  have size: "varint_encode_size 2 = 1" by (simp add: varint_encode_size_def)
  have cb: "?cb [1, 2, 3, 4] 4 False (example_opus_encoder, 9, []) = Inr (?c1, 10, [[0x81, 9, 2, 1, 2]])"
    using varint_encode_eq [of 2 4 "[0, 0, 0, 0]" 0]
    by (simp add: size varint_bytes_small on_encoder_frame_def example_opus_encode_def example_opus_encoder_def
        encoder_codec_cb_sends sent_packet_def audio_header_def log_audio_def peek_def poke_def Let_def)
  have "b_allocated ?b = 4" by (simp add: example_opus_encoder_def)
  with buffer_write_frames [OF wf frames, of ?cb "(example_opus_encoder, 9, [])"] cb
  obtain b' where "mumble_buffer_write ?cb [1, 2, 3, 4, 5, 6] False ?b (example_opus_encoder, 9, [])
      = ok (b', ?c1, 10, [[0x81, 9, 2, 1, 2]])" by auto
  then have run: "mumble_audio_encoder_encode example_opus_encode log_audio 1 [1, 2, 3, 4, 5, 6] 3 (0, 0, 0)
       example_audio_encoder [] = ok (\<lparr>ae_opus = ?c1\<lparr>oe_buffer := b'\<rparr>, ae_sequence = 10, ae_has_cb = True\<rparr>, [[0x81, 9, 2, 1, 2]])"
    by (simp add: mumble_audio_encoder_encode_def mumble_codec_opus_encode_def example_audio_encoder_def)
  then show ?thesis by simp
qed

theorem audio_sent_in_sequence_witness:
  "\<exists>enc' log. mumble_audio_encoder_encode example_opus_encode log_audio 1 [1, 2, 3, 4, 5, 6] 3 (0, 0, 0)
       example_audio_encoder [] = ok (enc', log)
    \<and> log = [[0x81, 9, 2, 1, 2]] \<and> ae_sequence enc' = 10"
proof -
  obtain enc' where run: "mumble_audio_encoder_encode example_opus_encode log_audio 1 [1, 2, 3, 4, 5, 6] 3 (0, 0, 0)
       example_audio_encoder [] = ok (enc', [[0x81, 9, 2, 1, 2]])"
    using example_audio_run by blast
  have "wf_audio_encoder example_audio_encoder" "oe_framed_size (ae_opus example_audio_encoder) \<le> 960"
    by (simp_all add: wf_audio_encoder_def wf_opus_encoder_def example_audio_encoder_def example_opus_encoder_def wf_buffer_def)
  from audio_sent_in_sequence [OF this run] run show ?thesis
    by (auto simp: example_audio_encoder_def)
qed

end
