(* ===== verification/Frame_Codec.thy ===== *)
theory Frame_Codec
  imports Mumble_Prelude Codec_Interface
begin

text \<open>
  The frames of the TCP channel, \<^verbatim>\<open>lib/mumble/frame_decoder.c\<close> and \<^verbatim>\<open>lib/mumble/frame_encoder.c\<close>: a 16-bit
  type, a 32-bit length and a protobuf message. The decoder buffers what arrives; the encoder writes a
  message into its own buffer.

  protobuf-c is a parameter: \<open>unpack type data\<close> is what \<open>protobuf_c_message_unpack\<close> returns for the
  descriptor of the type, and a message carries its package, its name and the bytes it packs to.
\<close>

section \<open>Byte order\<close>

definition htons :: "u16 \<Rightarrow> bytes" where
  "htons w = [ucast (drop_bit 8 w), ucast w]"

definition ntohs :: "bytes \<Rightarrow> u16" where
  "ntohs bs = push_bit 8 (ucast (bs ! 0)) OR ucast (bs ! 1)"

definition htonl :: "u32 \<Rightarrow> bytes" where
  "htonl w = [ucast (drop_bit 24 w), ucast (drop_bit 16 w), ucast (drop_bit 8 w), ucast w]"

definition ntohl :: "bytes \<Rightarrow> u32" where
  "ntohl bs = push_bit 24 (ucast (bs ! 0)) OR push_bit 16 (ucast (bs ! 1)) OR push_bit 8 (ucast (bs ! 2))
     OR ucast (bs ! 3)"

lemma htons_length [simp]: "length (htons w) = 2"
  by (simp add: htons_def)

lemma htonl_length [simp]: "length (htonl w) = 4"
  by (simp add: htonl_def)

lemma ntohs_htons [simp]: "ntohs (htons w @ xs) = w"
proof (rule bit_word_eqI)
  fix n assume "n < LENGTH(16)"
  then show "bit (ntohs (htons w @ xs)) n = bit w n"
    by (cases "n < 8") (auto simp: ntohs_def htons_def bit_simps)
qed

lemma ntohl_htonl [simp]: "ntohl (htonl w @ xs) = w"
proof (rule bit_word_eqI)
  fix n assume n: "n < LENGTH(32)"
  then consider "n < 8" | "8 \<le> n" "n < 16" | "16 \<le> n" "n < 24" | "24 \<le> n" "n < 32" by fastforce
  then show "bit (ntohl (htonl w @ xs)) n = bit w n"
    by cases (auto simp: ntohl_def htonl_def bit_simps numeral_3_eq_3 numeral_2_eq_2)
qed

section \<open>The decoder\<close>

record frame_ctx =
  fc_buffer :: "bytes option"
  fc_allocated :: nat
  fc_size :: nat

abbreviation MUMBLE_FRAME_MAX_SIZE :: nat where
  "MUMBLE_FRAME_MAX_SIZE \<equiv> 2 ^ 20"

abbreviation MUMBLE_TYPE_COUNT :: nat where
  "MUMBLE_TYPE_COUNT \<equiv> 26"

text \<open>\<open>m\<close>: what \<open>malloc\<close> returned, the memory with its contents, or nothing.\<close>

definition mumble_frame_init :: "bytes option \<Rightarrow> frame_ctx res" where
  "mumble_frame_init m =
     (case m of None \<Rightarrow> Inl Assert_failed
      | Some mem \<Rightarrow> Inr \<lparr>fc_buffer = Some mem, fc_allocated = MUMBLE_FRAME_MAX_SIZE, fc_size = 0\<rparr>)"

definition mumble_frame_free :: "frame_ctx \<Rightarrow> frame_ctx" where
  "mumble_frame_free ctx =
     (if fc_buffer ctx \<noteq> None then ctx\<lparr>fc_buffer := None, fc_size := 0, fc_allocated := 0\<rparr> else ctx)"

definition fc_mem :: "frame_ctx \<Rightarrow> bytes" where
  "fc_mem ctx = (case fc_buffer ctx of None \<Rightarrow> [] | Some mem \<Rightarrow> mem)"

definition mumble_frame_size :: "frame_ctx \<Rightarrow> int" where
  "mumble_frame_size ctx =
     (if fc_size ctx < 2 + 4 then -1 else sint (ntohl (drop 2 (fc_mem ctx))))"

definition mumble_frame_type :: "frame_ctx \<Rightarrow> int" where
  "mumble_frame_type ctx = (if fc_size ctx < 2 then -1 else uint (ntohs (fc_mem ctx)))"

text \<open>
  The comparison of an \<open>int\<close> with an \<open>unsigned\<close> is one of \<open>unsigned\<close>s. The sum of \<open>int\<close>s wraps around
  (C leaves its overflow undefined, for the lengths from \<open>2 ^ 31 - 6\<close> to \<open>2 ^ 31 - 1\<close>).
\<close>

definition frame_total :: "frame_ctx \<Rightarrow> u32" where
  "frame_total ctx = word_of_int (mumble_frame_size ctx) + 6"

definition mumble_frame_ready :: "frame_ctx \<Rightarrow> bool" where
  "mumble_frame_ready ctx \<longleftrightarrow> frame_total ctx \<le> of_nat (fc_size ctx)"

definition mumble_frame_is_audio :: "frame_ctx \<Rightarrow> bool" where
  "mumble_frame_is_audio ctx \<longleftrightarrow> mumble_frame_type ctx = 1"

definition mumble_frame_append :: "frame_ctx \<Rightarrow> bytes \<Rightarrow> (bool \<times> frame_ctx) res" where
  "mumble_frame_append ctx buf =
     rbind (poke (fc_mem ctx) (fc_size ctx) buf) (\<lambda>mem.
     let ctx' = ctx\<lparr>fc_buffer := Some mem, fc_size := fc_size ctx + length buf\<rparr>
     in Inr (mumble_frame_ready ctx', ctx'))"

definition mumble_frame_pop :: "frame_ctx \<Rightarrow> int \<times> frame_ctx" where
  "mumble_frame_pop ctx =
     (if \<not> mumble_frame_ready ctx then (-1, ctx)
      else
        let n = unat (frame_total ctx);
            new_size = fc_size ctx - n;
            mem = take new_size (drop n (fc_mem ctx)) @ drop new_size (fc_mem ctx);
            ctx' = ctx\<lparr>fc_buffer := Some mem, fc_size := new_size\<rparr>
        in (if mumble_frame_ready ctx' then 1 else 0, ctx'))"

text \<open>The numbers of the messages in \<^verbatim>\<open>common.h\<close>, by the constant without its prefix \<open>MUMBLE_TYPE_\<close>.\<close>

definition message_types :: "(string \<times> nat) list" where
  "message_types =
     [(''VERSION'', 0), (''UDPTUNNEL'', 1), (''AUTHENTICATE'', 2), (''PING'', 3), (''REJECT'', 4),
      (''SERVER_SYNC'', 5), (''CHANNEL_REMOVE'', 6), (''CHANNEL_STATE'', 7), (''USER_REMOVE'', 8), (''USER_STATE'', 9),
      (''BAN_LIST'', 10), (''TEXT_MESSAGE'', 11), (''PERMISSION_DENIED'', 12), (''ACL'', 13), (''QUERY_USERS'', 14),
      (''CRYPT_SETUP'', 15), (''CONTEXT_ACTION_MODIFY'', 16), (''CONTEXT_ACTION'', 17), (''USER_LIST'', 18),
      (''VOICE_TARGET'', 19), (''PERMISSION_QUERY'', 20), (''CODEC_VERSION'', 21), (''USER_STATS'', 22),
      (''REQUEST_BLOB'', 23), (''SERVER_CONFIG'', 24), (''SUGGEST_CONFIG'', 25)]"

text \<open>
  The 26 descriptors, by message name. \<open>sizeof(descriptors)\<close> counts bytes, 120 for each descriptor on
  a 64-bit machine, so that the assertion lets through types that are not in the table.
\<close>

definition descriptor_names :: "string list" where
  "descriptor_names = map (\<lambda>s. ''MumbleProto.'' @ s)
     [''Version'', ''UDPTunnel'', ''Authenticate'', ''Ping'', ''Reject'', ''ServerSync'',
      ''ChannelRemove'', ''ChannelState'', ''UserRemove'', ''UserState'', ''BanList'',
      ''TextMessage'', ''PermissionDenied'', ''ACL'', ''QueryUsers'', ''CryptSetup'',
      ''ContextActionModify'', ''ContextAction'', ''UserList'', ''VoiceTarget'',
      ''PermissionQuery'', ''CodecVersion'', ''UserStats'', ''RequestBlob'', ''ServerConfig'',
      ''SuggestConfig'']"

definition descriptor :: "nat \<Rightarrow> string res" where
  "descriptor type =
     (if \<not> type < 120 * length descriptor_names then Inl Assert_failed
      else if type < length descriptor_names then Inr (descriptor_names ! type)
      else Inl Out_of_bounds)"

text \<open>
  The result is the return value and \<open>*message\<close> with the new state. The length passed to
  \<open>protobuf_c_message_unpack\<close> is a \<open>size_t\<close>: of a negative frame size it is beyond every buffer.
  The check \<open>message == NULL\<close> is of the argument, not of the unpacked message, and never true.
\<close>

definition mumble_frame_decode ::
    "(nat \<Rightarrow> bytes \<Rightarrow> 'm option) \<Rightarrow> frame_ctx \<Rightarrow> (int \<times> 'm option \<times> frame_ctx) res" where
  "mumble_frame_decode unpack ctx =
     (if \<not> mumble_frame_ready ctx then Inr (-1, None, ctx)
      else if mumble_frame_is_audio ctx then Inr (-2, None, ctx)
      else
        let type = nat (mumble_frame_type ctx); sz = mumble_frame_size ctx in
        rbind (descriptor type) (\<lambda>desc.
        if sz < 0 then Inl Out_of_bounds
        else rbind (peek (fc_mem ctx) 6 (nat sz)) (\<lambda>data.
        let (r, ctx') = mumble_frame_pop ctx in
        Inr (int type, unpack type data, ctx'))))"

section \<open>The encoder\<close>

record pb_message =
  pb_package :: string
  pb_name :: string
  pb_packed :: bytes

text \<open>The encoder has a table of its own, with the same flaw in its assertion.\<close>

definition encoder_descriptor_names :: "string list" where
  "encoder_descriptor_names =
     [''MumbleProto.Version'', ''MumbleProto.UDPTunnel'', ''MumbleProto.Authenticate'', ''MumbleProto.Ping'',
      ''MumbleProto.Reject'', ''MumbleProto.ServerSync'', ''MumbleProto.ChannelRemove'', ''MumbleProto.ChannelState'',
      ''MumbleProto.UserRemove'', ''MumbleProto.UserState'', ''MumbleProto.BanList'', ''MumbleProto.TextMessage'',
      ''MumbleProto.PermissionDenied'', ''MumbleProto.ACL'', ''MumbleProto.QueryUsers'', ''MumbleProto.CryptSetup'',
      ''MumbleProto.ContextActionModify'', ''MumbleProto.ContextAction'', ''MumbleProto.UserList'',
      ''MumbleProto.VoiceTarget'', ''MumbleProto.PermissionQuery'', ''MumbleProto.CodecVersion'',
      ''MumbleProto.UserStats'', ''MumbleProto.RequestBlob'', ''MumbleProto.ServerConfig'', ''MumbleProto.SuggestConfig'']"

definition encoder_descriptor :: "nat \<Rightarrow> string res" where
  "encoder_descriptor type =
     (if \<not> type < 120 * length encoder_descriptor_names then Inl Assert_failed
      else if type < length encoder_descriptor_names then Inr (encoder_descriptor_names ! type)
      else Inl Out_of_bounds)"

text \<open>The loop over the types, from \<open>i\<close> on, for \<open>n\<close> of them.\<close>

fun find_type :: "string \<Rightarrow> nat \<Rightarrow> nat \<Rightarrow> int res" where
  "find_type name i 0 = Inr (-1)"
| "find_type name i (Suc n) =
     rbind (encoder_descriptor i) (\<lambda>desc. if name = desc then Inr (int i) else find_type name (i + 1) n)"

definition get_message_type :: "pb_message \<Rightarrow> int res" where
  "get_message_type message =
     (if pb_package message \<noteq> ''MumbleProto'' then Inl Assert_failed
      else find_type (pb_name message) 0 MUMBLE_TYPE_COUNT)"

definition mumble_frame_encoder_init :: "bytes option \<Rightarrow> frame_ctx res" where
  "mumble_frame_encoder_init m =
     (case m of None \<Rightarrow> Inl Assert_failed
      | Some mem \<Rightarrow> Inr \<lparr>fc_buffer = Some mem, fc_allocated = MUMBLE_FRAME_MAX_SIZE, fc_size = 0\<rparr>)"

definition mumble_frame_encoder_free :: "frame_ctx \<Rightarrow> frame_ctx" where
  "mumble_frame_encoder_free ctx =
     (if fc_buffer ctx \<noteq> None then ctx\<lparr>fc_buffer := None, fc_size := 0, fc_allocated := 0\<rparr> else ctx)"

definition mumble_frame_encode :: "frame_ctx \<Rightarrow> pb_message \<Rightarrow> frame_ctx res" where
  "mumble_frame_encode ctx message =
     rbind (get_message_type message) (\<lambda>type.
     if type = -1 then Inl Assert_failed
     else
       let sz = length (pb_packed message); total_size = 2 + 4 + sz in
       if \<not> total_size \<le> fc_allocated ctx then Inl Assert_failed
       else
         rbind (poke (fc_mem ctx) 0 (htons (word_of_int type))) (\<lambda>mem.
         rbind (poke mem 2 (htonl (of_nat sz))) (\<lambda>mem.
         rbind (poke mem 6 (pb_packed message)) (\<lambda>mem.
         Inr (ctx\<lparr>fc_buffer := Some mem, fc_size := total_size\<rparr>)))))"

section \<open>Frames and the bytes that wait\<close>

definition frame_bytes :: "nat \<times> bytes \<Rightarrow> bytes" where
  "frame_bytes = (\<lambda>(type, payload). htons (of_nat type) @ htonl (of_nat (length payload)) @ payload)"

definition wf_frame_ctx :: "frame_ctx \<Rightarrow> bool" where
  "wf_frame_ctx ctx \<longleftrightarrow> (\<exists>mem. fc_buffer ctx = Some mem \<and> length mem = fc_allocated ctx)
     \<and> fc_size ctx \<le> fc_allocated ctx \<and> fc_allocated ctx \<le> MUMBLE_FRAME_MAX_SIZE"

definition fc_data :: "frame_ctx \<Rightarrow> bytes" where
  "fc_data ctx = take (fc_size ctx) (fc_mem ctx)"

text \<open>The values the decoder computes, on the bytes that wait.\<close>

definition data_size :: "bytes \<Rightarrow> int" where
  "data_size ds = (if length ds < 6 then -1 else sint (ntohl (drop 2 ds)))"

definition data_type :: "bytes \<Rightarrow> int" where
  "data_type ds = (if length ds < 2 then -1 else uint (ntohs ds))"

definition data_total :: "bytes \<Rightarrow> nat" where
  "data_total ds = unat (word_of_int (data_size ds) + 6 :: u32)"

lemma fc_data_length: "wf_frame_ctx ctx \<Longrightarrow> length (fc_data ctx) = fc_size ctx"
  by (auto simp: wf_frame_ctx_def fc_data_def fc_mem_def)

lemma fc_mem_length: "wf_frame_ctx ctx \<Longrightarrow> length (fc_mem ctx) = fc_allocated ctx"
  by (auto simp: wf_frame_ctx_def fc_mem_def)

lemma frame_size_data: "wf_frame_ctx ctx \<Longrightarrow> mumble_frame_size ctx = data_size (fc_data ctx)"
  using fc_data_length [of ctx] fc_mem_length [of ctx]
  by (auto simp: mumble_frame_size_def data_size_def ntohl_def fc_data_def wf_frame_ctx_def)

lemma frame_type_data: "wf_frame_ctx ctx \<Longrightarrow> mumble_frame_type ctx = data_type (fc_data ctx)"
  using fc_data_length [of ctx] fc_mem_length [of ctx]
  by (auto simp: mumble_frame_type_def data_type_def ntohs_def fc_data_def wf_frame_ctx_def)

lemma frame_total_data: "wf_frame_ctx ctx \<Longrightarrow> unat (frame_total ctx) = data_total (fc_data ctx)"
  by (simp add: frame_total_def data_total_def frame_size_data)

lemma frame_ready_data:
  assumes "wf_frame_ctx ctx"
  shows "mumble_frame_ready ctx \<longleftrightarrow> data_total (fc_data ctx) \<le> length (fc_data ctx)"
proof -
  have "fc_size ctx < 2 ^ 32" using assms by (auto simp: wf_frame_ctx_def)
  then have "unat (of_nat (fc_size ctx) :: u32) = fc_size ctx"
    by (simp add: unsigned_of_nat take_bit_nat_eq_self)
  then show ?thesis
    using assms by (simp add: mumble_frame_ready_def word_le_nat_alt frame_total_data fc_data_length)
qed

lemma frame_pop_data:
  assumes "wf_frame_ctx ctx" and "mumble_frame_ready ctx" and "mumble_frame_pop ctx = (r, ctx')"
  shows "wf_frame_ctx ctx'" and "fc_data ctx' = drop (data_total (fc_data ctx)) (fc_data ctx)"
    and "fc_allocated ctx' = fc_allocated ctx" and "r = (if mumble_frame_ready ctx' then 1 else 0)"
proof -
  let ?n = "data_total (fc_data ctx)"
  have n: "?n \<le> fc_size ctx"
    using assms(1,2) frame_ready_data fc_data_length by metis
  have size: "fc_size ctx \<le> length (fc_mem ctx)" "length (fc_mem ctx) = fc_allocated ctx"
    using assms(1) by (auto simp: wf_frame_ctx_def fc_mem_def)
  have ctx': "fc_buffer ctx' = Some (take (fc_size ctx - ?n) (drop ?n (fc_mem ctx)) @ drop (fc_size ctx - ?n) (fc_mem ctx))"
    "fc_size ctx' = fc_size ctx - ?n" "fc_allocated ctx' = fc_allocated ctx"
    "r = (if mumble_frame_ready ctx' then 1 else 0)"
    using assms by (auto simp: mumble_frame_pop_def frame_total_data Let_def)
  then show "wf_frame_ctx ctx'"
    using assms(1) n size by (auto simp: wf_frame_ctx_def)
  show "fc_data ctx' = drop ?n (fc_data ctx)"
    using ctx' n size by (simp add: fc_data_def fc_mem_def drop_take)
  show "fc_allocated ctx' = fc_allocated ctx" "r = (if mumble_frame_ready ctx' then 1 else 0)"
    using ctx' by simp_all
qed

lemma frame_append_data:
  assumes "wf_frame_ctx ctx" and "fc_size ctx + length buf \<le> fc_allocated ctx"
  obtains ctx' where "mumble_frame_append ctx buf = Inr (mumble_frame_ready ctx', ctx')"
    "wf_frame_ctx ctx'" "fc_data ctx' = fc_data ctx @ buf" "fc_allocated ctx' = fc_allocated ctx"
proof -
  let ?mem = "take (fc_size ctx) (fc_mem ctx) @ buf @ drop (fc_size ctx + length buf) (fc_mem ctx)"
  let ?ctx = "ctx\<lparr>fc_buffer := Some ?mem, fc_size := fc_size ctx + length buf\<rparr>"
  have len: "length (fc_mem ctx) = fc_allocated ctx" using assms(1) by (rule fc_mem_length)
  then have "mumble_frame_append ctx buf = Inr (mumble_frame_ready ?ctx, ?ctx)"
    using assms(2) by (simp add: mumble_frame_append_def Let_def)
  moreover have "wf_frame_ctx ?ctx"
    using assms len by (auto simp: wf_frame_ctx_def)
  moreover have "fc_data ?ctx = fc_data ctx @ buf"
    using assms len by (simp add: fc_data_def fc_mem_def)
  ultimately show thesis using that by simp
qed

text \<open>A frame whose payload a decoder's buffer can hold.\<close>

definition valid_frame :: "nat \<times> bytes \<Rightarrow> bool" where
  "valid_frame = (\<lambda>(type, payload). type < 2 ^ 16 \<and> length payload + 6 \<le> MUMBLE_FRAME_MAX_SIZE)"

lemma frame_bytes_length [simp]: "length (frame_bytes (t, p)) = 6 + length p"
  by (simp add: frame_bytes_def)

lemma data_frame:
  assumes "valid_frame (t, p)"
  shows "data_type (frame_bytes (t, p) @ rest) = int t"
    and "data_size (frame_bytes (t, p) @ rest) = int (length p)"
    and "data_total (frame_bytes (t, p) @ rest) = 6 + length p"
proof -
  have len: "length p < 2 ^ 31" and t: "t < 2 ^ 16" using assms by (simp_all add: valid_frame_def)
  have "uint (of_nat t :: u16) = int t"
    using t by (simp add: unsigned_of_nat take_bit_nat_eq_self flip: of_nat_take_bit)
  then show "data_type (frame_bytes (t, p) @ rest) = int t"
    by (simp add: data_type_def frame_bytes_def)
  have "sint (of_nat (length p) :: u32) = signed_take_bit 31 (int (length p))"
    by (simp add: signed_of_nat)
  then have s: "sint (of_nat (length p) :: u32) = int (length p)"
    using len by (simp add: signed_take_bit_int_eq_self)
  have d: "drop 2 (frame_bytes (t, p) @ rest) = htonl (of_nat (length p)) @ p @ rest"
    by (simp add: frame_bytes_def)
  show size: "data_size (frame_bytes (t, p) @ rest) = int (length p)"
    unfolding data_size_def d using s by simp
  have "unat (of_nat (length p + 6) :: u32) = length p + 6"
    using assms by (simp add: valid_frame_def unsigned_of_nat take_bit_nat_eq_self del: of_nat_add)
  then show "data_total (frame_bytes (t, p) @ rest) = 6 + length p"
    unfolding data_total_def size by (simp add: add.commute)
qed

text \<open>Reading one frame off the front of the bytes that wait.\<close>

definition frame_next :: "bytes \<Rightarrow> ((nat \<times> bytes) \<times> bytes) option" where
  "frame_next ds =
     (if data_total ds \<le> length ds \<and> 0 \<le> data_size ds
      then Some ((nat (data_type ds), take (nat (data_size ds)) (drop 6 ds)), drop (data_total ds) ds)
      else None)"

interpretation frames: self_delimiting frame_bytes frame_next valid_frame
proof
  fix x rest assume "valid_frame x"
  moreover obtain t p where "x = (t, p)" by fastforce
  ultimately show "frame_next (frame_bytes x @ rest) = Some (x, rest)"
    using data_frame [of t p rest]
    by (simp add: frame_next_def del: append_assoc) (simp add: frame_bytes_def)
next
  fix x :: "nat \<times> bytes"
  show "frame_bytes x \<noteq> []" by (cases x) (simp add: frame_bytes_def htons_def)
qed

text \<open>
  The constants number the rows of the table: at the number of a constant stands the message of that name, but for
  small letters and underscores.
\<close>

fun capital :: "char \<Rightarrow> char" where
  "capital (Char b0 b1 b2 b3 b4 b5 b6 b7) = Char b0 b1 b2 b3 b4 (b5 \<and> \<not> b6) b6 b7"

lemma message_types_number_table:
  "map snd message_types = [0..<26]"
  "map (map capital) descriptor_names = map (\<lambda>(c, n). ''MUMBLEPROTO.'' @ filter (\<lambda>x. x \<noteq> CHR ''_'') c) message_types"
  by (code_simp, simp add: descriptor_names_def message_types_def)

lemma descriptor_names_length [simp]: "length descriptor_names = 26"
  by (simp add: descriptor_names_def)

lemma descriptor_names_distinct: "distinct descriptor_names"
  unfolding descriptor_names_def distinct_map by (auto simp: inj_on_def)

lemma find_descriptor:
  "i < 26 \<Longrightarrow> List.find (\<lambda>j. descriptor_names ! i = descriptor_names ! j) [0..<26] = Some i"
  using descriptor_names_distinct
  by (auto simp: find_Some_iff nth_eq_iff_index_eq intro!: exI [of _ i])

text \<open>The two tables agree, entry by entry.\<close>

lemma encoder_descriptor_names_eq: "encoder_descriptor_names = descriptor_names"
  by (simp add: encoder_descriptor_names_def descriptor_names_def)

lemma find_type_eq:
  "i + n \<le> 26 \<Longrightarrow> find_type name i n = (case List.find (\<lambda>j. name = descriptor_names ! j) [i..<i + n] of
     Some j \<Rightarrow> Inr (int j) | None \<Rightarrow> Inr (-1))"
proof (induction n arbitrary: i)
  case (Suc n)
  have "[i..<i + Suc n] = i # [Suc i..<Suc i + n]" by (simp add: upt_rec)
  moreover have "encoder_descriptor i = Inr (descriptor_names ! i)"
    using Suc.prems by (simp add: encoder_descriptor_def encoder_descriptor_names_eq)
  ultimately show ?case using Suc.IH [of "Suc i"] Suc.prems by simp
qed simp

lemma get_message_type_eq:
  "get_message_type message =
     (if pb_package message \<noteq> ''MumbleProto'' then Inl Assert_failed
      else case List.find (\<lambda>i. pb_name message = descriptor_names ! i) [0..<26] of
        Some i \<Rightarrow> Inr (int i) | None \<Rightarrow> Inr (-1))"
  using find_type_eq [of 0 26 "pb_name message"] by (simp add: get_message_type_def)

lemma message_type_known:
  assumes "get_message_type msg = Inr t" and "t \<noteq> -1"
  obtains i where "t = int i" "i < 26" "pb_name msg = descriptor_names ! i"
  using assms by (auto simp: get_message_type_eq find_Some_iff split: if_splits option.splits)

lemma encode_data:
  assumes "wf_frame_ctx ctx" and "get_message_type msg = Inr t" and "t \<noteq> -1"
    and "6 + length (pb_packed msg) \<le> fc_allocated ctx"
  obtains ctx' where "mumble_frame_encode ctx msg = Inr ctx'" "wf_frame_ctx ctx'"
    "fc_data ctx' = frame_bytes (nat t, pb_packed msg)" "fc_allocated ctx' = fc_allocated ctx"
proof -
  obtain i where t: "t = int i" by (rule message_type_known [OF assms(2,3)])
  let ?p = "pb_packed msg"
  have len: "length (fc_mem ctx) = fc_allocated ctx" using assms(1) by (rule fc_mem_length)
  let ?mem = "frame_bytes (i, ?p) @ drop (6 + length ?p) (fc_mem ctx)"
  let ?ctx = "ctx\<lparr>fc_buffer := Some ?mem, fc_size := 6 + length ?p\<rparr>"
  have "mumble_frame_encode ctx msg = Inr ?ctx"
    using assms(2-4) len by (simp add: mumble_frame_encode_def Let_def t frame_bytes_def add.commute)
  moreover have "wf_frame_ctx ?ctx" using assms len by (auto simp: wf_frame_ctx_def)
  moreover have "fc_data ?ctx = frame_bytes (i, ?p)" by (simp add: fc_data_def fc_mem_def)
  ultimately show thesis using that t by simp
qed

lemma decode_frame:
  assumes "wf_frame_ctx ctx" and "fc_data ctx = frame_bytes (t, p) @ rest" and "valid_frame (t, p)"
    and "t < 26" and "t \<noteq> 1"
  obtains ctx' where "mumble_frame_decode unpack ctx = Inr (int t, unpack t p, ctx')"
    "wf_frame_ctx ctx'" "fc_data ctx' = rest" "fc_allocated ctx' = fc_allocated ctx"
proof -
  note d = data_frame [OF assms(3), of rest, folded assms(2)]
  have ready: "mumble_frame_ready ctx"
    using frame_ready_data [OF assms(1)] d(3) by (simp add: assms(2))
  obtain r ctx' where pop: "mumble_frame_pop ctx = (r, ctx')" by fastforce
  note popped = frame_pop_data [OF assms(1) ready pop]
  have mem: "6 + length p \<le> length (fc_mem ctx)" "take (6 + length p) (fc_mem ctx) = frame_bytes (t, p)"
  proof -
    have "6 + length p \<le> fc_size ctx"
      using fc_data_length [OF assms(1)] assms(2) by simp
    then show "6 + length p \<le> length (fc_mem ctx)" 
      using fc_mem_length [OF assms(1)] assms(1) by (simp add: wf_frame_ctx_def)
    have "take (6 + length p) (fc_data ctx) = frame_bytes (t, p)" by (simp add: assms(2))
    then show "take (6 + length p) (fc_mem ctx) = frame_bytes (t, p)"
      using \<open>6 + length p \<le> fc_size ctx\<close> by (simp add: fc_data_def min_def)
  qed
  have "take (length p) (drop 6 (fc_mem ctx)) = drop 6 (take (6 + length p) (fc_mem ctx))"
    by (simp add: drop_take)
  also have "\<dots> = p" unfolding mem(2) by (simp add: frame_bytes_def)
  finally have "take (length p) (drop 6 (fc_mem ctx)) = p" .
  then have "mumble_frame_decode unpack ctx = Inr (int t, unpack t p, ctx')"
    using ready assms(4,5) d mem(1) pop
    by (simp add: mumble_frame_decode_def mumble_frame_is_audio_def frame_type_data [OF assms(1)]
        frame_size_data [OF assms(1)] descriptor_def Let_def)
  then show thesis
    using that popped d(3) by (simp add: assms(2))
qed

section \<open>Properties\<close>

definition example_frame_ctx :: frame_ctx where
  "example_frame_ctx = \<lparr>fc_buffer = Some (replicate 64 0), fc_allocated = 64, fc_size = 0\<rparr>"

lemma example_frame_ctx_ok: "wf_frame_ctx example_frame_ctx"
  by (simp add: example_frame_ctx_def wf_frame_ctx_def)

lemma encode_cases:
  assumes "wf_frame_ctx ctx"
  shows "(if pb_package msg = ''MumbleProto'' \<and> pb_name msg \<in> set descriptor_names
        \<and> 6 + length (pb_packed msg) \<le> fc_allocated ctx
      then \<exists>i ctx'. i < 26 \<and> pb_name msg = descriptor_names ! i \<and> mumble_frame_encode ctx msg = Inr ctx'
        \<and> wf_frame_ctx ctx' \<and> fc_data ctx' = frame_bytes (i, pb_packed msg)
      else mumble_frame_encode ctx msg = Inl Assert_failed)"
proof (cases "pb_package msg = ''MumbleProto'' \<and> pb_name msg \<in> set descriptor_names")
  case True
  then obtain i where i: "i < 26" "pb_name msg = descriptor_names ! i"
    by (auto simp: in_set_conv_nth)
  then have type: "get_message_type msg = Inr (int i)"
    using True find_descriptor [OF i(1)] by (simp add: get_message_type_eq)
  show ?thesis
  proof (cases "6 + length (pb_packed msg) \<le> fc_allocated ctx")
    case fits: True
    obtain ctx' where "mumble_frame_encode ctx msg = Inr ctx'" "wf_frame_ctx ctx'"
      "fc_data ctx' = frame_bytes (nat (int i), pb_packed msg)" "fc_allocated ctx' = fc_allocated ctx"
      by (rule encode_data [OF assms type _ fits]) simp_all
    with True fits i show ?thesis by auto
  next
    case False
    then show ?thesis using True type by (simp add: mumble_frame_encode_def)
  qed
next
  case False
  then have "get_message_type msg = Inl Assert_failed \<or> get_message_type msg = Inr (-1)"
    by (auto simp: get_message_type_eq find_Some_iff in_set_conv_nth split: option.splits)
  with False show ?thesis by (auto simp: mumble_frame_encode_def)
qed

text \<open>
  The encoder succeeds exactly for the 26 messages of the protocol whose frame fits its buffer, and any
  other message fails an assertion; in particular every type number is found again from its name.
\<close>

theorem frame_encode_errors:
  assumes "wf_frame_ctx ctx"
  shows "(if pb_package msg = ''MumbleProto'' \<and> pb_name msg \<in> set descriptor_names
        \<and> 6 + length (pb_packed msg) \<le> fc_allocated ctx
      then \<exists>i ctx'. i < 26 \<and> pb_name msg = descriptor_names ! i \<and> mumble_frame_encode ctx msg = Inr ctx'
        \<and> fc_data ctx' = frame_bytes (i, pb_packed msg)
      else mumble_frame_encode ctx msg = Inl Assert_failed)"
  using encode_cases [OF assms, of msg] by (auto split: if_splits)

theorem frame_encode_errors_witness:
  "\<exists>ctx'. mumble_frame_encode example_frame_ctx \<lparr>pb_package = ''MumbleProto'', pb_name = ''MumbleProto.Ping'', pb_packed = [8, 1]\<rparr> = Inr ctx'"
  using frame_encode_errors [OF example_frame_ctx_ok,
      of "\<lparr>pb_package = ''MumbleProto'', pb_name = ''MumbleProto.Ping'', pb_packed = [8, 1]\<rparr>"]
  by (auto simp: descriptor_names_def example_frame_ctx_def)

text \<open>
  C17: What the encoder writes, the decoder reads: with an encoded message (not a tunnelled one) at the front of
  its bytes the decoder returns the message's type and what protobuf-c unpacks from exactly the packed
  bytes, and keeps exactly the bytes that follow.
\<close>

theorem frame_roundtrip:
  assumes "wf_frame_ctx enc" and "mumble_frame_encode enc msg = Inr enc'"
    and "wf_frame_ctx ctx" and "fc_data ctx = fc_data enc' @ rest"
    and "pb_name msg \<noteq> ''MumbleProto.UDPTunnel''"
  shows "\<exists>t ctx'. get_message_type msg = Inr (int t) \<and> t < 26
    \<and> mumble_frame_decode unpack ctx = Inr (int t, unpack t (pb_packed msg), ctx')
    \<and> wf_frame_ctx ctx' \<and> fc_data ctx' = rest"
proof -
  from assms(2) obtain ty where ty: "get_message_type msg = Inr ty" "ty \<noteq> -1"
      and fits: "6 + length (pb_packed msg) \<le> fc_allocated enc"
    by (auto simp: mumble_frame_encode_def rbind_Inr_iff Let_def split: if_splits)
  obtain i where i: "ty = int i" "i < 26" "pb_name msg = descriptor_names ! i"
    by (rule message_type_known [OF ty])
  have "i \<noteq> 1" using assms(5) i(3) by (auto simp: descriptor_names_def)
  have e: "fc_data enc' = frame_bytes (i, pb_packed msg)"
    by (rule encode_data [OF assms(1) ty fits]) (use assms(2) i(1) in auto)
  have "valid_frame (i, pb_packed msg)"
    using i(2) fits assms(1) by (simp add: valid_frame_def wf_frame_ctx_def)
  then show ?thesis
    using ty(1) i decode_frame [OF assms(3) assms(4) [unfolded e] _ i(2) \<open>i \<noteq> 1\<close>, of unpack] by metis
qed

theorem frame_roundtrip_witness:
  "\<exists>t ctx'. get_message_type \<lparr>pb_package = ''MumbleProto'', pb_name = ''MumbleProto.Ping'', pb_packed = [8, 1]\<rparr> = Inr (int t)
    \<and> t < 26 \<and> mumble_frame_decode (\<lambda>t data. Some data)
        \<lparr>fc_buffer = Some [0, 3, 0, 0, 0, 2, 8, 1, 5], fc_allocated = 9, fc_size = 9\<rparr> = Inr (int t, Some [8, 1], ctx')
    \<and> wf_frame_ctx ctx' \<and> fc_data ctx' = [5]"
proof -
  let ?msg = "\<lparr>pb_package = ''MumbleProto'', pb_name = ''MumbleProto.Ping'', pb_packed = [8, 1]\<rparr>"
  let ?ctx = "\<lparr>fc_buffer = Some [0, 3, 0, 0, 0, 2, 8, 1, 5], fc_allocated = 9, fc_size = 9\<rparr> :: frame_ctx"
  have "pb_name ?msg = descriptor_names ! 3" by (simp add: descriptor_names_def)
  then have type: "get_message_type ?msg = Inr (int 3)"
    using find_descriptor [of 3] by (simp add: get_message_type_eq)
  obtain enc' where e: "mumble_frame_encode example_frame_ctx ?msg = Inr enc'" "wf_frame_ctx enc'"
    "fc_data enc' = frame_bytes (nat (int 3), pb_packed ?msg)" "fc_allocated enc' = fc_allocated example_frame_ctx"
    by (rule encode_data [OF example_frame_ctx_ok type]) (simp_all add: example_frame_ctx_def)
  have "wf_frame_ctx ?ctx" by (simp add: wf_frame_ctx_def)
  moreover have "fc_data ?ctx = fc_data enc' @ [5]"
    unfolding e(3) by (simp add: fc_data_def fc_mem_def frame_bytes_def htons_def htonl_def)
  ultimately show ?thesis
    using frame_roundtrip [OF example_frame_ctx_ok e(1), of ?ctx "[5]" "\<lambda>t data. Some data"] by simp
qed

text \<open>
  C28: What becomes of a message that the decoder believes is ready, by its type and length: a type of 3120 or more fails the
  assertion; any other type that is not one of the 26, or a length of \<open>2 ^ 31\<close> or more, or the first five bytes of a frame
  alone, makes it read outside the descriptor table or far behind its buffer; and otherwise it returns the type, what protobuf-c
  unpacks from exactly the bytes behind the header, and keeps exactly the bytes behind the message.
\<close>

theorem frame_decode_cases:
  assumes "wf_frame_ctx ctx" and "mumble_frame_ready ctx" and "\<not> mumble_frame_is_audio ctx"
  shows "let type = mumble_frame_type ctx; size = mumble_frame_size ctx in
    if 3120 \<le> type then mumble_frame_decode unpack ctx = Inl Assert_failed
    else if 26 \<le> type \<or> size < 0 then mumble_frame_decode unpack ctx = Inl Out_of_bounds
    else \<exists>ctx'. mumble_frame_decode unpack ctx = Inr (type, unpack (nat type) (take (nat size) (drop 6 (fc_data ctx))), ctx')
      \<and> wf_frame_ctx ctx' \<and> fc_data ctx' = drop (6 + nat size) (fc_data ctx)"
proof -
  let ?t = "mumble_frame_type ctx" and ?s = "mumble_frame_size ctx"
  have ready: "unat (frame_total ctx) \<le> fc_size ctx"
    using assms(1,2) frame_ready_data frame_total_data fc_data_length by metis
  have "\<not> fc_size ctx < 2"
  proof
    assume "fc_size ctx < 2"
    then have "frame_total ctx = 5" by (simp add: frame_total_def mumble_frame_size_def)
    with ready \<open>fc_size ctx < 2\<close> show False by simp
  qed
  then have t: "0 \<le> ?t" by (simp add: mumble_frame_type_def)
  obtain r ctx' where pop: "mumble_frame_pop ctx = (r, ctx')" by fastforce
  note popped = frame_pop_data [OF assms(1,2) pop]
  have fits: "6 + nat ?s \<le> fc_size ctx \<and> data_total (fc_data ctx) = 6 + nat ?s" if "0 \<le> ?s"
  proof -
    have "?s < 2 ^ 31"
      using sint_less [of "ntohl (drop 2 (fc_mem ctx))"] by (simp add: mumble_frame_size_def)
    then have "unat (word_of_int (?s + 6) :: u32) = nat (?s + 6)"
      using that by (simp add: unsigned_of_int take_bit_int_eq_self del: of_int_add)
    then have "unat (frame_total ctx) = nat ?s + 6"
      using that by (simp add: frame_total_def nat_add_distrib)
    then show ?thesis using ready frame_total_data [OF assms(1)] by simp
  qed
  have mem: "fc_size ctx \<le> length (fc_mem ctx)"
    using fc_mem_length [OF assms(1)] assms(1) by (simp add: wf_frame_ctx_def)
  have payload: "peek (fc_mem ctx) 6 (nat ?s) = Inr (take (nat ?s) (drop 6 (fc_data ctx)))" if "0 \<le> ?s"
  proof -
    have "nat ?s \<le> fc_size ctx - 6" "6 + nat ?s \<le> length (fc_mem ctx)" using fits [OF that] mem by linarith+
    then show ?thesis by (simp add: peek_def fc_data_def drop_take min_absorb1)
  qed
  show ?thesis
    using assms(2,3) t payload fits popped pop
    by (auto simp: mumble_frame_decode_def descriptor_def Let_def nat_less_iff not_less split: if_splits)
qed

theorem frame_decode_cases_witness:
  "mumble_frame_decode (\<lambda>t data. Some data)
      \<lparr>fc_buffer = Some [0, 3, 0, 0, 0, 2, 8, 1], fc_allocated = 8, fc_size = 5\<rparr> = Inl Out_of_bounds"
  using frame_decode_cases [of "\<lparr>fc_buffer = Some [0, 3, 0, 0, 0, 2, 8, 1], fc_allocated = 8, fc_size = 5\<rparr>"
      "\<lambda>t data. Some data"]
  by (simp add: wf_frame_ctx_def mumble_frame_ready_def frame_total_def mumble_frame_size_def
      mumble_frame_is_audio_def mumble_frame_type_def fc_mem_def ntohs_def)

text \<open>
  Frames delimit themselves: a stream of frames is read back frame by frame as the types and payloads that
  were written, whatever follows, and no other sequence of frames gives the same bytes.
\<close>

theorem frame_stream:
  assumes "list_all valid_frame fs" and "list_all valid_frame gs"
  shows "decode_many frame_next (length fs) (concat (map frame_bytes fs) @ rest) = Some (fs, rest)
    \<and> (concat (map frame_bytes fs) = concat (map frame_bytes gs) \<longrightarrow> fs = gs)"
  using frames.decode_stream [OF assms(1)] frames.stream_inj [OF assms] by blast

theorem frame_stream_witness:
  "decode_many frame_next (length [(3, [1, 2]), (15, [])]) (concat (map frame_bytes [(3, [1, 2]), (15, [])]) @ [9])
    = Some ([(3, [1, 2]), (15, [])], [9])"
  using frame_stream [of "[(3, [1, 2]), (15, [])]" "[]" "[9]"] by (simp add: valid_frame_def)

end
