(* ===== verification/Tcp_Ssl.thy ===== *)
theory Tcp_Ssl
  imports Buffer_Pool
begin

text \<open>
  The encrypted stream transport of \<^verbatim>\<open>lib/mumble/uv_tcp_ssl.c\<close>: OpenSSL between two memory BIOs, whose
  callbacks move the bytes between libuv and OpenSSL through buffers of the pool.

  OpenSSL is the record \<open>openssl\<close> of its functions on a state \<open>'s\<close>. A function that lets OpenSSL write
  to the network also gives the list of the writes it makes on \<open>wbio\<close>; each of them runs \<open>uv_ssl_wbio_cb\<close>.
  \<open>try_write\<close> is what \<open>uv_try_write\<close> returns for the bytes handed to it. \<open>ts_sent\<close> is everything handed to
  libuv so far. The contents of a pool buffer do not outlive a call, so only its size is kept.
\<close>

record 's openssl =
  ssl_read :: "'s \<Rightarrow> nat \<Rightarrow> int \<times> bytes \<times> bytes list \<times> 's"
  ssl_write :: "'s \<Rightarrow> bytes \<Rightarrow> int \<times> bytes list \<times> 's"
  ssl_do_handshake :: "'s \<Rightarrow> int \<times> bytes list \<times> 's"
  ssl_shutdown :: "'s \<Rightarrow> bytes list \<times> 's"
  ssl_get_error :: "'s \<Rightarrow> int \<Rightarrow> int"
  ssl_in_init :: "'s \<Rightarrow> bool"
  ssl_is_init_finished :: "'s \<Rightarrow> bool"
  bio_write :: "'s \<Rightarrow> bytes \<Rightarrow> int \<times> 's"

text \<open>
  The socket. \<open>ts_creq\<close> is the callback argument of \<open>rbio\<close>: nothing before \<open>mumble_uv_ssl_connect\<close>, then
  the connection request, which has a callback or not.
\<close>

record 's tcp_ssl =
  ts_ssl :: 's
  ts_has_cb :: bool
  ts_pool :: buffer_pool
  ts_creq :: "bool option"
  ts_sent :: "bytes list"

text \<open>The callbacks of the socket's user, on the socket and a state of their own.\<close>

type_synonym ('s, 'c) tcp_state = "'s tcp_ssl \<times> 'c"
type_synonym ('s, 'c) read_cb = "bytes \<Rightarrow> ('s, 'c) tcp_state \<Rightarrow> ('s, 'c) tcp_state comp"
type_synonym ('s, 'c) connect_cb = "int \<Rightarrow> ('s, 'c) tcp_state \<Rightarrow> ('s, 'c) tcp_state comp"

section \<open>From OpenSSL to the network\<close>

definition uv_ssl_wbio_cb ::
    "(bytes \<Rightarrow> int) \<Rightarrow> int \<Rightarrow> bytes \<Rightarrow> int \<Rightarrow> 's tcp_ssl \<Rightarrow> (int \<times> 's tcp_ssl) res" where
  "uv_ssl_wbio_cb try_write oper argp retvalue socket =
     (if oper = 0x83 then
        case buffer_pool_acquire (ts_pool socket) of
          (None, pool') \<Rightarrow> Inl Assert_failed
        | (Some arg, pool') \<Rightarrow>
            if p_size pool' < length argp then Inl Out_of_bounds
            else if try_write argp \<noteq> int (length argp) then Inl Assert_failed
            else rbind (buffer_pool_release pool' arg) (\<lambda>pool''.
              Inr (retvalue, socket\<lparr>ts_pool := pool'', ts_sent := ts_sent socket @ [argp]\<rparr>))
      else Inr (retvalue, socket))"

text \<open>The writes OpenSSL makes in one of its calls.\<close>

definition wbio_writes :: "(bytes \<Rightarrow> int) \<Rightarrow> bytes list \<Rightarrow> 's tcp_ssl \<Rightarrow> 's tcp_ssl res" where
  "wbio_writes try_write =
     for_each (\<lambda>record socket. rbind (uv_ssl_wbio_cb try_write 0x83 record (int (length record)) socket)
       (\<lambda>(ret, socket'). Inr socket'))"

definition mumble_uv_ssl_write ::
    "'s openssl \<Rightarrow> (bytes \<Rightarrow> int) \<Rightarrow> bytes \<Rightarrow> 's tcp_ssl \<Rightarrow> 's tcp_ssl res" where
  "mumble_uv_ssl_write ssl try_write buf socket =
     (let (ret, records, s) = ssl_write ssl (ts_ssl socket) buf in
      rbind (wbio_writes try_write records (socket\<lparr>ts_ssl := s\<rparr>)) (\<lambda>socket'.
      if \<not> 1 < ret then Inl Assert_failed else Inr socket'))"

definition mumble_uv_ssl_close :: "'s openssl \<Rightarrow> (bytes \<Rightarrow> int) \<Rightarrow> 's tcp_ssl \<Rightarrow> 's tcp_ssl res" where
  "mumble_uv_ssl_close ssl try_write socket =
     (let (records, s) = ssl_shutdown ssl (ts_ssl socket) in wbio_writes try_write records (socket\<lparr>ts_ssl := s\<rparr>))"

section \<open>From the network to OpenSSL\<close>

definition uv_ssl_do_read ::
    "'s openssl \<Rightarrow> (bytes \<Rightarrow> int) \<Rightarrow> ('s, 'c) read_cb \<Rightarrow> ('s, 'c) tcp_state \<Rightarrow> (bool \<times> ('s, 'c) tcp_state) comp" where
  "uv_ssl_do_read ssl try_write cb = (\<lambda>(socket, c).
     case buffer_pool_acquire (ts_pool socket) of
       (None, pool') \<Rightarrow> faults Assert_failed
     | (Some buf, pool') \<Rightarrow>
         let (ret, out, records, s) = ssl_read ssl (ts_ssl socket) (p_size pool') in
         cbind (Some (wbio_writes try_write records (socket\<lparr>ts_ssl := s, ts_pool := pool'\<rparr>))) (\<lambda>socket.
         cbind (if 0 < ret \<and> ts_has_cb socket then cb (take (nat ret) out) (socket, c) else ok (socket, c))
           (\<lambda>(socket, c).
         cbind (Some (buffer_pool_release (ts_pool socket) buf)) (\<lambda>pool''.
         ok (0 < ret, socket\<lparr>ts_pool := pool''\<rparr>, c)))))"

partial_function (option) uv_ssl_read ::
    "'s openssl \<Rightarrow> (bytes \<Rightarrow> int) \<Rightarrow> ('s, 'c) read_cb \<Rightarrow> ('s, 'c) tcp_state \<Rightarrow> ('s, 'c) tcp_state comp" where
  "uv_ssl_read ssl try_write cb st =
     cbind (uv_ssl_do_read ssl try_write cb st) (\<lambda>(retry, st').
     if retry then uv_ssl_read ssl try_write cb st' else ok st')"

text \<open>A failure of the handshake is reported and falls through to the \<open>default\<close>, which does nothing.\<close>

definition uv_ssl_handshake ::
    "'s openssl \<Rightarrow> (bytes \<Rightarrow> int) \<Rightarrow> ('s, 'c) connect_cb \<Rightarrow> bool \<Rightarrow> ('s, 'c) tcp_state \<Rightarrow> ('s, 'c) tcp_state comp" where
  "uv_ssl_handshake ssl try_write connect_cb has_cb = (\<lambda>(socket, c).
     let (ret, records, s) = ssl_do_handshake ssl (ts_ssl socket) in
     cbind (Some (wbio_writes try_write records (socket\<lparr>ts_ssl := s\<rparr>))) (\<lambda>socket.
     let req = ssl_get_error ssl (ts_ssl socket) ret in
     if req = 0 then if has_cb then connect_cb 0 (socket, c) else ok (socket, c)
     else if req = 1 then if has_cb then connect_cb 1 (socket, c) else ok (socket, c)
     else ok (socket, c)))"

definition uv_ssl_rbio_cb ::
    "'s openssl \<Rightarrow> (bytes \<Rightarrow> int) \<Rightarrow> ('s, 'c) read_cb \<Rightarrow> ('s, 'c) connect_cb \<Rightarrow> int \<Rightarrow> int
      \<Rightarrow> ('s, 'c) tcp_state \<Rightarrow> (int \<times> ('s, 'c) tcp_state) comp" where
  "uv_ssl_rbio_cb ssl try_write cb connect_cb oper retvalue = (\<lambda>(socket, c).
     if oper = 0x83 then
       case ts_creq socket of None \<Rightarrow> faults Null_deref
       | Some has_cb \<Rightarrow>
           cbind (if ssl_in_init ssl (ts_ssl socket)
                  then uv_ssl_handshake ssl try_write connect_cb has_cb (socket, c)
                  else if ssl_is_init_finished ssl (ts_ssl socket)
                  then uv_ssl_read ssl try_write cb (socket, c)
                  else faults Aborted) (\<lambda>st.
           ok (retvalue, st))
     else ok (retvalue, socket, c))"

definition default_alloc_cb :: "'s tcp_ssl \<Rightarrow> (addr \<times> nat \<times> 's tcp_ssl) res" where
  "default_alloc_cb socket =
     (case buffer_pool_acquire (ts_pool socket) of
        (None, pool') \<Rightarrow> Inl Assert_failed
      | (Some base, pool') \<Rightarrow> Inr (base, p_size pool', socket\<lparr>ts_pool := pool'\<rparr>))"

text \<open>
  \<open>data\<close> are the bytes libuv put into the buffer \<open>base\<close>. \<open>BIO_write\<close> runs the callback after it has stored them. That \<open>SSL_get_rbio\<close>
  returns a BIO, which the code asserts here and before it connects, holds since \<open>mumble_uv_ssl_init\<close> has set one.
\<close>

definition uv_ssl_read_cb ::
    "'s openssl \<Rightarrow> (bytes \<Rightarrow> int) \<Rightarrow> ('s, 'c) read_cb \<Rightarrow> ('s, 'c) connect_cb \<Rightarrow> int \<Rightarrow> bytes \<Rightarrow> addr
      \<Rightarrow> ('s, 'c) tcp_state \<Rightarrow> ('s, 'c) tcp_state comp" where
  "uv_ssl_read_cb ssl try_write cb connect_cb nread data base = (\<lambda>(socket, c).
     if 0 < nread then
       let (written, s) = bio_write ssl (ts_ssl socket) data in
       cbind (uv_ssl_rbio_cb ssl try_write cb connect_cb 0x83 written (socket\<lparr>ts_ssl := s\<rparr>, c)) (\<lambda>(ret, socket, c).
       if ret \<noteq> nread then faults Assert_failed
       else cbind (Some (buffer_pool_release (ts_pool socket) base)) (\<lambda>pool'.
         ok (socket\<lparr>ts_pool := pool'\<rparr>, c)))
     else ok (socket, c))"

text \<open>One read of libuv: a buffer is asked for, then the read is reported, with data or without.\<close>

definition tcp_receive ::
    "'s openssl \<Rightarrow> (bytes \<Rightarrow> int) \<Rightarrow> ('s, 'c) read_cb \<Rightarrow> ('s, 'c) connect_cb \<Rightarrow> int \<times> bytes
      \<Rightarrow> ('s, 'c) tcp_state \<Rightarrow> ('s, 'c) tcp_state comp" where
  "tcp_receive ssl try_write cb connect_cb = (\<lambda>(nread, data) (socket, c).
     cbind (Some (default_alloc_cb socket)) (\<lambda>(base, size, socket').
     uv_ssl_read_cb ssl try_write cb connect_cb nread data base (socket', c)))"

section \<open>Connecting\<close>

text \<open>The arguments are the results of the libuv and OpenSSL calls and of the allocations.\<close>

definition mumble_uv_ssl_init ::
    "int \<Rightarrow> bool \<Rightarrow> int \<Rightarrow> 's option \<Rightarrow> bool \<Rightarrow> (nat \<Rightarrow> addr option) \<Rightarrow> 's tcp_ssl res" where
  "mumble_uv_ssl_init tcp_init ctx_ok verify_paths created array_ok m =
     (if tcp_init \<noteq> 0 then Inl Assert_failed
      else if \<not> ctx_ok then Inl Assert_failed
      else if verify_paths \<noteq> 1 then Inl Assert_failed
      else case created of None \<Rightarrow> Inl Assert_failed
      | Some s \<Rightarrow>
          rbind (buffer_pool_init 4 (16 * 1024) array_ok m) (\<lambda>pool.
          Inr \<lparr>ts_ssl = s, ts_has_cb = False, ts_pool = pool, ts_creq = None, ts_sent = []\<rparr>))"

definition mumble_uv_ssl_set_cb :: "'s tcp_ssl \<Rightarrow> bool \<Rightarrow> 's tcp_ssl" where
  "mumble_uv_ssl_set_cb socket cb = socket\<lparr>ts_has_cb := cb\<rparr>"

text \<open>
  The pointer \<open>data\<close> of the socket is the state its user's callbacks work on. What \<open>mumble_uv_ssl_free\<close> hands
  to \<open>SSL_free\<close> is the object of OpenSSL, and nothing else.
\<close>

definition mumble_uv_ssl_set_data :: "'s tcp_ssl \<Rightarrow> 'c \<Rightarrow> ('s, 'c) tcp_state" where
  "mumble_uv_ssl_set_data socket data = (socket, data)"

definition mumble_uv_ssl_free :: "'s tcp_ssl \<Rightarrow> 's" where
  "mumble_uv_ssl_free socket = ts_ssl socket"

definition mumble_uv_ssl_peername :: "int \<times> bytes \<times> int \<Rightarrow> (bytes \<times> int) res" where
  "mumble_uv_ssl_peername = (\<lambda>(ret, name, namelen). if ret \<noteq> 0 then Inl Assert_failed else Inr (name, namelen))"

definition mumble_uv_ssl_connect :: "bool \<Rightarrow> bool \<Rightarrow> int \<Rightarrow> bool \<Rightarrow> 's tcp_ssl \<Rightarrow> 's tcp_ssl res" where
  "mumble_uv_ssl_connect creq_ok req_ok getaddrinfo has_cb socket =
     (if \<not> creq_ok then Inl Assert_failed
      else if \<not> req_ok then Inl Null_deref
      else
        let socket = socket\<lparr>ts_creq := Some has_cb\<rparr> in
        if getaddrinfo \<noteq> 0 then Inl Assert_failed else Inr socket)"

definition uv_ssl_dns_cb :: "int \<Rightarrow> int \<Rightarrow> 's tcp_ssl \<Rightarrow> 's tcp_ssl res" where
  "uv_ssl_dns_cb status connect socket =
     (if status \<noteq> 0 then Inl Assert_failed
      else if connect \<noteq> 0 then Inl Assert_failed
      else Inr socket)"

definition uv_ssl_connect_cb ::
    "'s openssl \<Rightarrow> (bytes \<Rightarrow> int) \<Rightarrow> ('s, 'c) connect_cb \<Rightarrow> int \<Rightarrow> int \<Rightarrow> bool
      \<Rightarrow> ('s, 'c) tcp_state \<Rightarrow> ('s, 'c) tcp_state comp" where
  "uv_ssl_connect_cb ssl try_write connect_cb status read_start has_cb st =
     (if status \<noteq> 0 then faults Assert_failed
      else if read_start \<noteq> 0 then faults Assert_failed
      else uv_ssl_handshake ssl try_write connect_cb has_cb st)"

section \<open>Buffers come back\<close>

lemma acquire_release:
  assumes "wf_pool p" and "buffer_pool_acquire p = (Some a, p')"
  shows "buffer_pool_release p' a = Inr p"
proof -
  let ?k = "p_in_use p"
  from assms have k: "?k < p_count p" "a = p_buffers p ! ?k" and p': "p' = p\<lparr>p_in_use := Suc ?k\<rparr>"
    by (auto simp: buffer_pool_acquire_def split: if_splits)
  have "wf_pool p'" using acquire_Some(1) [OF assms] .
  from release_swap(1) [OF this, of ?k] k p' show ?thesis by simp
qed

definition tcp_room :: "'s tcp_ssl \<Rightarrow> bool" where
  "tcp_room socket \<longleftrightarrow> wf_pool (ts_pool socket) \<and> card (held (ts_pool socket)) < p_count (ts_pool socket)"

lemma tcp_borrow:
  assumes "tcp_room socket"
  obtains a pool' where "buffer_pool_acquire (ts_pool socket) = (Some a, pool')"
    "buffer_pool_release pool' a = Inr (ts_pool socket)" "p_size pool' = p_size (ts_pool socket)" "wf_pool pool'"
    "card (held pool') = Suc (card (held (ts_pool socket)))" "p_count pool' = p_count (ts_pool socket)"
proof -
  have wf: "wf_pool (ts_pool socket)" and "card (held (ts_pool socket)) < p_count (ts_pool socket)"
    using assms by (simp_all add: tcp_room_def)
  from pool.acquire_succeeds [OF this]
  obtain a p' where a: "buffer_pool_acquire (ts_pool socket) = (Some a, p')" "wf_pool p'"
    "card (held p') = Suc (card (held (ts_pool socket)))" "p_count p' = p_count (ts_pool socket)" by metis
  with acquire_release [OF wf] acquire_Some(6) [OF wf] show thesis by (intro that)
qed

lemma wbio_cb_writes:
  assumes "tcp_room socket" and "length r \<le> p_size (ts_pool socket)" and "try_write r = int (length r)"
  shows "uv_ssl_wbio_cb try_write 0x83 r n socket = Inr (n, socket\<lparr>ts_sent := ts_sent socket @ [r]\<rparr>)"
proof -
  obtain a pool' where "buffer_pool_acquire (ts_pool socket) = (Some a, pool')"
    "buffer_pool_release pool' a = Inr (ts_pool socket)" "p_size pool' = p_size (ts_pool socket)"
    by (rule tcp_borrow [OF assms(1)])
  with assms(2,3) show ?thesis by (simp add: uv_ssl_wbio_cb_def)
qed

lemma wbio_cb_overflows:
  assumes "tcp_room socket" and "p_size (ts_pool socket) < length r"
  shows "uv_ssl_wbio_cb try_write 0x83 r n socket = Inl Out_of_bounds"
proof -
  obtain a pool' where "buffer_pool_acquire (ts_pool socket) = (Some a, pool')"
    "p_size pool' = p_size (ts_pool socket)"
    by (rule tcp_borrow [OF assms(1)])
  with assms(2) show ?thesis by (simp add: uv_ssl_wbio_cb_def)
qed

lemma wbio_writes_sends:
  assumes "tcp_room socket" and "\<And>r. r \<in> set records \<Longrightarrow> try_write r = int (length r)"
  shows "wbio_writes try_write records socket =
    (if list_all (\<lambda>r. length r \<le> p_size (ts_pool socket)) records
     then Inr (socket\<lparr>ts_sent := ts_sent socket @ records\<rparr>) else Inl Out_of_bounds)"
  using assms
proof (induction records arbitrary: socket)
  case (Cons r rs)
  have room: "tcp_room (socket\<lparr>ts_sent := s\<rparr>)" for s using Cons.prems(1) by (simp add: tcp_room_def)
  show ?case
    using wbio_cb_writes [OF Cons.prems(1), of r] wbio_cb_overflows [OF Cons.prems(1), of r]
      Cons.IH [OF room] Cons.prems(2)
    by (cases "length r \<le> p_size (ts_pool socket)") (simp_all add: wbio_writes_def)
qed (simp add: wbio_writes_def)

text \<open>What becomes of any records, the first that cannot be written included.\<close>

lemma wbio_cb_full:
  assumes "wf_pool (ts_pool socket)" and "card (held (ts_pool socket)) = p_count (ts_pool socket)"
  shows "uv_ssl_wbio_cb try_write 0x83 r n socket = Inl Assert_failed"
  using acquire_full(1) [OF assms(1)] assms(2) by (cases "buffer_pool_acquire (ts_pool socket)") (simp add: uv_ssl_wbio_cb_def)

lemma wbio_cb_partial:
  assumes "tcp_room socket" and "length r \<le> p_size (ts_pool socket)" and "try_write r \<noteq> int (length r)"
  shows "uv_ssl_wbio_cb try_write 0x83 r n socket = Inl Assert_failed"
proof -
  obtain a pool' where "buffer_pool_acquire (ts_pool socket) = (Some a, pool')"
    "p_size pool' = p_size (ts_pool socket)"
    by (rule tcp_borrow [OF assms(1)])
  with assms(2,3) show ?thesis by (simp add: uv_ssl_wbio_cb_def)
qed

lemma wbio_writes_outcome:
  assumes "wf_pool (ts_pool socket)"
  shows "wbio_writes try_write records socket =
    (if records \<noteq> [] \<and> card (held (ts_pool socket)) = p_count (ts_pool socket) then Inl Assert_failed
     else case List.find (\<lambda>r. p_size (ts_pool socket) < length r \<or> try_write r \<noteq> int (length r)) records of
       Some r \<Rightarrow> Inl (if p_size (ts_pool socket) < length r then Out_of_bounds else Assert_failed)
     | None \<Rightarrow> Inr (socket\<lparr>ts_sent := ts_sent socket @ records\<rparr>))"
proof (cases "card (held (ts_pool socket)) = p_count (ts_pool socket)")
  case True
  then show ?thesis using wbio_cb_full [OF assms True] by (cases records) (simp_all add: wbio_writes_def)
next
  case False
  then have "tcp_room socket" using assms held_card [OF assms] by (simp add: tcp_room_def wf_pool_def)
  with False show ?thesis
  proof (induction records arbitrary: socket)
    case (Cons r rs)
    have room: "tcp_room (socket\<lparr>ts_sent := s\<rparr>)" for s using Cons.prems(2) by (simp add: tcp_room_def)
    show ?case
      using wbio_cb_writes [OF Cons.prems(2), of r] wbio_cb_overflows [OF Cons.prems(2), of r]
        wbio_cb_partial [OF Cons.prems(2), of r] Cons.IH [OF _ room] Cons.prems(1)
      by (cases "p_size (ts_pool socket) < length r"; cases "try_write r = int (length r)")
        (simp_all add: wbio_writes_def split: option.split)
  qed (simp add: wbio_writes_def)
qed

lemma wbio_writes_keeps:
  "wbio_writes try_write records socket = Inr socket' \<Longrightarrow> wf_pool (ts_pool socket) \<Longrightarrow>
    ts_pool socket' = ts_pool socket \<and> ts_has_cb socket' = ts_has_cb socket \<and> ts_ssl socket' = ts_ssl socket
    \<and> ts_creq socket' = ts_creq socket"
proof (induction records arbitrary: socket)
  case (Cons r rs)
  then obtain s1 n where s1: "uv_ssl_wbio_cb try_write 0x83 r (int (length r)) socket = Inr (n, s1)"
    and rest: "wbio_writes try_write rs s1 = Inr socket'"
    by (auto simp: wbio_writes_def rbind_Inr_iff)
  from s1 Cons.prems(2) have "s1 = socket\<lparr>ts_sent := ts_sent socket @ [r]\<rparr>"
    by (auto simp: uv_ssl_wbio_cb_def rbind_Inr_iff acquire_release split: option.splits prod.splits if_splits)
  with Cons.IH [OF rest] Cons.prems(2) show ?case by simp
qed (simp add: wbio_writes_def)

lemma uv_ssl_read_invariant:
  assumes "uv_ssl_read ssl try_write cb st = ok st'" and "I st"
    and step: "\<And>st retry st'. I st \<Longrightarrow> uv_ssl_do_read ssl try_write cb st = ok (retry, st') \<Longrightarrow> I st'"
  shows "I st'"
proof -
  define P where "P = (\<lambda>ssl' tw' cb' st y. ssl' = ssl \<longrightarrow> tw' = try_write \<longrightarrow> cb' = cb \<longrightarrow> I st
    \<longrightarrow> (\<forall>st'. y = (Inr st' :: fault + _) \<longrightarrow> I st'))"
  have "P ssl try_write cb st (Inr st')"
    using assms(1)
  proof (rule uv_ssl_read.raw_induct [where P = P, rotated])
    fix f ssl' tw' cb' st y
    assume IH: "\<And>ssl tw cb st y. f ssl tw cb st = Some y \<Longrightarrow> P ssl tw cb st y"
      and body: "cbind (uv_ssl_do_read ssl' tw' cb' st) (\<lambda>(retry, st'). if retry then f ssl' tw' cb' st' else ok st') = Some y"
    show "P ssl' tw' cb' st y"
      unfolding P_def
    proof (intro impI allI)
      fix st'
      assume eq: "ssl' = ssl" "tw' = try_write" "cb' = cb" and inv: "I st" and y: "y = Inr st'"
      from body obtain retry st1 where d: "uv_ssl_do_read ssl try_write cb st = ok (retry, st1)"
        and c: "(if retry then f ssl try_write cb st1 else ok st1) = ok st'"
        unfolding y eq by (auto simp: cbind_ok_iff)
      have "I st1" using inv d by (rule step)
      with c IH [of ssl try_write cb st1 y] y show "I st'" by (cases retry; cases st') (simp_all add: P_def)
    qed
  qed
  then show ?thesis using assms(2) by (cases st') (simp add: P_def)
qed

text \<open>The contract of the socket's user: a callback that returns has given back every buffer it took, and keeps
  the invariant of the user's own state.\<close>

locale tcp_user =
  fixes cb :: "('s, 'c) read_cb"
    and connect_cb :: "('s, 'c) connect_cb"
    and inv :: "'c \<Rightarrow> bool"
  assumes cb_balanced: "wf_pool (ts_pool socket) \<Longrightarrow> inv c \<Longrightarrow> cb data (socket, c) = ok (socket', c')
      \<Longrightarrow> ts_pool socket' = ts_pool socket \<and> inv c'"
    and connect_balanced: "wf_pool (ts_pool socket) \<Longrightarrow> inv c \<Longrightarrow> connect_cb status (socket, c) = ok (socket', c')
      \<Longrightarrow> ts_pool socket' = ts_pool socket \<and> inv c'"
begin

lemma do_read_balanced:
  assumes "wf_pool (ts_pool socket)" and "inv c"
    and "uv_ssl_do_read ssl try_write cb (socket, c) = ok (retry, socket', c')"
  shows "ts_pool socket' = ts_pool socket \<and> inv c'"
proof -
  obtain a pool' where a: "buffer_pool_acquire (ts_pool socket) = (Some a, pool')"
    using assms(3) by (cases "buffer_pool_acquire (ts_pool socket)"; cases "fst (buffer_pool_acquire (ts_pool socket))")
      (auto simp: uv_ssl_do_read_def)
  obtain ret out records s where r: "ssl_read ssl (ts_ssl socket) (p_size pool') = (ret, out, records, s)"
    by (metis prod.collapse)
  from assms(3) obtain s1 s2 pool2 where
    w: "wbio_writes try_write records (socket\<lparr>ts_ssl := s, ts_pool := pool'\<rparr>) = Inr s1"
    and c: "(if 0 < ret \<and> ts_has_cb s1 then cb (take (nat ret) out) (s1, c) else ok (s1, c)) = ok (s2, c')"
    and rel: "buffer_pool_release (ts_pool s2) a = Inr pool2" and s': "socket' = s2\<lparr>ts_pool := pool2\<rparr>"
    by (auto simp: uv_ssl_do_read_def a r cbind_ok_iff)
  have "wf_pool pool'" using acquire_Some(1) [OF assms(1) a] .
  then have "ts_pool s1 = pool'" using wbio_writes_keeps [OF w] by simp
  moreover from this c \<open>wf_pool pool'\<close> have "ts_pool s2 = ts_pool s1 \<and> inv c'"
    using assms(2) by (auto split: if_splits dest: cb_balanced)
  ultimately show ?thesis
    using rel acquire_release [OF assms(1) a] s' by simp
qed

lemma read_balanced:
  assumes "uv_ssl_read ssl try_write cb (socket, c) = ok (socket', c')" and "wf_pool (ts_pool socket)" and "inv c"
  shows "ts_pool socket' = ts_pool socket \<and> inv c'"
proof -
  let ?I = "\<lambda>st. ts_pool (fst st) = ts_pool socket \<and> inv (snd st)"
  have step: "?I st'" if "?I st" "uv_ssl_do_read ssl try_write cb st = ok (retry, st')" for st retry st'
    using that do_read_balanced [of "fst st" "snd st" ssl try_write retry "fst st'" "snd st'"] assms(2) by simp
  have "?I (socket', c')"
    by (rule uv_ssl_read_invariant [where I = ?I, OF assms(1) _ step]) (simp_all add: assms(3))
  then show ?thesis by simp
qed

lemma handshake_balanced:
  assumes "uv_ssl_handshake ssl try_write connect_cb has_cb (socket, c) = ok (socket', c')"
    and "wf_pool (ts_pool socket)" and "inv c"
  shows "ts_pool socket' = ts_pool socket \<and> inv c'"
proof -
  obtain ret records s where h: "ssl_do_handshake ssl (ts_ssl socket) = (ret, records, s)" by (metis prod.collapse)
  with assms(1) obtain s1 n where w: "wbio_writes try_write records (socket\<lparr>ts_ssl := s\<rparr>) = Inr s1"
    and c: "s1 = socket' \<and> c' = c \<or> connect_cb n (s1, c) = ok (socket', c')"
    by (auto simp: uv_ssl_handshake_def cbind_ok_iff Let_def split: if_splits)
  have "ts_pool s1 = ts_pool socket" using wbio_writes_keeps [OF w] assms(2) by simp
  with c assms(2,3) connect_balanced [of s1 c n socket' c'] show ?thesis by auto
qed

text \<open>A read of libuv gives its buffer back exactly when it brought data.\<close>

lemma receive_balanced:
  assumes "tcp_receive ssl try_write cb connect_cb (nread, data) (socket, c) = ok (socket', c')"
    and "wf_pool (ts_pool socket)" and "inv c"
  shows "inv c' \<and> wf_pool (ts_pool socket') \<and> p_count (ts_pool socket') = p_count (ts_pool socket)
    \<and> p_size (ts_pool socket') = p_size (ts_pool socket)
    \<and> card (held (ts_pool socket')) = card (held (ts_pool socket)) + (if 0 < nread then 0 else 1)"
proof -
  obtain a pool' where a: "buffer_pool_acquire (ts_pool socket) = (Some a, pool')"
    using assms(1) by (cases "buffer_pool_acquire (ts_pool socket)"; cases "fst (buffer_pool_acquire (ts_pool socket))")
      (auto simp: tcp_receive_def default_alloc_cb_def)
  note acq = acquire_Some [OF assms(2) a]
  have card: "card (held pool') = Suc (card (held (ts_pool socket)))"
    using acq(2,3) by (simp add: held_def)
  let ?s1 = "socket\<lparr>ts_pool := pool'\<rparr>"
  have run: "uv_ssl_read_cb ssl try_write cb connect_cb nread data a (?s1, c) = ok (socket', c')"
    using assms(1) by (simp add: tcp_receive_def default_alloc_cb_def a)
  show ?thesis
  proof (cases "0 < nread")
    case False
    then show ?thesis using run acq card assms(3) by (auto simp: uv_ssl_read_cb_def)
  next
    case True
    obtain written s where b: "bio_write ssl (ts_ssl socket) data = (written, s)" by fastforce
    let ?s2 = "?s1\<lparr>ts_ssl := s\<rparr>"
    from run True obtain ret s3 where r: "uv_ssl_rbio_cb ssl try_write cb connect_cb 0x83 written (?s2, c) = ok (ret, s3, c')"
      and rel: "buffer_pool_release (ts_pool s3) a = Inr (ts_pool socket')"
      by (auto simp: uv_ssl_read_cb_def b cbind_ok_iff split: if_splits)
    have "wf_pool (ts_pool ?s2)" using acq(1) by simp
    with r assms(3) have "ts_pool s3 = ts_pool ?s2 \<and> inv c'"
      by (auto simp: uv_ssl_rbio_cb_def cbind_ok_iff split: option.splits if_splits
          dest: read_balanced handshake_balanced)
    then have "ts_pool socket' = ts_pool socket"
      using rel acquire_release [OF assms(2) a] by simp
    with \<open>ts_pool s3 = ts_pool ?s2 \<and> inv c'\<close> show ?thesis using assms(2) True by simp
  qed
qed

end

section \<open>What OpenSSL decrypts reaches the callback\<close>

text \<open>The pieces \<open>SSL_read\<close> returns, one call after the other, until it has no more.\<close>

inductive ssl_yields :: "'s openssl \<Rightarrow> nat \<Rightarrow> 's \<Rightarrow> bytes list \<Rightarrow> 's \<Rightarrow> bool" for ssl n where
  stop: "ssl_read ssl s n = (ret, out, [], s') \<Longrightarrow> ret \<le> 0 \<Longrightarrow> ssl_yields ssl n s [] s'"
| more: "ssl_read ssl s n = (int (length x), x, [], s1) \<Longrightarrow> x \<noteq> [] \<Longrightarrow> ssl_yields ssl n s1 xs s2
    \<Longrightarrow> ssl_yields ssl n s (x # xs) s2"

fun deliver_all :: "(bytes \<Rightarrow> 'c \<Rightarrow> 'c comp) \<Rightarrow> bytes list \<Rightarrow> 'c \<Rightarrow> 'c comp" where
  "deliver_all f [] c = ok c"
| "deliver_all f (x # xs) c = cbind (f x c) (deliver_all f xs)"

lemma do_read_step:
  assumes "tcp_room socket" and "ssl_read ssl (ts_ssl socket) (p_size (ts_pool socket)) = (ret, out, [], s)"
    and "\<And>data socket c. cb data (socket, c) = cbind (f data c) (\<lambda>c'. ok (socket, c'))"
  shows "uv_ssl_do_read ssl try_write cb (socket, c) =
    cbind (if 0 < ret \<and> ts_has_cb socket then f (take (nat ret) out) c else ok c)
      (\<lambda>c'. ok (0 < ret, socket\<lparr>ts_ssl := s\<rparr>, c'))"
proof -
  obtain a pool' where "buffer_pool_acquire (ts_pool socket) = (Some a, pool')"
    "buffer_pool_release pool' a = Inr (ts_pool socket)" "p_size pool' = p_size (ts_pool socket)"
    by (rule tcp_borrow [OF assms(1)])
  with assms(2) show ?thesis
    by (simp add: uv_ssl_do_read_def wbio_writes_def assms(3) cbind_assoc)
qed

lemma read_delivers:
  assumes "ssl_yields ssl n s0 chunks s" and "ts_ssl socket = s0" and "n = p_size (ts_pool socket)"
    and "tcp_room socket" and "ts_has_cb socket"
    and "\<And>data socket c. cb data (socket, c) = cbind (f data c) (\<lambda>c'. ok (socket, c'))"
  shows "uv_ssl_read ssl try_write cb (socket, c) =
    cbind (deliver_all f chunks c) (\<lambda>c'. ok (socket\<lparr>ts_ssl := s\<rparr>, c'))"
  using assms(1-5)
proof (induction arbitrary: socket c rule: ssl_yields.induct)
  case (stop s ret out s')
  have "ssl_read ssl (ts_ssl socket) (p_size (ts_pool socket)) = (ret, out, [], s')"
    using stop by simp
  from do_read_step [where f = f and cb = cb and ssl = ssl and try_write = try_write and c = c and ret = ret
        and out = out and s = s', OF stop.prems(3) this assms(6)] stop(2)
  show ?case by (subst uv_ssl_read.simps) simp
next
  case (more s x s1 xs s2)
  have room: "tcp_room (socket\<lparr>ts_ssl := s1\<rparr>)" using more.prems(3) by (simp add: tcp_room_def)
  have "uv_ssl_do_read ssl try_write cb (socket, c)
      = cbind (f x c) (\<lambda>c'. ok (True, socket\<lparr>ts_ssl := s1\<rparr>, c'))"
    using do_read_step [where f = f and cb = cb and ssl = ssl and try_write = try_write and c = c and ret = "int (length x)"
        and out = x and s = s1, OF more.prems(3) _ assms(6)] more
    by simp
  moreover have "uv_ssl_read ssl try_write cb (socket\<lparr>ts_ssl := s1\<rparr>, c')
      = cbind (deliver_all f xs c') (\<lambda>c''. ok (socket\<lparr>ts_ssl := s2\<rparr>, c''))" for c'
    using more.IH [of "socket\<lparr>ts_ssl := s1\<rparr>" c'] room more.prems(2,4) by simp
  ultimately show ?case
    by (subst uv_ssl_read.simps) (simp add: cbind_assoc)
qed

section \<open>Reads without data\<close>

fun tcp_reads ::
    "'s openssl \<Rightarrow> (bytes \<Rightarrow> int) \<Rightarrow> ('s, 'c) read_cb \<Rightarrow> ('s, 'c) connect_cb \<Rightarrow> (int \<times> bytes) list
      \<Rightarrow> ('s, 'c) tcp_state \<Rightarrow> ('s, 'c) tcp_state comp" where
  "tcp_reads ssl try_write cb connect_cb [] st = ok st"
| "tcp_reads ssl try_write cb connect_cb (r # rs) st =
     cbind (tcp_receive ssl try_write cb connect_cb r st) (tcp_reads ssl try_write cb connect_cb rs)"

context tcp_user begin

lemma reads_balanced:
  assumes "tcp_reads ssl try_write cb connect_cb reads (socket, c) = ok (socket', c')"
    and "wf_pool (ts_pool socket)" and "inv c"
  shows "inv c' \<and> wf_pool (ts_pool socket') \<and> p_count (ts_pool socket') = p_count (ts_pool socket)
    \<and> p_size (ts_pool socket') = p_size (ts_pool socket)
    \<and> card (held (ts_pool socket')) = card (held (ts_pool socket)) + length (filter (\<lambda>r. fst r \<le> 0) reads)"
  using assms
proof (induction reads arbitrary: socket c)
  case (Cons r rs)
  obtain nread data where r: "r = (nread, data)" by fastforce
  from Cons.prems(1) obtain socket1 c1 where
    one: "tcp_receive ssl try_write cb connect_cb (nread, data) (socket, c) = ok (socket1, c1)"
    and rest: "tcp_reads ssl try_write cb connect_cb rs (socket1, c1) = ok (socket', c')"
    by (auto simp: r cbind_ok_iff)
  note first = receive_balanced [OF one Cons.prems(2,3)]
  then have "wf_pool (ts_pool socket1)" and "inv c1" by simp_all
  from Cons.IH [OF rest this] first show ?case by (simp add: r)
qed simp

end

lemma idle_reads:
  assumes "wf_pool (ts_pool socket)" and "\<And>r. r \<in> set reads \<Longrightarrow> fst r \<le> 0"
  shows "if card (held (ts_pool socket)) + length reads \<le> p_count (ts_pool socket)
    then \<exists>socket'. tcp_reads ssl try_write cb connect_cb reads (socket, c) = ok (socket', c)
      \<and> card (held (ts_pool socket')) = card (held (ts_pool socket)) + length reads
    else tcp_reads ssl try_write cb connect_cb reads (socket, c) = faults Assert_failed"
  using assms
proof (induction reads arbitrary: socket)
  case Nil
  then show ?case by (simp add: held_card wf_pool_def)
next
  case (Cons r rs)
  have idle: "fst r \<le> 0" using Cons.prems(2) by simp
  show ?case
  proof (cases "tcp_room socket")
    case True
    obtain a pool' where a: "buffer_pool_acquire (ts_pool socket) = (Some a, pool')" "wf_pool pool'"
      "card (held pool') = Suc (card (held (ts_pool socket)))" "p_count pool' = p_count (ts_pool socket)"
      by (rule tcp_borrow [OF True])
    then have "tcp_receive ssl try_write cb connect_cb r (socket, c) = ok (socket\<lparr>ts_pool := pool'\<rparr>, c)"
      using idle by (cases r) (simp add: tcp_receive_def default_alloc_cb_def uv_ssl_read_cb_def)
    with Cons.IH [of "socket\<lparr>ts_pool := pool'\<rparr>"] Cons.prems(2) a show ?thesis by (auto split: if_splits)
  next
    case False
    with Cons.prems(1) have full: "card (held (ts_pool socket)) = p_count (ts_pool socket)"
      by (simp add: tcp_room_def held_card wf_pool_def)
    then have "fst (buffer_pool_acquire (ts_pool socket)) = None"
      using acquire_full(1) [OF Cons.prems(1)] by simp
    then have "tcp_receive ssl try_write cb connect_cb r (socket, c) = faults Assert_failed"
      by (cases "buffer_pool_acquire (ts_pool socket)"; cases r) (simp add: tcp_receive_def default_alloc_cb_def)
    with full show ?thesis by simp
  qed
qed

section \<open>Properties\<close>

text \<open>
  C26: A write hands the records OpenSSL makes of it to libuv one by one and in order and gives every buffer back, if OpenSSL
  reports more than one byte. It faults in these cases and no other, the first that applies: there is a record and the pool has
  no buffer left (an assertion fails); a record is longer than a buffer (it is written past it) or is not taken whole by libuv
  (an assertion fails), the first record decides; OpenSSL reports one byte or less (an assertion fails).
\<close>

theorem tls_write_sends:
  assumes "wf_pool (ts_pool socket)" and "ssl_write ssl (ts_ssl socket) buf = (ret, records, s)"
  shows "mumble_uv_ssl_write ssl try_write buf socket =
    (if records \<noteq> [] \<and> card (held (ts_pool socket)) = p_count (ts_pool socket) then Inl Assert_failed
     else case List.find (\<lambda>r. p_size (ts_pool socket) < length r \<or> try_write r \<noteq> int (length r)) records of
       Some r \<Rightarrow> Inl (if p_size (ts_pool socket) < length r then Out_of_bounds else Assert_failed)
     | None \<Rightarrow> if 1 < ret then Inr (socket\<lparr>ts_ssl := s, ts_sent := ts_sent socket @ records\<rparr>) else Inl Assert_failed)"
  using wbio_writes_outcome [where socket = "socket\<lparr>ts_ssl := s\<rparr>" and records = records and try_write = try_write] assms
  by (auto simp: mumble_uv_ssl_write_def split: option.splits)

text \<open>
  Everything OpenSSL has decrypted reaches the socket's callback, piece by piece and in order, until
  \<open>SSL_read\<close> has no more; the pool is then as it was. The read loop comes back exactly when the callback does
  on every piece, and with its result.
\<close>

theorem tls_read_delivers:
  assumes "ssl_yields ssl (p_size (ts_pool socket)) (ts_ssl socket) chunks s" and "tcp_room socket"
    and "ts_has_cb socket"
    and "\<And>data socket c. cb data (socket, c) = cbind (f data c) (\<lambda>c'. ok (socket, c'))"
  shows "uv_ssl_read ssl try_write cb (socket, c) =
    cbind (deliver_all f chunks c) (\<lambda>c'. ok (socket\<lparr>ts_ssl := s\<rparr>, c'))"
  by (rule read_delivers [where f = f and cb = cb, OF assms(1) refl refl assms(2-4)])

text \<open>
  C35: Every read that libuv reports without data (\<open>nread\<close> of 0, which means "try again", or an error) keeps the
  buffer that was taken for it: after as many of them as the pool has free buffers, the next one, and with it
  any read, fails an assertion.
\<close>

theorem tls_idle_reads_exhaust_pool:
  assumes "mumble_uv_ssl_init 0 True 1 (Some s) True m = Inr socket" and "inj_on m {..<4}"
    and "\<And>r. r \<in> set reads \<Longrightarrow> fst r \<le> 0"
  shows "if length reads \<le> 4
    then \<exists>socket'. tcp_reads ssl try_write cb connect_cb reads (socket, c) = ok (socket', c)
      \<and> card (held (ts_pool socket')) = length reads
    else tcp_reads ssl try_write cb connect_cb reads (socket, c) = faults Assert_failed"
proof -
  obtain p where p: "buffer_pool_init 4 (16 * 1024) True m = Inr p" and s: "ts_pool socket = p"
    using assms(1) by (auto simp: mumble_uv_ssl_init_def rbind_Inr_iff)
  note w = wf_pool_init [OF p assms(2)]
  show ?thesis
    using idle_reads [where reads = reads and socket = socket and ssl = ssl and try_write = try_write and cb = cb
        and connect_cb = connect_cb and c = c, OF _ assms(3)] w
    by (auto simp: s split: if_splits)
qed

section \<open>Examples\<close>

text \<open>OpenSSL without cryptography: its state is the list of the pieces it has decrypted.\<close>

definition example_ssl :: "bytes list openssl" where
  "example_ssl = \<lparr>ssl_read = (\<lambda>s n. case s of [] \<Rightarrow> (-1, [], [], []) | x # xs \<Rightarrow> (int (length x), x, [], xs)),
     ssl_write = (\<lambda>s buf. (int (length buf), [take 3 buf, drop 3 buf], s)),
     ssl_do_handshake = (\<lambda>s. (1, [], s)), ssl_shutdown = (\<lambda>s. ([], s)), ssl_get_error = (\<lambda>s ret. 0),
     ssl_in_init = (\<lambda>s. False), ssl_is_init_finished = (\<lambda>s. True),
     bio_write = (\<lambda>s data. (int (length data), s @ [data]))\<rparr>"

definition example_socket :: "bytes list \<Rightarrow> bytes list tcp_ssl" where
  "example_socket s = \<lparr>ts_ssl = s, ts_has_cb = True,
     ts_pool = \<lparr>p_buffers = [1, 2, 3, 4], p_in_use = 0, p_size = 16384, p_count = 4\<rparr>, ts_creq = Some True, ts_sent = []\<rparr>"

lemma example_socket_ok: "tcp_room (example_socket s)" "ts_has_cb (example_socket s)" "ts_ssl (example_socket s) = s"
    "p_size (ts_pool (example_socket s)) = 16384"
  by (simp_all add: tcp_room_def example_socket_def wf_pool_def held_def)

lemma example_tls_write:
  "3 < length buf \<Longrightarrow> length buf < 16384 \<Longrightarrow> mumble_uv_ssl_write example_ssl (\<lambda>r. int (length r)) buf (example_socket [])
    = Inr (example_socket []\<lparr>ts_sent := [take 3 buf, drop 3 buf]\<rparr>)"
  using wbio_writes_sends [OF example_socket_ok(1) [of "[]"], where records = "[take 3 buf, drop 3 buf]" and try_write = "\<lambda>r. int (length r)"]
  by (simp add: mumble_uv_ssl_write_def example_ssl_def example_socket_def)

text \<open>A read whose data the socket's user takes in one piece.\<close>

lemma example_read:
  assumes "wf_pool (ts_pool socket)" and "card (held (ts_pool socket)) + 2 \<le> p_count (ts_pool socket)"
    and "ts_ssl socket = []" and "ts_has_cb socket" and "ts_creq socket = Some has_cb" and "data \<noteq> []"
    and read: "\<And>s. read data (s, c) = ok (s, c')"
  shows "tcp_receive example_ssl tw read con (int (length data), data) (socket, c) = ok (socket, c')"
proof -
  let ?p = "ts_pool socket"
  have "tcp_room socket" using assms(1,2) by (simp add: tcp_room_def)
  then obtain a p1 where a: "buffer_pool_acquire ?p = (Some a, p1)" "buffer_pool_release p1 a = Inr ?p" "wf_pool p1"
    "card (held p1) = Suc (card (held ?p))" "p_count p1 = p_count ?p"
    using tcp_borrow [of socket thesis] by auto
  then have "tcp_room (socket\<lparr>ts_pool := p1\<rparr>)" using assms(2) by (simp add: tcp_room_def)
  then obtain b p2 where b: "buffer_pool_acquire p1 = (Some b, p2)" "buffer_pool_release p2 b = Inr p1"
    using tcp_borrow [of "socket\<lparr>ts_pool := p1\<rparr>" thesis] by auto
  have "uv_ssl_do_read example_ssl tw read (socket\<lparr>ts_pool := p1, ts_ssl := [data]\<rparr>, c)
      = ok (True, socket\<lparr>ts_pool := p1\<rparr>, c')"
    using assms(3,4,6) by (simp add: uv_ssl_do_read_def b example_ssl_def wbio_writes_def read)
  moreover have "uv_ssl_do_read example_ssl tw read (socket\<lparr>ts_pool := p1\<rparr>, c') = ok (False, socket\<lparr>ts_pool := p1\<rparr>, c')"
    using assms(3) by (simp add: uv_ssl_do_read_def b example_ssl_def wbio_writes_def)
  ultimately have "uv_ssl_read example_ssl tw read (socket\<lparr>ts_pool := p1, ts_ssl := [data]\<rparr>, c) = ok (socket\<lparr>ts_pool := p1\<rparr>, c')"
    by (simp add: uv_ssl_read.simps)
  then show ?thesis
    using assms(3,5,6) by (simp add: tcp_receive_def default_alloc_cb_def a uv_ssl_read_cb_def uv_ssl_rbio_cb_def example_ssl_def)
qed

theorem tls_write_sends_witness:
  "mumble_uv_ssl_write example_ssl (\<lambda>r. int (length r)) [1, 2, 3, 4] (example_socket [])
    = Inr (example_socket []\<lparr>ts_sent := [[1, 2, 3], [4]]\<rparr>)"
  using tls_write_sends [of "example_socket []" example_ssl "[1, 2, 3, 4]" 4 "[[1, 2, 3], [4]]" "[]" "\<lambda>r. int (length r)"]
    example_socket_ok [of "[]"]
  by (simp add: example_ssl_def example_socket_def tcp_room_def held_def)

theorem tls_read_delivers_witness:
  "uv_ssl_read example_ssl (\<lambda>r. 0) (\<lambda>data (socket, log). ok (socket, log @ data)) (example_socket [[1, 2], [3]], [])
    = ok (example_socket [], [1, 2, 3])"
proof -
  let ?y = "ssl_yields example_ssl 16384"
  have "?y [] [] []" by (rule ssl_yields.stop [where ret = "-1" and out = "[]"]) (simp_all add: example_ssl_def)
  then have "?y [[3]] [[3]] []" by (rule ssl_yields.more [rotated 2]) (simp_all add: example_ssl_def)
  then have "?y [[1, 2], [3]] [[1, 2], [3]] []" by (rule ssl_yields.more [rotated 2]) (simp_all add: example_ssl_def)
  then show ?thesis
    using tls_read_delivers [of example_ssl "example_socket [[1, 2], [3]]" "[[1, 2], [3]]" "[]"
        "\<lambda>data (socket, log). ok (socket, log @ data)" "\<lambda>data log. ok (log @ data)" "\<lambda>r. 0" "[]"]
      example_socket_ok [of "[[1, 2], [3]]"]
    by (simp add: example_socket_def)
qed

theorem tls_idle_reads_exhaust_pool_witness:
  "tcp_reads example_ssl (\<lambda>r. 0) (\<lambda>data st. ok st) (\<lambda>status st. ok st) (replicate 5 (0, []))
     (example_socket []\<lparr>ts_has_cb := False, ts_creq := None\<rparr>, ()) = faults Assert_failed"
proof -
  let ?m = "\<lambda>i. Some (Suc i)" and ?s = "example_socket []\<lparr>ts_has_cb := False, ts_creq := None\<rparr>"
  have "buffer_pool_init 4 16384 True ?m = Inr (ts_pool ?s)"
    by (simp add: buffer_pool_init_def example_socket_def upt_rec list_all_iff)
  then have "mumble_uv_ssl_init 0 True 1 (Some []) True ?m = Inr ?s"
    by (simp add: mumble_uv_ssl_init_def example_socket_def)
  moreover have "inj_on ?m {..<4}" by (simp add: inj_on_def)
  ultimately show ?thesis
    using tls_idle_reads_exhaust_pool [of "[]" ?m ?s "replicate 5 (0, [])" example_ssl "\<lambda>r. 0" "\<lambda>data st. ok st"
      "\<lambda>status st. ok st" "()"] by simp
qed

end
