(* ===== verification/Audio.thy ===== *)
theory Audio
  imports Audio_Packets Udp_Ping Frame_Codec Tcp_Ssl
begin

text \<open>
  The audio subsystem \<^verbatim>\<open>lib/mumble/audio.c\<close>: it joins the packet encoder and decoder, the UDP transport, the
  pinger that finds out whether UDP works, and the TLS stream that carries the audio while it does not.

  The outside world of a call is the state of the TLS socket, which belongs to the client, and the list of
  the datagrams handed to libuv. The functions of opus and OpenSSL and the results of libuv's sends are
  the parameters they are in the theories of the components.
\<close>

record ('d, 'e) mumble_audio =
  au_udp :: udp_ssl
  au_has_cb :: bool
  au_decoder :: "'d audio_decoder"
  au_encoder :: "'e audio_encoder"
  au_addr :: bytes
  au_peer_addr_len :: int
  au_pinger :: udp_ping

section \<open>The code\<close>

text \<open>What the user's callback is handed: \<open>mumble_audio_set_cb\<close> decides whether there is one.\<close>

definition decoder_cb :: "('d, 'e) mumble_audio \<Rightarrow> audio_packet option \<Rightarrow> audio_packet option" where
  "decoder_cb audio decoded = (if au_has_cb audio then decoded else None)"

text \<open>
  \<open>data\<close> are the deciphered bytes. A read behind them faults, although the receiver's buffer goes on (with
  bytes that were never written).
\<close>

definition udp_cb ::
    "'d opus_decode \<Rightarrow> (bytes \<Rightarrow> int) \<Rightarrow> (int \<Rightarrow> bool) \<Rightarrow> bytes \<Rightarrow> ('d, 'e) mumble_audio
      \<Rightarrow> (('d, 'e) mumble_audio \<times> audio_packet option) comp" where
  "udp_cb opus_decode nb_samples malloc_ok data audio =
     cbind (Some (peek data 0 1)) (\<lambda>header.
     if header ! 0 = 0x20 then
       cbind (varint_decode (drop 1 data) (int (length data) - 1) 0) (\<lambda>(ret, timestamp).
       if \<not> 0 < ret then faults Assert_failed
       else ok (audio\<lparr>au_pinger := mumble_udp_ping_recv (au_pinger audio) timestamp\<rparr>, None))
     else
       cbind (mumble_audio_decoder_decode opus_decode nb_samples malloc_ok (au_decoder audio) data (int (length data)))
         (\<lambda>(ret, decoder, decoded).
       ok (audio\<lparr>au_decoder := decoder\<rparr>, decoder_cb audio decoded)))"

text \<open>A datagram arrives: the transport deciphers it and calls \<open>udp_cb\<close>.\<close>

definition audio_udp_receive ::
    "block_cipher \<Rightarrow> block_cipher \<Rightarrow> 'd opus_decode \<Rightarrow> (bytes \<Rightarrow> int) \<Rightarrow> (int \<Rightarrow> bool) \<Rightarrow> bytes \<Rightarrow> ('d, 'e) mumble_audio
      \<Rightarrow> (('d, 'e) mumble_audio \<times> audio_packet option) comp" where
  "audio_udp_receive E D opus_decode nb_samples malloc_ok packet audio =
     cbind (Some (udp_receive E D (au_udp audio) packet)) (\<lambda>(udp, data).
     case data of None \<Rightarrow> ok (audio\<lparr>au_udp := udp\<rparr>, None)
     | Some d \<Rightarrow> udp_cb opus_decode nb_samples malloc_ok d (audio\<lparr>au_udp := udp\<rparr>))"

text \<open>
  A packet of the encoder, on its way to UDP or into the tunnel. \<^verbatim>\<open>malloc\<close> is taken to succeed: when it does not, the code
  clears memory through the null pointer before the assertion that follows can fail.
\<close>

definition encoder_cb ::
    "block_cipher \<Rightarrow> (bytes \<Rightarrow> int) \<Rightarrow> 's openssl \<Rightarrow> (bytes \<Rightarrow> int) \<Rightarrow> bool \<Rightarrow> bytes
      \<Rightarrow> udp_ssl \<times> 's tcp_ssl \<times> bytes list \<Rightarrow> (udp_ssl \<times> 's tcp_ssl \<times> bytes list) res" where
  "encoder_cb E try_send ssl try_write connected buf = (\<lambda>(udp, tcp, datagrams).
     if connected then
       rbind (uv_udp_ssl_write E try_send udp buf (length buf)) (\<lambda>(udp', packet).
       Inr (udp', tcp, datagrams @ [packet]))
     else
       let tcp_buf = replicate (length buf + 6) 0 in
       rbind (poke tcp_buf 0 (htons 1)) (\<lambda>tcp_buf.
       rbind (poke tcp_buf 2 (htonl (of_nat (length buf)))) (\<lambda>tcp_buf.
       rbind (poke tcp_buf 6 buf) (\<lambda>tcp_buf.
       rbind (mumble_uv_ssl_write ssl try_write tcp_buf tcp) (\<lambda>tcp'.
       Inr (udp, tcp', datagrams))))))"

definition mumble_audio_encryption ::
    "bytes \<Rightarrow> bytes \<Rightarrow> bytes \<Rightarrow> nat \<Rightarrow> nat \<Rightarrow> ('d, 'e) mumble_audio \<Rightarrow> ('d, 'e) mumble_audio res" where
  "mumble_audio_encryption k e_iv d_iv n clock audio =
     rbind (uv_udp_ssl_set_encryption (au_udp audio) k e_iv d_iv n) (\<lambda>udp.
     Inr (audio\<lparr>au_udp := udp, au_pinger := mumble_udp_ping_start clock (au_pinger audio)\<rparr>))"

text \<open>The arguments are the memory, the opus objects and the buffer size the initialisations get.\<close>

definition mumble_audio_init ::
    "bool \<Rightarrow> (nat \<Rightarrow> addr option) \<Rightarrow> (addr \<Rightarrow> bytes)
      \<Rightarrow> bool \<Rightarrow> (int \<Rightarrow> 'e option) \<Rightarrow> (u16 \<Rightarrow> u16 \<Rightarrow> int) \<Rightarrow> bytes option \<Rightarrow> bytes option \<Rightarrow> bytes option
      \<Rightarrow> bool \<Rightarrow> 'd option \<Rightarrow> ('d, 'e) mumble_audio res" where
  "mumble_audio_init array_ok m mem struct_ok create buffer_size mem1 mem2 mem3 struct_ok' created =
     rbind (uv_udp_ssl_init array_ok m mem) (\<lambda>udp.
     rbind (mumble_audio_encoder_init struct_ok create buffer_size mem1 mem2 mem3 48000 20 0) (\<lambda>encoder.
     rbind (mumble_audio_decoder_init struct_ok' created) (\<lambda>decoder.
     rbind (mumble_udp_ping_init True) (\<lambda>pinger.
     Inr \<lparr>au_udp = uv_udp_ssl_set_cb udp True, au_has_cb = False,
          au_decoder = mumble_audio_decoder_set_cb decoder True, au_encoder = mumble_audio_encoder_set_cb encoder True,
          au_addr = replicate 128 0, au_peer_addr_len = 0, au_pinger = pinger\<rparr>))))"

definition mumble_audio_is_udp :: "('d, 'e) mumble_audio \<Rightarrow> bool" where
  "mumble_audio_is_udp audio = pg_connected (au_pinger audio)"

text \<open>The decoder is a field, and so the address of it.\<close>

definition mumble_audio_decoder :: "('d, 'e) mumble_audio \<Rightarrow> 'd audio_decoder" where
  "mumble_audio_decoder audio = au_decoder audio"

lemmas mumble_audio_decoder_field [simp] = mumble_audio_decoder_def

text \<open>
  No position is given, so the packet carries whatever the stack holds in \<open>garbage\<close>; it is not sent. The
  target is an \<open>int\<close> that becomes an \<open>unsigned\<close>.
\<close>

definition mumble_audio_send ::
    "'e opus_encode \<Rightarrow> block_cipher \<Rightarrow> (bytes \<Rightarrow> int) \<Rightarrow> 's openssl \<Rightarrow> (bytes \<Rightarrow> int) \<Rightarrow> position \<Rightarrow> i32 \<Rightarrow> bytes \<Rightarrow> nat
      \<Rightarrow> ('d, 'e) mumble_audio \<Rightarrow> 's tcp_ssl \<Rightarrow> bytes list \<Rightarrow> (('d, 'e) mumble_audio \<times> 's tcp_ssl \<times> bytes list) comp" where
  "mumble_audio_send opus_encode E try_send ssl try_write garbage target pcm samples audio tcp datagrams =
     cbind (mumble_audio_encoder_encode opus_encode
         (encoder_cb E try_send ssl try_write (pg_connected (au_pinger audio))) (ucast target) pcm samples garbage
         (au_encoder audio) (au_udp audio, tcp, datagrams)) (\<lambda>(encoder, udp, tcp', datagrams').
     ok (audio\<lparr>au_encoder := encoder, au_udp := udp\<rparr>, tcp', datagrams'))"

definition mumble_audio_set_cb :: "('d, 'e) mumble_audio \<Rightarrow> bool \<Rightarrow> ('d, 'e) mumble_audio" where
  "mumble_audio_set_cb audio cb = audio\<lparr>au_has_cb := cb\<rparr>"

definition mumble_audio_start :: "int \<times> bytes \<times> int \<Rightarrow> ('d, 'e) mumble_audio \<Rightarrow> ('d, 'e) mumble_audio res" where
  "mumble_audio_start peername audio =
     rbind (mumble_uv_ssl_peername peername) (\<lambda>(addr, peer_len).
     Inr (audio\<lparr>au_addr := addr, au_peer_addr_len := peer_len,
       au_pinger := mumble_udp_ping_address (au_pinger audio)\<rparr>))"

definition mumble_audio_stop :: "('d, 'e) mumble_audio \<Rightarrow> ('d, 'e) mumble_audio" where
  "mumble_audio_stop audio = audio\<lparr>au_pinger := mumble_udp_ping_stop (au_pinger audio)\<rparr>"

section \<open>What is sent\<close>

lemma encoder_cb_tunnel:
  "encoder_cb E try_send ssl try_write False buf (udp, tcp, ds) =
     rbind (mumble_uv_ssl_write ssl try_write (frame_bytes (1, buf)) tcp) (\<lambda>tcp'. Inr (udp, tcp', ds))"
proof -
  have "poke (replicate (length buf + 6) 0) 0 (htons 1) = Inr (htons 1 @ replicate (length buf + 4) 0)"
    by (simp add: poke_def)
  moreover have "poke (htons 1 @ replicate (length buf + 4) 0) 2 (htonl w)
      = Inr (htons 1 @ htonl w @ replicate (length buf) 0)" for w
    by (simp add: poke_def)
  moreover have "poke (htons 1 @ htonl w @ replicate (length buf) 0) 6 buf = Inr (htons 1 @ htonl w @ buf)" for w
    by (simp add: poke_def)
  ultimately show ?thesis
    by (simp add: encoder_cb_def Let_def frame_bytes_def)
qed

lemma encoder_cb_datagram:
  "encoder_cb E try_send ssl try_write True buf (udp, tcp, ds) =
     rbind (uv_udp_ssl_write E try_send udp buf (length buf)) (\<lambda>(udp', packet). Inr (udp', tcp, ds @ [packet]))"
  by (simp add: encoder_cb_def)

text \<open>The codec's callback, split into what opus and the framing do and what the user's callback does.\<close>

definition frame_packet :: "'e opus_encode \<Rightarrow> bytes \<Rightarrow> nat \<Rightarrow> 'e opus_encoder \<Rightarrow> ('e opus_encoder \<times> bytes) res" where
  "frame_packet oe f n codec =
     rbind (on_encoder_frame oe (\<lambda>packet fin c. Inr packet) f n False (codec, [])) Inr"

lemma on_encoder_frame_split:
  "on_encoder_frame oe cb f n fin (codec, c) =
     rbind (frame_packet oe f n codec) (\<lambda>(codec', packet). rbind (cb packet fin c) (\<lambda>c'. Inr (codec', c')))"
  by (auto simp: frame_packet_def on_encoder_frame_def Let_def rbind_def split: prod.splits sum.splits)

lemma audio_frame_step:
  "on_encoder_frame oe (encoder_codec_cb cb 4 target pos) f n fin (codec, sequence, c) =
     rbind (frame_packet oe f n codec) (\<lambda>(codec', packet).
     rbind (cb (sent_packet 4 target sequence packet) c) (\<lambda>c'. Inr (codec', sequence + 1, c')))"
  unfolding on_encoder_frame_split encoder_codec_cb_sends
  by (auto simp: rbind_def split: sum.splits)

lemma audio_frames_natural:
  assumes "deliver (on_encoder_frame oe (encoder_codec_cb log_audio 4 target pos)) n fs (codec, sequence, log0)
      = Inr (codec', sequence', log)"
  shows "\<exists>new. log = log0 @ new \<and>
    deliver (on_encoder_frame oe (encoder_codec_cb cb 4 target pos)) n fs (codec, sequence, c)
      = rbind (for_each cb new c) (\<lambda>c'. Inr (codec', sequence', c'))"
  using assms
proof (induction fs arbitrary: codec sequence log0 c)
  case (Cons f fs)
  obtain x fin where f: "f = (x, fin)" by fastforce
  note step = audio_frame_step [of oe _ target pos x n fin codec sequence]
  obtain codec1 packet where p: "frame_packet oe x n codec = Inr (codec1, packet)"
    and rest: "deliver (on_encoder_frame oe (encoder_codec_cb log_audio 4 target pos)) n fs
        (codec1, sequence + 1, log0 @ [sent_packet 4 target sequence packet]) = Inr (codec', sequence', log)"
    using Cons.prems unfolding f deliver.simps step
    by (cases "frame_packet oe x n codec") (auto simp: log_audio_def [of "sent_packet _ _ _ _"])
  let ?q = "sent_packet 4 target sequence packet"
  obtain new where "log = (log0 @ [?q]) @ new"
    using Cons.IH [OF rest] by blast
  moreover have "deliver (on_encoder_frame oe (encoder_codec_cb cb 4 target pos)) n fs (codec1, sequence + 1, c1)
      = rbind (for_each cb new c1) (\<lambda>c'. Inr (codec', sequence', c'))" for c1
    using Cons.IH [OF rest, of c1] \<open>log = (log0 @ [?q]) @ new\<close> by auto
  ultimately show ?case
    by (intro exI [of _ "?q # new"]) (auto simp: f step p rbind_def split: sum.splits)
qed simp

lemma encode_natural:
  assumes "wf_audio_encoder enc"
    and "mumble_audio_encoder_encode oe log_audio target pcm n pos enc [] = ok (enc', log)"
  shows "\<exists>enc''. wf_audio_encoder enc'' \<and> ae_sequence enc'' = ae_sequence enc' \<and>
    mumble_audio_encoder_encode oe cb target pcm n pos enc c = cbind (Some (for_each cb log c)) (\<lambda>c'. ok (enc'', c'))"
proof -
  let ?log = "on_encoder_frame oe (encoder_codec_cb log_audio 4 target pos)" and ?codec = "ae_opus enc"
  let ?cb = "on_encoder_frame oe (encoder_codec_cb cb 4 target pos)" and ?b = "oe_buffer (ae_opus enc)"
  have wf: "wf_buffer ?b" using assms(1) by (simp add: wf_audio_encoder_def wf_opus_encoder_def)
  obtain data b1 codec' where data: "peek pcm 0 (n * 2) = Inr data"
    and enc': "ae_opus enc' = codec'\<lparr>oe_buffer := b1\<rparr>"
    and w: "mumble_buffer_write ?log data False ?b (?codec, ae_sequence enc, []) = ok (b1, codec', ae_sequence enc', log)"
    using assms by (auto simp: mumble_audio_encoder_encode_def mumble_codec_opus_encode_def cbind_ok_iff wf_audio_encoder_def)
  obtain fs r where fs: "buffer_frames (b_allocated ?b) False (pending ?b @ data) = (fs, r)" by fastforce
  have d: "deliver ?log (b_allocated ?b) fs (?codec, ae_sequence enc, []) = Inr (codec', ae_sequence enc', log)"
    using buffer_write_frames [OF wf fs, of ?log "(?codec, ae_sequence enc, [])"] w
    by (cases "deliver ?log (b_allocated ?b) fs (?codec, ae_sequence enc, [])") auto
  from audio_frames_natural [OF d, of cb c]
  have d': "deliver ?cb (b_allocated ?b) fs (?codec, ae_sequence enc, c)
      = rbind (for_each cb log c) (\<lambda>c'. Inr (codec', ae_sequence enc', c'))" by auto
  obtain b2 where b2: "wf_buffer b2" "mumble_buffer_write ?cb data False ?b (?codec, ae_sequence enc, c)
      = Some (rbind (for_each cb log c) (\<lambda>c'. Inr (b2, codec', ae_sequence enc', c')))"
    using buffer_write_frames [OF wf fs, of ?cb "(?codec, ae_sequence enc, c)"]
    by (auto simp: d' rbind_def split: sum.splits)
  let ?enc = "enc\<lparr>ae_opus := codec'\<lparr>oe_buffer := b2\<rparr>, ae_sequence := ae_sequence enc'\<rparr>"
  have "mumble_audio_encoder_encode oe cb target pcm n pos enc c = cbind (Some (for_each cb log c)) (\<lambda>c'. ok (?enc, c'))"
    using b2(2) by (cases "for_each cb log c")
      (use assms(1) in \<open>simp_all add: mumble_audio_encoder_encode_def mumble_codec_opus_encode_def data wf_audio_encoder_def\<close>)
  moreover have "wf_audio_encoder ?enc"
    using audio_encode_sends [OF assms] b2(1) enc' assms(1) by (simp add: wf_audio_encoder_def wf_opus_encoder_def)
  ultimately show ?thesis by (intro exI [of _ ?enc]) simp
qed

text \<open>What becomes of the packets of one call of \<open>mumble_audio_send\<close>, on either path.\<close>

lemma for_each_tunnel:
  "for_each (encoder_cb E try_send ssl try_write False) log (udp, tcp, ds) =
     rbind (for_each (\<lambda>packet. mumble_uv_ssl_write ssl try_write (frame_bytes (1, packet))) log tcp) (\<lambda>tcp'. Inr (udp, tcp', ds))"
  by (induction log arbitrary: tcp) (auto simp: encoder_cb_tunnel rbind_def split: sum.splits)

lemma for_each_datagrams:
  assumes "wf_udp udp" and "pool_room udp" and "\<And>p. p \<in> set log \<Longrightarrow> length p \<le> 1020"
    and "\<And>p. 0 < try_send p" and "\<And>k b. length b = 16 \<Longrightarrow> length (E k b) = 16"
  shows "\<exists>udp' new. for_each (encoder_cb E try_send ssl try_write True) log (udp, tcp, ds) = Inr (udp', tcp, ds @ new)
    \<and> wf_udp udp' \<and> pool_room udp' \<and> map length new = map (\<lambda>p. length p + 4) log"
  using assms(1-3)
proof (induction log arbitrary: udp ds)
  case (Cons p ps)
  have len: "length p \<le> 1020" using Cons.prems(3) by simp
  obtain udp1 packet where w: "uv_udp_ssl_write E try_send udp p (length p) = Inr (udp1, packet)"
    "wf_udp udp1" "pool_room udp1" "u_cipher udp1 = next_enc (u_cipher udp)" "u_has_cb udp1 = u_has_cb udp"
    "length packet = length p + 4" "packet ! 0 = enc_iv (u_cipher udp1) ! 0"
    "take 3 (drop 1 packet) = take 3 (ocb2_tag E (key (u_cipher udp)) (enc_iv (u_cipher udp1)) p)"
    "drop 4 packet = ocb2_cipher E (key (u_cipher udp)) (enc_iv (u_cipher udp1)) p"
    by (rule write_works [where try_send = try_send and E = E, OF Cons.prems(1,2) len assms(4,5)])
  from Cons.IH [OF w(2,3), of "ds @ [packet]"] Cons.prems(3) obtain udp' new where
    "for_each (encoder_cb E try_send ssl try_write True) ps (udp1, tcp, ds @ [packet]) = Inr (udp', tcp, (ds @ [packet]) @ new)"
    "wf_udp udp'" "pool_room udp'" "map length new = map (\<lambda>p. length p + 4) ps" by auto
  with w(1,6) show ?case
    by (intro exI [of _ udp'] exI [of _ "packet # new"]) (simp add: encoder_cb_datagram)
qed simp

section \<open>What is received\<close>

lemma one_datagram:
  assumes "wf_udp a" "pool_room a" "wf_udp b" "pool_room b" "u_has_cb b" "length m \<le> 1020" "udp_link a b"
    and send: "\<And>p. 0 < try_send p"
    and E_len: "\<And>k b. length b = 16 \<Longrightarrow> length (E k b) = 16"
    and D_len: "\<And>k b. length b = 16 \<Longrightarrow> length (D k b) = 16"
    and D_E: "\<And>k b. length b = 16 \<Longrightarrow> D k (E k b) = b"
  obtains a' b' packet where "uv_udp_ssl_write E try_send a m (length m) = Inr (a', packet)"
    "udp_receive E D b packet = Inr (b', Some m)" "wf_udp a'" "pool_room a'" "wf_udp b'" "pool_room b'" "u_has_cb b'"
    "u_cipher a' = next_enc (u_cipher a)" "u_cipher b' = next_dec (u_cipher b)" "udp_link a' b'"
proof -
  have keys: "key (u_cipher a) = key (u_cipher b)" using assms(7) by (simp add: udp_link_def)
  obtain a' b' packet where x: "uv_udp_ssl_write E try_send a m (length m) = Inr (a', packet)"
    "udp_receive E D b packet = Inr (b', Some (ocb2_plain E D (key (u_cipher b)) (dec_iv (u_cipher b'))
        (ocb2_cipher E (key (u_cipher b)) (enc_iv (u_cipher a')) m)))"
    "wf_udp a'" "pool_room a'" "wf_udp b'" "pool_room b'" "u_has_cb b'"
    "u_cipher a' = next_enc (u_cipher a)" "u_cipher b' = next_dec (u_cipher b)"
    by (rule exchange_step [where E = E and D = D and try_send = try_send, OF assms(1-6) keys send E_len D_len])
  have link: "udp_link a' b'" using udp_link_next [OF assms(7) x(8,9)] .
  then have "ocb2_plain E D (key (u_cipher b)) (dec_iv (u_cipher b'))
        (ocb2_cipher E (key (u_cipher b)) (enc_iv (u_cipher a')) m) = m"
    by (simp add: udp_link_def ocb2_plain_cipher [OF E_len D_E])
  with x(2) have "udp_receive E D b packet = Inr (b', Some m)" by simp
  from that [OF x(1) this x(3-9) link] show thesis .
qed

lemma udp_link_back:
  "udp_link b a \<Longrightarrow> u_cipher a' = next_enc (u_cipher a) \<Longrightarrow> u_cipher b' = next_dec (u_cipher b) \<Longrightarrow> udp_link b' a'"
  by (simp add: udp_link_def next_enc_def next_dec_def)

lemma uv_udp_ssl_write_cb:
  "uv_udp_ssl_write E try_send c m n = Inr (c', packet) \<Longrightarrow> u_has_cb c' = u_has_cb c"
  by (auto simp: uv_udp_ssl_write_def encrypt_ocb_def rbind_Inr_iff Let_def split: if_splits option.splits prod.splits)

lemma audio_header_not_ping: "audio_header 4 target \<noteq> 0x20"
proof
  assume "audio_header 4 target = 0x20"
  then have "bit (audio_header 4 target) 7 = bit (0x20 :: byte) 7" by simp
  moreover have "bit (audio_header 4 target) 7"
    by (simp add: audio_header_def bit_simps)
  ultimately show False by simp
qed

text \<open>The reply to a ping: \<open>0x20\<close> and the varint of the time.\<close>

lemma udp_cb_ping:
  "udp_cb od nb mok (0x20 # varint_bytes t) audio =
     ok (audio\<lparr>au_pinger := mumble_udp_ping_recv (au_pinger audio) (if bit t 31 then t OR 0xFFFFFFFF00000000 else t)\<rparr>, None)"
  using varint_decode_bytes [of t "int (length (varint_bytes t))" "[]" 0] varint_bytes_length(1) [of t]
  by (simp add: udp_cb_def varint_encode_size_eq)

text \<open>A relayed packet of voice, once it is deciphered, on its way to the callback.\<close>

lemma voice_data_arrives:
  assumes "udp_receive E D (au_udp audio) packet = Inr (udp', Some p)"
    and "payload \<noteq> []" and "length payload < 0x2000" and "mok (2 * nb payload)"
    and "od (ad_opus (au_decoder audio)) payload (2 * nb payload) = (ret, pcm, d')"
    and "int (length (opus_packet payload)) \<le> ret"
    and "\<not> bit source 31" and "\<not> bit sequence 31" and "ad_sequence (au_decoder audio) \<le> sequence"
    and "ad_has_cb (au_decoder audio)" and "au_has_cb audio"
    and "p = relayed source (sent_packet 4 target sequence (opus_packet payload))" and "8 < length p"
  shows "audio_udp_receive E D od nb mok packet audio = ok (audio\<lparr>au_udp := udp', au_decoder := (au_decoder audio)
          \<lparr>ad_packets := ad_packets (au_decoder audio) + 1, ad_sequence := sequence, ad_opus := d'\<rparr>\<rparr>,
        Some \<lparr>ap_codec = 4, ap_data = pcm, ap_hz = 48000, ap_samples = ret, ap_position = (0, 0, 0),
          ap_sequence = ucast sequence, ap_source = source, ap_target = target AND 0x1F\<rparr>)"
proof -
  have "p ! 0 \<noteq> 0x20" and "peek p 0 1 = Inr [p ! 0]"
    using audio_header_not_ping assms(12) by (simp_all add: relayed_def sent_packet_def peek_def)
  moreover note relayed_packet_decodes [where od = od and nb = nb and mok = mok, OF assms(2-10,12,13)]
  ultimately have "udp_cb od nb mok p (audio\<lparr>au_udp := udp'\<rparr>) = ok (audio\<lparr>au_udp := udp', au_decoder := (au_decoder audio)
          \<lparr>ad_packets := ad_packets (au_decoder audio) + 1, ad_sequence := sequence, ad_opus := d'\<rparr>\<rparr>,
        Some \<lparr>ap_codec = 4, ap_data = pcm, ap_hz = 48000, ap_samples = ret, ap_position = (0, 0, 0),
          ap_sequence = ucast sequence, ap_source = source, ap_target = target AND 0x1F\<rparr>)"
    using assms(11) by (simp add: udp_cb_def decoder_cb_def)
  then show ?thesis by (simp add: audio_udp_receive_def assms(1))
qed

text \<open>The same over a keyed channel.\<close>

lemma voice_packet_arrives:
  assumes "wf_udp s" and "pool_room s" and "wf_udp (au_udp audio)" and "pool_room (au_udp audio)"
    and "u_has_cb (au_udp audio)" and "udp_link s (au_udp audio)"
    and "\<And>p. 0 < try_send p" and "\<And>k b. length b = 16 \<Longrightarrow> length (E k b) = 16"
    and "\<And>k b. length b = 16 \<Longrightarrow> length (D k b) = 16" and "\<And>k b. length b = 16 \<Longrightarrow> D k (E k b) = b"
    and "payload \<noteq> []" and "length payload < 0x2000" and "mok (2 * nb payload)"
    and "od (ad_opus (au_decoder audio)) payload (2 * nb payload) = (ret, pcm, d')"
    and "int (length (opus_packet payload)) \<le> ret"
    and "\<not> bit source 31" and "\<not> bit sequence 31" and "ad_sequence (au_decoder audio) \<le> sequence"
    and "ad_has_cb (au_decoder audio)" and "au_has_cb audio"
    and "p = relayed source (sent_packet 4 target sequence (opus_packet payload))" and "8 < length p" and "length p \<le> 1020"
  obtains s' packet udp' where "uv_udp_ssl_write E try_send s p (length p) = Inr (s', packet)"
    "audio_udp_receive E D od nb mok packet audio = ok (audio\<lparr>au_udp := udp', au_decoder := (au_decoder audio)
          \<lparr>ad_packets := ad_packets (au_decoder audio) + 1, ad_sequence := sequence, ad_opus := d'\<rparr>\<rparr>,
        Some \<lparr>ap_codec = 4, ap_data = pcm, ap_hz = 48000, ap_samples = ret, ap_position = (0, 0, 0),
          ap_sequence = ucast sequence, ap_source = source, ap_target = target AND 0x1F\<rparr>)"
    "udp_link s' udp'" "wf_udp udp'" "pool_room udp'" "wf_udp s'" "pool_room s'" "u_has_cb udp'"
proof -
  obtain s' udp' packet where x: "uv_udp_ssl_write E try_send s p (length p) = Inr (s', packet)"
    "udp_receive E D (au_udp audio) packet = Inr (udp', Some p)" "wf_udp s'" "pool_room s'" "wf_udp udp'" "pool_room udp'"
    "u_has_cb udp'" "u_cipher s' = next_enc (u_cipher s)" "u_cipher udp' = next_dec (u_cipher (au_udp audio))"
    "udp_link s' udp'"
    by (rule one_datagram [where E = E and D = D and try_send = try_send, OF assms(1-5,23,6-10)])
  note voice_data_arrives [where od = od and nb = nb and mok = mok, OF x(2) assms(11-22)]
  from that [OF x(1) this x(10,5,6,3,4,7)] show thesis .
qed

section \<open>Properties\<close>

text \<open>
  C12: While UDP is not connected, the audio of a call goes into the TLS stream and nowhere else: every packet
  the encoder makes is one frame of the tunnel type 1 that the control channel's framing reads back,
  written in order; the datagrams and the UDP transport stay as they are.
\<close>

theorem audio_tunnels:
  assumes "wf_audio_encoder (au_encoder audio)" and "\<not> mumble_audio_is_udp audio"
    and "mumble_audio_encoder_encode oe log_audio (ucast target) pcm n pos (au_encoder audio) [] = ok (enc', log)"
  shows "\<exists>enc. wf_audio_encoder enc \<and> ae_sequence enc = ae_sequence enc' \<and>
    mumble_audio_send oe E try_send ssl try_write pos target pcm n audio tcp datagrams =
      cbind (Some (for_each (\<lambda>packet. mumble_uv_ssl_write ssl try_write (frame_bytes (1, packet))) log tcp))
        (\<lambda>tcp'. ok (audio\<lparr>au_encoder := enc\<rparr>, tcp', datagrams))"
proof -
  let ?cb = "encoder_cb E try_send ssl try_write False" and ?c = "(au_udp audio, tcp, datagrams)"
  from encode_natural [OF assms(1,3), of ?cb ?c] obtain enc where
    "wf_audio_encoder enc" "ae_sequence enc = ae_sequence enc'"
    "mumble_audio_encoder_encode oe ?cb (ucast target) pcm n pos (au_encoder audio) ?c
      = cbind (Some (for_each ?cb log ?c)) (\<lambda>c'. ok (enc, c'))" by blast
  moreover have "au_udp audio = u \<Longrightarrow> audio\<lparr>au_encoder := enc, au_udp := u\<rparr> = audio\<lparr>au_encoder := enc\<rparr>" for u
    by (cases audio) simp
  ultimately show ?thesis
    using assms(2)
    by (intro exI [of _ enc]) (cases "for_each (\<lambda>packet. mumble_uv_ssl_write ssl try_write (frame_bytes (1, packet))) log tcp";
      simp add: mumble_audio_send_def mumble_audio_is_udp_def for_each_tunnel)
qed

text \<open>
  C23: While UDP is connected, sending audio cannot fail in the transport: with the program's encoder buffer
  of 960 bytes every packet is below the limit of a datagram, each is sent as one datagram four bytes longer
  than the packet, and the TLS stream is not touched.
\<close>

theorem audio_sends_datagrams:
  assumes "wf_audio_encoder (au_encoder audio)" and "oe_framed_size (ae_opus (au_encoder audio)) \<le> 960"
    and "mumble_audio_is_udp audio" and "wf_udp (au_udp audio)" and "pool_room (au_udp audio)"
    and "\<And>p. 0 < try_send p" and "\<And>k b. length b = 16 \<Longrightarrow> length (E k b) = 16"
    and "mumble_audio_encoder_encode oe log_audio (ucast target) pcm n pos (au_encoder audio) [] = ok (enc', log)"
  shows "\<exists>audio' new. mumble_audio_send oe E try_send ssl try_write pos target pcm n audio tcp datagrams
      = ok (audio', tcp, datagrams @ new)
    \<and> map length new = map (\<lambda>p. length p + 4) log \<and> wf_udp (au_udp audio') \<and> pool_room (au_udp audio')
    \<and> ae_sequence (au_encoder audio') = ae_sequence (au_encoder audio) + of_nat (length log)"
proof -
  let ?cb = "encoder_cb E try_send ssl try_write True" and ?c = "(au_udp audio, tcp, datagrams)"
  note sent = audio_encode_fits [OF assms(1,2,8)]
  from encode_natural [OF assms(1,8), of ?cb ?c] obtain enc where
    enc: "ae_sequence enc = ae_sequence enc'" "mumble_audio_encoder_encode oe ?cb (ucast target) pcm n pos (au_encoder audio) ?c
      = cbind (Some (for_each ?cb log ?c)) (\<lambda>c'. ok (enc, c'))" by blast
  have "length p \<le> 1020" if "p \<in> set log" for p
    using sent(2) that by (auto simp: in_set_conv_nth)
  from for_each_datagrams [where log = log and E = E and try_send = try_send, OF assms(4,5) this assms(6,7)]
  obtain udp' new where "for_each ?cb log ?c = Inr (udp', tcp, datagrams @ new)" "wf_udp udp'" "pool_room udp'"
    "map length new = map (\<lambda>p. length p + 4) log" by blast
  with enc assms(3) sent(1) show ?thesis
    by (intro exI [of _ "audio\<lparr>au_encoder := enc, au_udp := udp'\<rparr>"] exI [of _ new])
      (simp add: mumble_audio_send_def mumble_audio_is_udp_def)
qed

text \<open>
  C27: The ping of a client that a server echoes over a crosswise keyed channel makes the client use UDP, until
  2038: with bit 31 of the time set the client reads back another time than it sent and the reply is
  ignored.
\<close>

theorem ping_echo_connects:
  assumes "wf_ping (au_pinger audio)" and "wf_udp (au_udp audio)" and "pool_room (au_udp audio)"
    and "u_has_cb (au_udp audio)" and "wf_udp s" and "pool_room s" and "u_has_cb s"
    and "udp_link (au_udp audio) s" and "udp_link s (au_udp audio)" and "t < 0x100000000"
    and "\<And>p. 0 < try_send p" and "\<And>k b. length b = 16 \<Longrightarrow> length (E k b) = 16"
    and "\<And>k b. length b = 16 \<Longrightarrow> length (D k b) = 16" and "\<And>k b. length b = 16 \<Longrightarrow> D k (E k b) = b"
  shows "\<exists>pinger udp packet s1 m s2 reply audio'.
      period_timer_cb E try_send t t clock (au_pinger audio) (au_udp audio) = Inr (pinger, udp, packet)
    \<and> udp_receive E D s packet = Inr (s1, Some m) \<and> uv_udp_ssl_write E try_send s1 m (length m) = Inr (s2, reply)
    \<and> audio_udp_receive E D od nb mok reply (audio\<lparr>au_udp := udp, au_pinger := pinger\<rparr>) = ok (audio', None)
    \<and> (if bit t 31 then mumble_audio_is_udp audio' = mumble_audio_is_udp audio else mumble_audio_is_udp audio')"
proof -
  let ?m = "0x20 # varint_bytes t"
  have len: "length ?m \<le> 1020" using varint_bytes_length(2) [of t] by simp
  obtain udp s1 packet where go: "uv_udp_ssl_write E try_send (au_udp audio) ?m (length ?m) = Inr (udp, packet)"
    "udp_receive E D s packet = Inr (s1, Some ?m)" "wf_udp udp" "pool_room udp" "wf_udp s1" "pool_room s1" "u_has_cb s1"
    "u_cipher udp = next_enc (u_cipher (au_udp audio))" "u_cipher s1 = next_dec (u_cipher s)" "udp_link udp s1"
    by (rule one_datagram [where E = E and D = D and try_send = try_send, OF assms(2,3,5,6,7) len assms(8,11-14)])
  obtain pinger udp' packet' where p: "period_timer_cb E try_send t t clock (au_pinger audio) (au_udp audio)
      = Inr (pinger, udp', packet')"
    "uv_udp_ssl_write E try_send (au_udp audio) ?m (length ?m) = Inr (udp', packet')"
    "wf_udp udp'" "pool_room udp'" "wf_ping pinger" "pg_timestamp pinger = t" "pg_waiting pinger"
    "pg_connected pinger = pg_connected (au_pinger audio)" "pg_reply_due pinger = Some (clock + pg_timeout (au_pinger audio))"
    by (rule period_timer_works [where E = E and try_send = try_send, OF assms(1,2,3,10,11,12)])
  have same: "udp' = udp" "packet' = packet" using p(2) go(1) by simp_all
  have cb: "u_has_cb udp" using uv_udp_ssl_write_cb [OF go(1)] assms(4) by simp
  have rlink: "udp_link s1 udp" by (rule udp_link_back [OF assms(9) go(8,9)])
  obtain s2 udp2 reply where ret: "uv_udp_ssl_write E try_send s1 ?m (length ?m) = Inr (s2, reply)"
    "udp_receive E D udp reply = Inr (udp2, Some ?m)" "wf_udp s2" "pool_room s2" "wf_udp udp2" "pool_room udp2"
    "u_has_cb udp2" "u_cipher s2 = next_enc (u_cipher s1)" "u_cipher udp2 = next_dec (u_cipher udp)" "udp_link s2 udp2"
    by (rule one_datagram [where E = E and D = D and try_send = try_send, OF go(5,6,3,4) cb len rlink assms(11-14)])
  let ?t = "if bit t 31 then t OR 0xFFFFFFFF00000000 else t"
  have differs: "?t \<noteq> t" if "bit t 31"
  proof -
    have "\<not> bit t 63" using word_less_bit [of t 32 63] assms(10) by auto
    moreover have "bit (t OR 0xFFFFFFFF00000000) 63" by (simp add: bit_simps byte_bits)
    ultimately show ?thesis using that by auto
  qed
  have "audio_udp_receive E D od nb mok reply (audio\<lparr>au_udp := udp, au_pinger := pinger\<rparr>)
      = ok (audio\<lparr>au_udp := udp2, au_pinger := mumble_udp_ping_recv pinger ?t\<rparr>, None)"
    by (simp add: audio_udp_receive_def ret(2) udp_cb_ping)
  moreover have "pg_connected (mumble_udp_ping_recv pinger ?t) = (if bit t 31 then pg_connected (au_pinger audio) else True)"
    using p(6,7,8) differs by (auto simp: mumble_udp_ping_recv_def)
  ultimately show ?thesis
    using p(1) go(2) ret(1) same by (auto simp: mumble_audio_is_udp_def)
qed

text \<open>
  C31: A datagram of five bytes ends the program, whatever the bytes are and whoever sent them: four of them
  are not checked, and the fifth is a ping without a time or a voice packet that is too short, both of
  which fail an assertion.
\<close>

theorem five_bytes_end_the_program:
  assumes "wf_udp (au_udp audio)" and "pool_room (au_udp audio)" and "u_has_cb (au_udp audio)" and "length packet = 5"
    and "\<And>k b. length b = 16 \<Longrightarrow> length (E k b) = 16" and "\<And>k b. length b = 16 \<Longrightarrow> length (D k b) = 16"
  shows "audio_udp_receive E D od nb mok packet audio = faults Assert_failed"
proof -
  have len: "length (take 4 packet) = 4" "length (drop 4 packet) \<le> 1020" using assms(4) by simp_all
  let ?plain = "ocb2_plain E D (key (u_cipher (au_udp audio))) (dec_iv (next_dec (u_cipher (au_udp audio)))) (drop 4 packet)"
  obtain udp where r: "udp_receive E D (au_udp audio) (take 4 packet @ drop 4 packet) = Inr (udp, Some ?plain)"
    "wf_udp udp" "pool_room udp" "u_cipher udp = next_dec (u_cipher (au_udp audio))" "u_has_cb udp"
    by (rule receive_works [where E = E and D = D, OF assms(1-3) len assms(5,6)])
  have "length ?plain = 1"
    using ocb2_plain_length [of E, OF assms(5)] assms(4) by simp
  then obtain b where b: "?plain = [b]" by (auto simp: length_Suc_conv)
  have "varint_decode [] 0 0 = ok (0, 0)" by (simp add: varint_decode.simps)
  then have "udp_cb od nb mok [b] a = faults Assert_failed" for a
    by (simp add: udp_cb_def mumble_audio_decoder_decode_def Let_def)
  with r(1) b show ?thesis by (simp add: audio_udp_receive_def)
qed

text \<open>
  Voice arrives. A packet of opus data that a client sent and the server relays over a crosswise keyed
  channel reaches the receiver's callback with the sender's number, the sequence number, the target and
  the samples opus makes of exactly the sender's payload, and the channel stays usable.
\<close>

theorem relayed_voice_arrives:
  assumes "wf_udp s" and "pool_room s" and "wf_udp (au_udp audio)" and "pool_room (au_udp audio)"
    and "u_has_cb (au_udp audio)" and "udp_link s (au_udp audio)"
    and "\<And>p. 0 < try_send p" and "\<And>k b. length b = 16 \<Longrightarrow> length (E k b) = 16"
    and "\<And>k b. length b = 16 \<Longrightarrow> length (D k b) = 16" and "\<And>k b. length b = 16 \<Longrightarrow> D k (E k b) = b"
    and "payload \<noteq> []" and "length payload < 0x2000" and "mok (2 * nb payload)"
    and "od (ad_opus (au_decoder audio)) payload (2 * nb payload) = (ret, pcm, d')"
    and "int (length (opus_packet payload)) \<le> ret"
    and "\<not> bit source 31" and "\<not> bit sequence 31" and "ad_sequence (au_decoder audio) \<le> sequence"
    and "ad_has_cb (au_decoder audio)" and "au_has_cb audio"
    and "p = relayed source (sent_packet 4 target sequence (opus_packet payload))" and "8 < length p" and "length p \<le> 1020"
  shows "\<exists>s' packet udp'. uv_udp_ssl_write E try_send s p (length p) = Inr (s', packet)
    \<and> audio_udp_receive E D od nb mok packet audio = ok (audio\<lparr>au_udp := udp', au_decoder := (au_decoder audio)
          \<lparr>ad_packets := ad_packets (au_decoder audio) + 1, ad_sequence := sequence, ad_opus := d'\<rparr>\<rparr>,
        Some \<lparr>ap_codec = 4, ap_data = pcm, ap_hz = 48000, ap_samples = ret, ap_position = (0, 0, 0),
          ap_sequence = ucast sequence, ap_source = source, ap_target = target AND 0x1F\<rparr>)
    \<and> udp_link s' udp' \<and> wf_udp udp' \<and> pool_room udp'"
proof -
  obtain s' packet udp' where x: "uv_udp_ssl_write E try_send s p (length p) = Inr (s', packet)"
    "audio_udp_receive E D od nb mok packet audio = ok (audio\<lparr>au_udp := udp', au_decoder := (au_decoder audio)
          \<lparr>ad_packets := ad_packets (au_decoder audio) + 1, ad_sequence := sequence, ad_opus := d'\<rparr>\<rparr>,
        Some \<lparr>ap_codec = 4, ap_data = pcm, ap_hz = 48000, ap_samples = ret, ap_position = (0, 0, 0),
          ap_sequence = ucast sequence, ap_source = source, ap_target = target AND 0x1F\<rparr>)"
    "udp_link s' udp'" "wf_udp udp'" "pool_room udp'"
    by (rule voice_packet_arrives [where E = E and D = D and try_send = try_send and od = od and nb = nb and mok = mok, OF assms])
  then show ?thesis by (intro exI [of _ s'] exI [of _ packet] exI [of _ udp']) simp
qed

section \<open>Examples\<close>

definition example_audio :: "bool \<Rightarrow> (unit, unit) mumble_audio" where
  "example_audio connected = \<lparr>au_udp = example_udp, au_has_cb = True, au_decoder = example_decoder 3,
     au_encoder = example_audio_encoder, au_addr = [], au_peer_addr_len = 0,
     au_pinger = example_ping\<lparr>pg_connected := connected\<rparr>\<rparr>"

lemma example_audio_ok:
  "wf_audio_encoder (au_encoder (example_audio b))" "oe_framed_size (ae_opus (au_encoder (example_audio b))) \<le> 960"
  "mumble_audio_is_udp (example_audio b) = b" "au_udp (example_audio b) = example_udp"
  "wf_ping (au_pinger (example_audio b))" "au_has_cb (example_audio b)" "au_decoder (example_audio b) = example_decoder 3"
  "au_encoder (example_audio b) = example_audio_encoder"
  using example_ping_ok
  by (simp_all add: example_audio_def wf_audio_encoder_def wf_opus_encoder_def example_audio_encoder_def
      example_opus_encoder_def wf_buffer_def mumble_audio_is_udp_def wf_ping_def)

theorem audio_tunnels_witness:
  "\<exists>audio'. mumble_audio_send example_opus_encode example_cipher (\<lambda>_. 1) example_ssl (\<lambda>r. int (length r)) (0, 0, 0) 1
      [1, 2, 3, 4, 5, 6] 3 (example_audio False) (example_socket []) []
    = ok (audio', example_socket []\<lparr>ts_sent := [[0, 1, 0], [0, 0, 5, 0x81, 9, 2, 1, 2]]\<rparr>, [])"
proof -
  obtain enc' where run: "mumble_audio_encoder_encode example_opus_encode log_audio (ucast (1 :: i32)) [1, 2, 3, 4, 5, 6] 3 (0, 0, 0)
       (au_encoder (example_audio False)) [] = ok (enc', [[0x81, 9, 2, 1, 2]])"
    using example_audio_run by (auto simp: example_audio_ok)
  have "frame_bytes (1, [0x81, 9, 2, 1, 2]) = [0, 1, 0, 0, 0, 5, 0x81, 9, 2, 1, 2]"
    by (simp add: frame_bytes_def htons_def htonl_def)
  moreover have "mumble_uv_ssl_write example_ssl (\<lambda>r. int (length r)) [0, 1, 0, 0, 0, 5, 0x81, 9, 2, 1, 2] (example_socket [])
      = Inr (example_socket []\<lparr>ts_sent := [[0, 1, 0], [0, 0, 5, 0x81, 9, 2, 1, 2]]\<rparr>)"
    using example_tls_write [of "[0, 1, 0, 0, 0, 5, 0x81, 9, 2, 1, 2]"] by simp
  ultimately show ?thesis
    using audio_tunnels [OF example_audio_ok(1) _ run, of example_cipher "\<lambda>_. 1" example_ssl "\<lambda>r. int (length r)" "example_socket []" "[]"]
    by (auto simp: example_audio_ok)
qed

theorem audio_sends_datagrams_witness:
  "\<exists>audio' datagram. mumble_audio_send example_opus_encode example_cipher (\<lambda>_. 1) example_ssl (\<lambda>r. int (length r)) (0, 0, 0) 1
      [1, 2, 3, 4, 5, 6] 3 (example_audio True) (example_socket []) [] = ok (audio', example_socket [], [datagram])
    \<and> length datagram = 9"
proof -
  obtain enc' where run: "mumble_audio_encoder_encode example_opus_encode log_audio (ucast (1 :: i32)) [1, 2, 3, 4, 5, 6] 3 (0, 0, 0)
       (au_encoder (example_audio True)) [] = ok (enc', [[0x81, 9, 2, 1, 2]])"
    using example_audio_run by (auto simp: example_audio_ok)
  obtain audio' new where "mumble_audio_send example_opus_encode example_cipher (\<lambda>_. 1) example_ssl (\<lambda>r. int (length r)) (0, 0, 0) 1
      [1, 2, 3, 4, 5, 6] 3 (example_audio True) (example_socket []) [] = ok (audio', example_socket [], [] @ new)"
    "map length new = map (\<lambda>p. length p + 4) [[0x81, 9, 2, 1, 2 :: byte]]"
    using audio_sends_datagrams [where E = example_cipher and try_send = "\<lambda>_. 1", OF example_audio_ok(1,2) _ _ _ _ _ run,
        of example_ssl "\<lambda>r. int (length r)" "example_socket []" "[]"] example_udp_ok
    by (auto simp: example_audio_ok example_cipher_ok)
  then show ?thesis by (auto simp: map_eq_Cons_conv)
qed

theorem ping_echo_connects_witness:
  "\<exists>pinger udp packet s1 m s2 reply audio'.
      period_timer_cb example_cipher (\<lambda>_. 1) 77 77 0 (au_pinger (example_audio False)) example_udp = Inr (pinger, udp, packet)
    \<and> udp_receive example_cipher example_decipher example_udp packet = Inr (s1, Some m)
    \<and> uv_udp_ssl_write example_cipher (\<lambda>_. 1) s1 m (length m) = Inr (s2, reply)
    \<and> audio_udp_receive example_cipher example_decipher example_samples (\<lambda>_. 480) (\<lambda>_. True) reply
        ((example_audio False)\<lparr>au_udp := udp, au_pinger := pinger\<rparr>) = ok (audio', None)
    \<and> mumble_audio_is_udp audio'"
proof -
  have "\<not> bit (77 :: u64) 31" using word_less_bit [of 77 7 31] by (auto simp: word_less_nat_alt)
  then show ?thesis
    using ping_echo_connects [of "example_audio False" example_udp 77 "\<lambda>_. 1" example_cipher example_decipher 0
        example_samples "\<lambda>_. 480" "\<lambda>_. True"] example_udp_ok
    by (simp add: example_audio_ok example_cipher_ok word_less_nat_alt)
qed

theorem five_bytes_end_the_program_witness:
  "audio_udp_receive example_cipher example_decipher example_samples (\<lambda>_. 480) (\<lambda>_. True) [1, 2, 3, 4, 5] (example_audio True)
    = faults Assert_failed"
  using five_bytes_end_the_program [of "example_audio True" "[1, 2, 3, 4, 5]" example_cipher example_decipher] example_udp_ok
  by (simp add: example_audio_ok example_cipher_ok)

theorem relayed_voice_arrives_witness:
  "\<exists>s' packet audio'. uv_udp_ssl_write example_cipher (\<lambda>_. 1) example_udp (example_relayed 4) 9 = Inr (s', packet)
    \<and> audio_udp_receive example_cipher example_decipher example_samples (\<lambda>_. 480) (\<lambda>_. True) packet (example_audio True)
      = ok (audio', Some \<lparr>ap_codec = 4, ap_data = [1, 2, 3, 4, 5], ap_hz = 48000, ap_samples = 480, ap_position = (0, 0, 0),
         ap_sequence = 4, ap_source = 7, ap_target = 1\<rparr>)"
proof -
  have "length (example_relayed 4) = 9" by (simp add: example_relayed_eq)
  then show ?thesis
    using relayed_voice_arrives [of example_udp "example_audio True" "\<lambda>_. 1" example_cipher example_decipher "[1, 2, 3, 4, 5]"
        "\<lambda>_. True" "\<lambda>_. 480" example_samples 480 "[1, 2, 3, 4, 5]" "()" 7 4 "example_relayed 4" 1] example_udp_ok
    by (auto simp: example_audio_ok example_cipher_ok example_samples_def example_decoder_def opus_packet_def
        varint_bytes_small example_relayed_def)
qed

end
