(* ===== verification/Voice_Call.thy ===== *)
theory Voice_Call
  imports Audio Ocb2_Spec
begin

text \<open>
  A call from end to end: the packets of one client's PCM over UDP, through the server, to another client's callback.

  Opus and the server are not part of the program, and are parameters. Of opus is assumed what its documentation says; the lengths
  of the packets it makes are a hypothesis on the call. Of the server, that it relays: it reads the datagrams of the protocol,
  whose cipher is OCB2 as \<open>Ocb2_Spec\<close> defines it, and answers with datagrams of the protocol that carry the same packets with
  the number of the sender.
\<close>

section \<open>What opus makes of the samples\<close>

text \<open>
  Opus on the program's frames of 480 samples: \<open>opus_encode\<close> returns the length of the packet it has written, at most the 960 bytes it may
  use, and the packet decodes to as many samples as went into it.
\<close>

definition opus_documented :: "'e opus_encode \<Rightarrow> 'd opus_decode \<Rightarrow> (bytes \<Rightarrow> int) \<Rightarrow> bool" where
  "opus_documented oe od nb \<longleftrightarrow> (\<forall>e f. length f = 960 \<longrightarrow> (case oe e f 480 960 of (ret, out, e') \<Rightarrow>
     0 < ret \<and> ret \<le> 960 \<and> nat ret \<le> length out
     \<and> (\<forall>d. fst (od d (take (nat ret) out) (2 * nb (take (nat ret) out))) = 480)))"

definition voice_payloads :: "'e opus_encode \<Rightarrow> 'e audio_encoder \<Rightarrow> bytes \<Rightarrow> bytes list" where
  "voice_payloads oe enc data = opus_payloads oe 480 960 (oe_encoder (ae_opus enc)) (opus_frames (ae_opus enc) data)"

fun sent_packets :: "u64 \<Rightarrow> u32 \<Rightarrow> bytes list \<Rightarrow> bytes list" where
  "sent_packets target q [] = []"
| "sent_packets target q (p # ps) = sent_packet 4 target q (opus_packet p) # sent_packets target (q + 1) ps"

text \<open>What the receiver's callback is to be handed.\<close>

fun voices :: "'d opus_decode \<Rightarrow> (bytes \<Rightarrow> int) \<Rightarrow> u64 \<Rightarrow> u64 \<Rightarrow> u32 \<Rightarrow> 'd \<Rightarrow> bytes list \<Rightarrow> audio_packet list" where
  "voices od nb source target q d [] = []"
| "voices od nb source target q d (p # ps) =
     (case od d p (2 * nb p) of (ret, pcm, d') \<Rightarrow>
        \<lparr>ap_codec = 4, ap_data = pcm, ap_hz = 48000, ap_samples = ret, ap_position = (0, 0, 0),
          ap_sequence = ucast q, ap_source = source, ap_target = target AND 0x1F\<rparr> # voices od nb source target (q + 1) d' ps)"

text \<open>The encoder \<open>main\<close> sets up.\<close>

definition program_encoder :: "'e audio_encoder \<Rightarrow> bool" where
  "program_encoder enc \<longleftrightarrow> wf_audio_encoder enc \<and> b_allocated (oe_buffer (ae_opus enc)) = 960
     \<and> oe_codec_size (ae_opus enc) = 960 \<and> oe_framed_size (ae_opus enc) = 960"

section \<open>Sending\<close>

lemma small_varint:
  assumes "n \<le> 478"
  shows "length (varint_bytes (of_nat n)) \<le> 2" and "varint_encode_size (of_nat n) \<le> 2"
proof -
  have "unat (of_nat n :: u64) = n" using assms by (simp add: unsigned_of_nat take_bit_nat_eq_self)
  then have "(of_nat n :: u64) < 0x4000" using assms by (simp add: word_less_nat_alt)
  then show "length (varint_bytes (of_nat n)) \<le> 2" and "varint_encode_size (of_nat n) \<le> 2"
    using varint_sizes(1,2) [of "of_nat n"] by (cases "(of_nat n :: u64) < 0x80"; simp)+
qed

lemma frame_packet_works:
  assumes "oe (oe_encoder codec) f 480 960 = (ret, out, e')" and "0 < ret" and "ret \<le> 478" and "nat ret \<le> length out"
    and "length (oe_framed codec) = 960" and "oe_framed_size codec = 960" and "oe_codec_size codec = 960"
  shows "\<exists>framed. frame_packet oe f 960 codec = Inr (codec\<lparr>oe_encoder := e', oe_framed := framed\<rparr>, opus_packet (take (nat ret) out))
    \<and> length framed = 960"
proof -
  let ?p = "take (nat ret) out"
  define v where "v = varint_bytes (of_nat (nat ret))"
  have w: "(word_of_int ret :: u64) = of_nat (nat ret)" using assms(2) by simp
  have small: "length v \<le> 2" "varint_encode_size (of_nat (nat ret)) \<le> 2"
    unfolding v_def using small_varint [of "nat ret"] assms(3) by auto
  have enc: "varint_encode (word_of_int ret) (oe_framed codec) 960 0 = Inr (0, v @ drop (length v) (oe_framed codec), int (length v))"
    unfolding w v_def using small assms(5) by (intro varint_encode_eq) (simp_all add: v_def)
  let ?framed = "v @ ?p @ drop (length v + nat ret) (oe_framed codec)"
  have peek: "peek out 0 (nat ret) = Inr ?p" using assms(4) by (simp add: peek_def)
  have poke: "poke (v @ drop (length v) (oe_framed codec)) (length v) ?p = Inr ?framed"
    using small(1) assms(3-5) by (simp add: poke_def add.commute)
  have fit: "ret + int (length v) < 960" using small(1) assms(3) by linarith
  have packet: "opus_packet ?p = v @ ?p"
    using assms(4) by (simp only: opus_packet_def v_def length_take min_absorb2)
  have n: "nat (int (length v) + ret) = length v + nat ret" using assms(2) by (simp add: nat_add_distrib)
  have tk: "take (length v + nat ret) ?framed = v @ ?p" using assms(4) by simp
  have "on_encoder_frame oe (\<lambda>packet fin c. Inr packet) f 960 False (codec, [])
      = Inr (codec\<lparr>oe_encoder := e', oe_framed := ?framed\<rparr>, opus_packet ?p)"
    unfolding packet using assms(1,2,6,7) fit by (simp add: on_encoder_frame_def enc peek poke n tk del: take_append)
  moreover have "length ?framed = 960" using small(1) assms(3-5) by simp
  ultimately show ?thesis by (intro exI [of _ ?framed]) (simp add: frame_packet_def)
qed

lemma deliver_voice:
  assumes "opus_documented oe od nb" and "\<forall>f \<in> fst ` set fs. length f = 960"
    and "\<forall>p \<in> set (opus_payloads oe 480 960 (oe_encoder codec) (map fst fs)). length p \<le> 478"
    and "length (oe_framed codec) = 960" and "oe_framed_size codec = 960" and "oe_codec_size codec = 960"
  shows "\<exists>e framed. length framed = 960 \<and>
    deliver (on_encoder_frame oe (encoder_codec_cb cb 4 target pos)) 960 fs (codec, q, c) =
      rbind (for_each cb (sent_packets target q (opus_payloads oe 480 960 (oe_encoder codec) (map fst fs))) c)
        (\<lambda>c'. Inr (codec\<lparr>oe_encoder := e, oe_framed := framed\<rparr>, q + of_nat (length fs), c'))"
  using assms(2-6)
proof (induction fs arbitrary: codec q c)
  case Nil
  then show ?case by (intro exI [of _ "oe_encoder codec"] exI [of _ "oe_framed codec"]) simp
next
  case (Cons x fs)
  obtain f fin where x: "x = (f, fin)" by fastforce
  obtain ret out e' where oe: "oe (oe_encoder codec) f 480 960 = (ret, out, e')" by (cases "oe (oe_encoder codec) f 480 960") auto
  have len: "length f = 960" using Cons.prems(1) x by simp
  from assms(1) [unfolded opus_documented_def, rule_format, OF len, of "oe_encoder codec"]
  have ret: "0 < ret" "nat ret \<le> length out" by (simp_all add: oe)
  moreover have "length (take (nat ret) out) \<le> 478" using Cons.prems(2) by (simp add: x oe)
  ultimately have small: "ret \<le> 478" by (simp add: min_absorb2)
  obtain framed where fp: "frame_packet oe f 960 codec
      = Inr (codec\<lparr>oe_encoder := e', oe_framed := framed\<rparr>, opus_packet (take (nat ret) out))" "length framed = 960"
    using frame_packet_works [of oe codec f ret out e', OF oe ret(1) small ret(2) Cons.prems(3-5)] by blast
  let ?codec = "codec\<lparr>oe_encoder := e', oe_framed := framed\<rparr>"
  let ?p = "sent_packet 4 target q (opus_packet (take (nat ret) out))"
  have step: "deliver (on_encoder_frame oe (encoder_codec_cb cb 4 target pos)) 960 (x # fs) (codec, q, c)
    = rbind (cb ?p c) (\<lambda>c'. deliver (on_encoder_frame oe (encoder_codec_cb cb 4 target pos)) 960 fs (?codec, q + 1, c'))"
    by (simp add: x audio_frame_step fp(1) rbind_assoc)
  show ?case
  proof (cases "cb ?p c")
    case (Inl err)
    then show ?thesis unfolding step
      by (intro exI [of _ e'] exI [of _ framed]) (simp add: x oe fp(2))
  next
    case (Inr c')
    have "\<exists>e fr. length fr = 960 \<and>
      deliver (on_encoder_frame oe (encoder_codec_cb cb 4 target pos)) 960 fs (?codec, q + 1, c') =
        rbind (for_each cb (sent_packets target (q + 1) (opus_payloads oe 480 960 (oe_encoder ?codec) (map fst fs))) c')
          (\<lambda>c'. Inr (?codec\<lparr>oe_encoder := e, oe_framed := fr\<rparr>, q + 1 + of_nat (length fs), c'))"
      using Cons.prems fp(2) by (intro Cons.IH) (simp_all add: x oe)
    then show ?thesis unfolding step using Inr by (auto simp: x oe algebra_simps)
  qed
qed

lemma encode_voice:
  assumes "opus_documented oe od nb" and "program_encoder enc" and "length pcm = 2 * n"
    and "\<forall>p \<in> set (voice_payloads oe enc pcm). length p \<le> 478"
  shows "\<exists>enc'. program_encoder enc'
    \<and> ae_sequence enc' = ae_sequence enc + of_nat (length (voice_payloads oe enc pcm))
    \<and> mumble_audio_encoder_encode oe cb target pcm n pos enc c =
      cbind (Some (for_each cb (sent_packets target (ae_sequence enc) (voice_payloads oe enc pcm)) c)) (\<lambda>c'. ok (enc', c'))"
proof -
  let ?codec = "ae_opus enc" and ?cb = "on_encoder_frame oe (encoder_codec_cb cb 4 target pos)" and ?b = "oe_buffer (ae_opus enc)"
  let ?ps = "voice_payloads oe enc pcm"
  note enc = assms(2) [unfolded program_encoder_def wf_audio_encoder_def wf_opus_encoder_def]
  have wf: "wf_buffer ?b" and size: "b_allocated ?b = 960" using enc by simp_all
  obtain fs r where fs: "buffer_frames 960 False (pending ?b @ pcm) = (fs, r)" by fastforce
  have lens: "\<forall>f \<in> fst ` set fs. length f = 960"
    using buffer_frames_lengths [of 960 False "pending ?b @ pcm"] fs by auto
  have ps: "?ps = opus_payloads oe 480 960 (oe_encoder ?codec) (map fst fs)" by (simp add: voice_payloads_def opus_frames_def fs size)
  have sizes: "length (oe_framed ?codec) = 960" "oe_framed_size ?codec = 960" "oe_codec_size ?codec = 960" using enc by simp_all
  from deliver_voice [where cb = cb and target = target and pos = pos and q = "ae_sequence enc" and c = c, OF assms(1) lens assms(4) [unfolded ps] sizes]
  obtain e framed where d: "length framed = 960" "deliver ?cb 960 fs (?codec, ae_sequence enc, c) =
      rbind (for_each cb (sent_packets target (ae_sequence enc) ?ps) c)
        (\<lambda>c'. Inr (?codec\<lparr>oe_encoder := e, oe_framed := framed\<rparr>, ae_sequence enc + of_nat (length fs), c'))"
    unfolding ps by blast
  obtain b where b: "wf_buffer b" "b_allocated b = 960"
    "mumble_buffer_write ?cb pcm False ?b (?codec, ae_sequence enc, c)
      = Some (rbind (deliver ?cb 960 fs (?codec, ae_sequence enc, c)) (\<lambda>s. Inr (b, s)))"
    using buffer_write_frames [OF wf, of pcm fs r ?cb "(?codec, ae_sequence enc, c)"] fs size by auto
  let ?enc = "enc\<lparr>ae_opus := ?codec\<lparr>oe_encoder := e, oe_framed := framed, oe_buffer := b\<rparr>,
    ae_sequence := ae_sequence enc + of_nat (length fs)\<rparr>"
  have "peek pcm 0 (n * 2) = Inr pcm" using assms(3) by (simp add: peek_def)
  then have "mumble_audio_encoder_encode oe cb target pcm n pos enc c =
      cbind (Some (for_each cb (sent_packets target (ae_sequence enc) ?ps) c)) (\<lambda>c'. ok (?enc, c'))"
    using enc by (cases "for_each cb (sent_packets target (ae_sequence enc) ?ps) c")
      (simp_all add: mumble_audio_encoder_encode_def mumble_codec_opus_encode_def b(3) d(2))
  moreover have "program_encoder ?enc"
    using enc b d(1) by (simp add: program_encoder_def wf_audio_encoder_def wf_opus_encoder_def)
  ultimately show ?thesis by (intro exI [of _ ?enc]) (simp add: ps)
qed

section \<open>The protocol's datagrams\<close>

text \<open>
  The two ends of a keyed channel count their nonces, numbers of 16 bytes with the least significant first. A datagram has the first byte of
  the nonce, three bytes of the tag and the ciphertext.
\<close>

definition next_nonce :: "bytes \<Rightarrow> bytes" where
  "next_nonce n = rev (be_bytes 16 (be_val (rev n) + 1))"

definition datagram :: "block_cipher \<Rightarrow> bytes \<Rightarrow> bytes \<Rightarrow> bytes \<Rightarrow> bytes" where
  "datagram E k n m = (case ocb2_reference (E k) n m of (c, tag) \<Rightarrow> n ! 0 # take 3 tag @ c)"

fun datagrams :: "block_cipher \<Rightarrow> bytes \<Rightarrow> bytes \<Rightarrow> bytes list \<Rightarrow> bytes list" where
  "datagrams E k n [] = []"
| "datagrams E k n (m # ms) = datagram E k (next_nonce n) m # datagrams E k (next_nonce n) ms"

text \<open>The server's contract: it turns the sender's channel into the receiver's.\<close>

definition relays :: "block_cipher \<Rightarrow> (bytes list \<Rightarrow> bytes list) \<Rightarrow> u64 \<Rightarrow> bytes \<times> bytes \<Rightarrow> bytes \<times> bytes \<Rightarrow> bool" where
  "relays E server source from_key to_key \<longleftrightarrow>
     (\<forall>ms. (\<forall>m \<in> set ms. \<exists>target q p. m = sent_packet 4 target q (opus_packet p)) \<longrightarrow>
       server (datagrams E (fst from_key) (snd from_key) ms) = datagrams E (fst to_key) (snd to_key) (map (relayed source) ms))"

text \<open>The two ends in the program: what the transport of a sender, and the audio of a receiver, are keyed with.\<close>

definition sends_with :: "bytes \<Rightarrow> bytes \<Rightarrow> udp_ssl \<Rightarrow> bool" where
  "sends_with k n c \<longleftrightarrow> wf_udp c \<and> pool_room c \<and> key (u_cipher c) = k \<and> enc_iv (u_cipher c) = n \<and> ivlen (u_cipher c) = 16"

definition receives_with :: "bytes \<Rightarrow> bytes \<Rightarrow> udp_ssl \<Rightarrow> bool" where
  "receives_with k n c \<longleftrightarrow> wf_udp c \<and> pool_room c \<and> u_has_cb c
     \<and> key (u_cipher c) = k \<and> dec_iv (u_cipher c) = n \<and> ivlen (u_cipher c) = 16"

definition listens :: "bytes \<Rightarrow> bytes \<Rightarrow> ('d, 'e) mumble_audio \<Rightarrow> bool" where
  "listens k n b \<longleftrightarrow> receives_with k n (au_udp b) \<and> ad_has_cb (au_decoder b) \<and> au_has_cb b"

lemma le_val_rev: "le_val n = be_val (rev n)"
  by (induction n) (simp_all add: be_val_append)

lemma succ_bytes_next: "length n = 16 \<Longrightarrow> succ_bytes 16 n = next_nonce n"
proof -
  assume n: "length n = 16"
  have "be_val (rev (succ_bytes 16 n)) = be_val (be_bytes 16 (be_val (rev n) + 1))"
    using succ_bytes_val [of 16 n] n by (simp add: be_val_be_bytes flip: le_val_rev)
  then have "rev (succ_bytes 16 n) = be_bytes 16 (be_val (rev n) + 1)" using n by (intro be_val_inj) simp_all
  then show ?thesis unfolding next_nonce_def by (metis rev_rev_ident)
qed

lemma send_datagram:
  assumes "sends_with k n c" and "length m \<le> 1020" and "m = [] \<or> length m mod 16 \<noteq> 0" and "\<And>p. 0 < try_send p"
    and E_len: "\<And>k b. length b = 16 \<Longrightarrow> length (E k b) = 16"
  shows "\<exists>c'. uv_udp_ssl_write E try_send c m (length m) = Inr (c', datagram E k (next_nonce n) m) \<and> sends_with k (next_nonce n) c'"
proof -
  note c = assms(1) [unfolded sends_with_def]
  have n: "length n = 16" using c by (auto simp: wf_udp_def wf_ocb_def)
  obtain c' packet where w: "uv_udp_ssl_write E try_send c m (length m) = Inr (c', packet)"
    "wf_udp c'" "pool_room c'" "u_cipher c' = next_enc (u_cipher c)" "u_has_cb c' = u_has_cb c"
    "length packet = length m + 4" "packet ! 0 = enc_iv (u_cipher c') ! 0"
    "take 3 (drop 1 packet) = take 3 (ocb2_tag E (key (u_cipher c)) (enc_iv (u_cipher c')) m)"
    "drop 4 packet = ocb2_cipher E (key (u_cipher c)) (enc_iv (u_cipher c')) m"
    by (rule write_works [where c = c and try_send = try_send and E = E]) (use c assms(2,4) E_len in simp_all)
  have iv: "enc_iv (u_cipher c') = next_nonce n" using c succ_bytes_next [OF n] by (simp add: w(4) next_enc_def)
  have "packet = packet ! 0 # take 3 (drop 1 packet) @ drop 4 packet"
    using w(6) by (cases packet; cases "tl packet"; cases "tl (tl packet)") (auto simp: numeral_eq_Suc)
  then have "packet = datagram E k (next_nonce n) m"
    using w(7-9) c iv ocb2_code_reference [of E k "next_nonce n" m] E_len assms(3)
    by (simp add: datagram_def next_nonce_def)
  moreover have "sends_with k (next_nonce n) c'" using c w(2,3) iv by (simp add: sends_with_def w(4) next_enc_def)
  ultimately show ?thesis using w(1) by blast
qed

lemma receive_datagram:
  assumes "receives_with k n c" and "length m \<le> 1020" and "m = [] \<or> length m mod 16 \<noteq> 0"
    and E_len: "\<And>k b. length b = 16 \<Longrightarrow> length (E k b) = 16" and D_len: "\<And>k b. length b = 16 \<Longrightarrow> length (D k b) = 16"
    and DE: "\<And>k b. length b = 16 \<Longrightarrow> D k (E k b) = b"
  shows "\<exists>c'. udp_receive E D c (datagram E k (next_nonce n) m) = Inr (c', Some m) \<and> receives_with k (next_nonce n) c'"
proof -
  note c = assms(1) [unfolded receives_with_def]
  have n: "length n = 16" using c by (auto simp: wf_udp_def wf_ocb_def)
  have iv: "dec_iv (next_dec (u_cipher c)) = next_nonce n" using c succ_bytes_next [OF n] by (simp add: next_dec_def)
  let ?body = "ocb2_cipher E k (next_nonce n) m" and ?tag = "ocb2_tag E k (next_nonce n) m"
  let ?header = "next_nonce n ! 0 # take 3 ?tag"
  have d: "datagram E k (next_nonce n) m = ?header @ ?body"
    using ocb2_code_reference [of E k "next_nonce n" m] E_len assms(3) by (simp add: datagram_def next_nonce_def)
  have header: "length ?header = 4" using E_len by (simp add: ocb2_tag_def ocb2_tag_with_def)
  have body: "length ?body \<le> 1020" using ocb2_cipher_length [of E k "next_nonce n" m] E_len assms(2) by simp
  obtain c' where r: "udp_receive E D c (?header @ ?body)
      = Inr (c', Some (ocb2_plain E D (key (u_cipher c)) (dec_iv (next_dec (u_cipher c))) ?body))"
    "wf_udp c'" "pool_room c'" "u_cipher c' = next_dec (u_cipher c)" "u_has_cb c'"
    by (rule receive_works [where c = c and E = E and D = D and header = ?header and body = ?body]) (use c header body E_len D_len in simp_all)
  have "udp_receive E D c (?header @ ?body) = Inr (c', Some m)"
    using r(1) c iv ocb2_plain_cipher [of E k D "next_nonce n" m] E_len DE by simp
  moreover have "receives_with k (next_nonce n) c'" using c r(2-5) iv by (simp add: receives_with_def next_dec_def)
  ultimately show ?thesis unfolding d by blast
qed

section \<open>The way through the server\<close>

text \<open>The datagrams of a call reach the receiver one after the other.\<close>

fun hear ::
    "block_cipher \<Rightarrow> block_cipher \<Rightarrow> 'd opus_decode \<Rightarrow> (bytes \<Rightarrow> int) \<Rightarrow> (int \<Rightarrow> bool) \<Rightarrow> bytes list \<Rightarrow> ('d, 'e) mumble_audio
      \<Rightarrow> (('d, 'e) mumble_audio \<times> audio_packet list) comp" where
  "hear E D od nb mok [] b = ok (b, [])"
| "hear E D od nb mok (d # ds) b =
     cbind (audio_udp_receive E D od nb mok d b) (\<lambda>(b, decoded).
     cbind (hear E D od nb mok ds b) (\<lambda>(b, heard).
     ok (b, case decoded of None \<Rightarrow> heard | Some voice \<Rightarrow> voice # heard)))"

lemma sequence_step:
  fixes q :: u32
  assumes "unat q + Suc n \<le> 2 ^ 31"
  shows "\<not> bit q 31" and "unat (q + 1) + n \<le> 2 ^ 31" and "q \<le> q + 1"
proof -
  have less: "unat q < 2 ^ 31" using assms by simp
  then have "take_bit 31 (unat q) = unat q" by (simp add: take_bit_nat_eq_self)
  then have "\<not> bit (unat q) 31" using bit_take_bit_iff [of 31 "unat q" 31] by simp
  then show "\<not> bit q 31" by (simp add: bit_unsigned_iff)
  have "unat (q + 1) = unat q + 1" using less by (simp add: unat_word_ariths)
  then show "unat (q + 1) + n \<le> 2 ^ 31" and "q \<le> q + 1" using assms by (simp_all add: word_le_nat_alt)
qed

lemma send_datagrams:
  assumes "sends_with k n udp" and "\<forall>m \<in> set ms. length m \<le> 1020 \<and> (m = [] \<or> length m mod 16 \<noteq> 0)"
    and "\<And>p. 0 < try_send p" and "\<And>k b. length b = 16 \<Longrightarrow> length (E k b) = 16"
  shows "\<exists>udp'. for_each (encoder_cb E try_send ssl try_write True) ms (udp, tcp, ds) = Inr (udp', tcp, ds @ datagrams E k n ms)
    \<and> sends_with k ((next_nonce ^^ length ms) n) udp'"
  using assms(1,2)
proof (induction ms arbitrary: n udp ds)
  case (Cons m ms)
  obtain udp1 where w: "uv_udp_ssl_write E try_send udp m (length m) = Inr (udp1, datagram E k (next_nonce n) m)"
    and s1: "sends_with k (next_nonce n) udp1"
    using send_datagram [where E = E and try_send = try_send, OF Cons.prems(1) _ _ assms(3,4), of m] Cons.prems(2) by auto
  from Cons.IH [OF s1, of "ds @ [datagram E k (next_nonce n) m]"] Cons.prems(2) obtain udp' where
    "for_each (encoder_cb E try_send ssl try_write True) ms (udp1, tcp, ds @ [datagram E k (next_nonce n) m])
      = Inr (udp', tcp, (ds @ [datagram E k (next_nonce n) m]) @ datagrams E k (next_nonce n) ms)"
    "sends_with k ((next_nonce ^^ length ms) (next_nonce n)) udp'" by auto
  with w show ?case by (intro exI [of _ udp']) (simp add: encoder_cb_datagram funpow_swap1)
qed simp

text \<open>What the server makes of a voice packet the receiver can take: longer than the 8 bytes it asks for, and no whole number of blocks.\<close>

definition acceptable :: "u64 \<Rightarrow> bytes \<Rightarrow> bool" where
  "acceptable source m \<longleftrightarrow> 8 < length (relayed source m) \<and> length (relayed source m) mod 16 \<noteq> 0"

lemma sent_packet_lengths:
  assumes "length p \<le> 478"
  shows "length (opus_packet p) \<le> 480" and "length (sent_packet 4 target q (opus_packet p)) \<le> 1020"
    and "length (relayed source (sent_packet 4 target q (opus_packet p))) \<le> 1020"
proof -
  show op: "length (opus_packet p) \<le> 480"
    using small_varint(1) [OF assms] assms unfolding opus_packet_def length_append by linarith
  then show "length (sent_packet 4 target q (opus_packet p)) \<le> 1020"
    using varint_bytes_length(2) [of "ucast q"] by (simp add: sent_packet_def)
  have "length (relayed source (sent_packet 4 target q (opus_packet p)))
      = 1 + length (varint_bytes source) + length (varint_bytes (ucast q)) + length (opus_packet p)"
    by (simp add: relayed_def sent_packet_def)
  then show "length (relayed source (sent_packet 4 target q (opus_packet p))) \<le> 1020"
    using op varint_bytes_length [of source] varint_bytes_length [of "ucast q"] by linarith
qed

lemma hear_datagrams:
  assumes "listens k n b" and "\<forall>p \<in> set ps. p \<noteq> [] \<and> length p \<le> 478 \<and> (\<forall>d. fst (od d p (2 * nb p)) = 480)"
    and "\<forall>m \<in> set (sent_packets target q ps). acceptable source m"
    and "\<And>k. mok k" and "\<And>k b. length b = 16 \<Longrightarrow> length (E k b) = 16"
    and "\<And>k b. length b = 16 \<Longrightarrow> length (D k b) = 16" and "\<And>k b. length b = 16 \<Longrightarrow> D k (E k b) = b"
    and "\<not> bit source 31" and "unat q + length ps \<le> 2 ^ 31" and "ad_sequence (au_decoder b) \<le> q"
  shows "\<exists>b'. hear E D od nb mok (datagrams E k n (map (relayed source) (sent_packets target q ps))) b
      = ok (b', voices od nb source target q (ad_opus (au_decoder b)) ps)
    \<and> listens k ((next_nonce ^^ length ps) n) b' \<and> ad_sequence (au_decoder b') \<le> q + of_nat (length ps)"
  using assms(1-3,9,10)
proof (induction ps arbitrary: n b q)
  case (Cons p ps)
  let ?m = "relayed source (sent_packet 4 target q (opus_packet p))"
  obtain ret pcm d' where od: "od (ad_opus (au_decoder b)) p (2 * nb p) = (ret, pcm, d')"
    by (cases "od (ad_opus (au_decoder b)) p (2 * nb p)") auto
  have p: "p \<noteq> []" "length p \<le> 478" "fst (od (ad_opus (au_decoder b)) p (2 * nb p)) = 480"
    using Cons.prems(2) by simp_all
  then have ret: "ret = 480" by (simp add: od)
  have m: "8 < length ?m" "length ?m mod 16 \<noteq> 0" using Cons.prems(3) by (simp_all add: acceptable_def)
  note lens = sent_packet_lengths [OF p(2)]
  have "unat q + Suc (length ps) \<le> 2 ^ 31" using Cons.prems(4) by simp
  note seq = sequence_step [OF this]
  note l = Cons.prems(1) [unfolded listens_def]
  obtain udp where r: "udp_receive E D (au_udp b) (datagram E k (next_nonce n) ?m) = Inr (udp, Some ?m)"
    and udp: "receives_with k (next_nonce n) udp"
    using receive_datagram [where E = E and D = D, OF conjunct1 [OF l] lens(3) disjI2 [OF m(2)] assms(5-7)] by blast
  let ?b = "b\<lparr>au_udp := udp, au_decoder := (au_decoder b)
          \<lparr>ad_packets := ad_packets (au_decoder b) + 1, ad_sequence := q, ad_opus := d'\<rparr>\<rparr>"
  have h: "audio_udp_receive E D od nb mok (datagram E k (next_nonce n) ?m) b = ok (?b,
        Some \<lparr>ap_codec = 4, ap_data = pcm, ap_hz = 48000, ap_samples = 480, ap_position = (0, 0, 0),
            ap_sequence = ucast q, ap_source = source, ap_target = target AND 0x1F\<rparr>)"
    by (rule voice_data_arrives [where od = od and nb = nb and mok = mok and payload = p and p = ?m, OF r])
      (use p lens(1) od ret seq(1) l m(1) Cons.prems(5) assms(4,8) in simp_all)
  have ready: "listens k (next_nonce n) ?b" using l udp by (simp add: listens_def)
  have "\<exists>b'. hear E D od nb mok (datagrams E k (next_nonce n) (map (relayed source) (sent_packets target (q + 1) ps))) ?b
      = ok (b', voices od nb source target (q + 1) (ad_opus (au_decoder ?b)) ps)
    \<and> listens k ((next_nonce ^^ length ps) (next_nonce n)) b' \<and> ad_sequence (au_decoder b') \<le> (q + 1) + of_nat (length ps)"
    using Cons.prems(2,3) seq(2,3) by (intro Cons.IH [OF ready]) simp_all
  then obtain b' where "hear E D od nb mok (datagrams E k (next_nonce n) (map (relayed source) (sent_packets target (q + 1) ps))) ?b
      = ok (b', voices od nb source target (q + 1) d' ps)"
    "listens k ((next_nonce ^^ length ps) (next_nonce n)) b'" "ad_sequence (au_decoder b') \<le> (q + 1) + of_nat (length ps)"
    by auto
  then show ?case using h od ret by (intro exI [of _ b']) (simp add: funpow_swap1 add.assoc)
qed simp

text \<open>What opus makes of frames of 480 samples.\<close>

lemma opus_payloads_ok:
  assumes "opus_documented oe od nb" and "\<forall>f \<in> set fs. length f = 960"
  shows "\<forall>p \<in> set (opus_payloads oe 480 960 e fs). p \<noteq> [] \<and> (\<forall>d. fst (od d p (2 * nb p)) = 480)"
  using assms(2)
proof (induction fs arbitrary: e)
  case (Cons f fs)
  obtain ret out e' where oe: "oe e f 480 960 = (ret, out, e')" by (cases "oe e f 480 960") auto
  have "length f = 960" using Cons.prems by simp
  from assms(1) [unfolded opus_documented_def, rule_format, OF this, of e]
  have ret: "0 < ret" "nat ret \<le> length out" "\<forall>d. fst (od d (take (nat ret) out) (2 * nb (take (nat ret) out))) = 480"
    by (simp_all add: oe)
  then have "take (nat ret) out \<noteq> []" by (cases out) auto
  with ret Cons show ?case by (simp add: oe)
qed simp

lemma opus_frames_lengths:
  "program_encoder enc \<Longrightarrow> \<forall>f \<in> set (opus_frames (ae_opus enc) data). length f = 960"
  using buffer_frames_lengths [of 960 False "pending (oe_buffer (ae_opus enc)) @ data"]
  by (auto simp: opus_frames_def program_encoder_def)

lemma call_heard:
  assumes "opus_documented oe od nb" and "program_encoder (au_encoder a)" and "mumble_audio_is_udp a" and "length pcm = 2 * n"
    and "ps = voice_payloads oe (au_encoder a) pcm" and "\<forall>p \<in> set ps. length p \<le> 478"
    and "q = ae_sequence (au_encoder a)" and "unat q + length ps \<le> 2 ^ 31"
    and "ms = sent_packets (ucast target) q ps" and "\<forall>m \<in> set ms. length m mod 16 \<noteq> 0 \<and> acceptable source m"
    and "sends_with k1 n1 (au_udp a)" and "listens k2 n2 b" and "relays E server source (k1, n1) (k2, n2)"
    and "\<not> bit source 31" and "ad_sequence (au_decoder b) \<le> q"
    and "\<And>k. mok k" and "\<And>p. 0 < try_send p" and "\<And>k b. length b = 16 \<Longrightarrow> length (E k b) = 16"
    and "\<And>k b. length b = 16 \<Longrightarrow> length (D k b) = 16" and "\<And>k b. length b = 16 \<Longrightarrow> D k (E k b) = b"
  shows "\<exists>a' b'. mumble_audio_send oe E try_send ssl try_write pos target pcm n a tcp sent = ok (a', tcp, sent @ datagrams E k1 n1 ms)
    \<and> hear E D od nb mok (server (datagrams E k1 n1 ms)) b
      = ok (b', voices od nb source (ucast target) q (ad_opus (au_decoder b)) ps)
    \<and> sends_with k1 ((next_nonce ^^ length ps) n1) (au_udp a') \<and> listens k2 ((next_nonce ^^ length ps) n2) b'
    \<and> program_encoder (au_encoder a') \<and> mumble_audio_is_udp a'
    \<and> ad_sequence (au_decoder b') \<le> ae_sequence (au_encoder a')"
proof -
  have in_ms: "\<exists>target q p. m = sent_packet 4 target q (opus_packet p) \<and> p \<in> set ps" if "m \<in> set (sent_packets t q' ps')" "set ps' \<subseteq> set ps"
    for m t q' ps' using that by (induction t q' ps' rule: sent_packets.induct) auto
  have len: "length ms = length ps"
    unfolding assms(9) by (induction "ucast target :: u64" q ps rule: sent_packets.induct) auto
  have "\<forall>m \<in> set ms. length m \<le> 1020 \<and> (m = [] \<or> length m mod 16 \<noteq> 0)"
    using in_ms [of _ "ucast target" q ps] sent_packet_lengths(2) assms(6,9,10) by blast
  from send_datagrams [where E = E and try_send = try_send, OF assms(11) this assms(17,18)]
  obtain udp where s: "for_each (encoder_cb E try_send ssl try_write True) ms (au_udp a, tcp, sent) = Inr (udp, tcp, sent @ datagrams E k1 n1 ms)"
    "sends_with k1 ((next_nonce ^^ length ps) n1) udp" unfolding len by blast
  obtain enc where e: "program_encoder enc" "ae_sequence enc = q + of_nat (length ps)"
    "mumble_audio_encoder_encode oe (encoder_cb E try_send ssl try_write True) (ucast target) pcm n pos
      (au_encoder a) (au_udp a, tcp, sent) = ok (enc, udp, tcp, sent @ datagrams E k1 n1 ms)"
    using encode_voice [where cb = "encoder_cb E try_send ssl try_write True" and target = "ucast target" and pos = pos
        and c = "(au_udp a, tcp, sent)", OF assms(1,2,4) assms(6) [unfolded assms(5)]] s(1) assms(5,7,9) by auto
  have send: "mumble_audio_send oe E try_send ssl try_write pos target pcm n a tcp sent
      = ok (a\<lparr>au_encoder := enc, au_udp := udp\<rparr>, tcp, sent @ datagrams E k1 n1 ms)"
    using assms(3) e(3) by (simp add: mumble_audio_send_def mumble_audio_is_udp_def)
  have server: "server (datagrams E k1 n1 ms) = datagrams E k2 n2 (map (relayed source) ms)"
    using assms(13) in_ms [of _ "ucast target" q ps] assms(9) unfolding relays_def by fastforce
  have ps: "\<forall>p \<in> set ps. p \<noteq> [] \<and> length p \<le> 478 \<and> (\<forall>d. fst (od d p (2 * nb p)) = 480)"
    using opus_payloads_ok [OF assms(1) opus_frames_lengths [OF assms(2)]] assms(5,6) unfolding voice_payloads_def by blast
  obtain b' where h: "hear E D od nb mok (server (datagrams E k1 n1 ms)) b
      = ok (b', voices od nb source (ucast target) q (ad_opus (au_decoder b)) ps)"
    "listens k2 ((next_nonce ^^ length ps) n2) b'" "ad_sequence (au_decoder b') \<le> q + of_nat (length ps)"
    using hear_datagrams [where od = od and nb = nb and mok = mok and E = E and D = D and target = "ucast target",
        OF assms(12) ps _ assms(16,18-20,14,8,15)] assms(9,10) unfolding server by blast
  show ?thesis
    using send h s(2) e(1,2) assms(3)
    by (intro exI [of _ "a\<lparr>au_encoder := enc, au_udp := udp\<rparr>"] exI [of _ b']) (simp add: mumble_audio_is_udp_def)
qed

section \<open>How many, and with which numbers\<close>

lemma buffer_frames_count: "0 < n \<Longrightarrow> length (fst (buffer_frames n e xs)) = length xs div n"
proof (induction n e xs rule: buffer_frames.induct)
  case (1 n e xs)
  then show ?case
    by (cases "length xs < n") (auto simp: buffer_frames_full le_div_geq not_less)
qed

lemma voice_payloads_count:
  assumes "program_encoder enc"
  shows "length (voice_payloads oe enc pcm) = (b_used (oe_buffer (ae_opus enc)) + length pcm) div 960"
  using assms
  by (simp add: voice_payloads_def opus_frames_def buffer_frames_count program_encoder_def wf_audio_encoder_def wf_opus_encoder_def)

lemma voices_numbered:
  assumes "\<forall>p \<in> set ps. \<forall>d. fst (od d p (2 * nb p)) = 480"
  shows "map (\<lambda>a. (ap_source a, ap_target a, ap_sequence a, ap_codec a, ap_samples a)) (voices od nb source target q d ps)
    = map (\<lambda>i. (source, target AND 0x1F, ucast (q + of_nat i), 4, 480)) [0..<length ps]"
  using assms
proof (induction ps arbitrary: q d)
  case (Cons p ps)
  obtain ret pcm d' where od: "od d p (2 * nb p) = (ret, pcm, d')" by (cases "od d p (2 * nb p)") auto
  have "fst (od d p (2 * nb p)) = 480" using Cons.prems by simp
  with od have "ret = 480" by simp
  moreover have "[0..<Suc (length ps)] = 0 # map Suc [0..<length ps]" by (simp add: upt_conv_Cons map_Suc_upt del: upt_Suc)
  moreover have "map (\<lambda>a. (ap_source a, ap_target a, ap_sequence a, ap_codec a, ap_samples a)) (voices od nb source target (q + 1) d' ps)
    = map (\<lambda>i. (source, target AND 0x1F, ucast (q + 1 + of_nat i), 4, 480)) [0..<length ps]"
    using Cons.prems by (intro Cons.IH) simp
  ultimately show ?case by (simp add: od comp_def add.assoc del: upt_Suc)
qed simp

section \<open>Packets that are too short\<close>

text \<open>
  Of a frame of silence opus may make a packet of one byte (\<^verbatim>\<open>OPUS_SET_DTX\<close>). Relayed it has eight bytes or fewer, unless the numbers in front of
  it are large: the receiver's assertion on the length of a packet then ends the program.
\<close>

lemma small_numbers:
  fixes source :: u64 and q :: u32
  shows "source < 0x4000 \<Longrightarrow> length (varint_bytes source) \<le> 2" and "q < 0x4000 \<Longrightarrow> length (varint_bytes (ucast q)) \<le> 2"
proof -
  show small: "length (varint_bytes v) \<le> 2" if "v < 0x4000" for v :: u64
    using varint_sizes(1,2) [of v] that by (cases "v < 0x80"; simp)+
  assume "q < 0x4000"
  moreover have "unat (ucast q :: u64) = unat q" by (rule unat_up_ucast)
  ultimately show "length (varint_bytes (ucast q)) \<le> 2" by (intro small) (simp add: word_less_nat_alt)
qed

lemma short_voice_ends_the_receiver:
  assumes "udp_receive E D (au_udp audio) packet = Inr (udp', Some m)" and "length m \<le> 8"
    and "m = relayed source (sent_packet 4 target q (opus_packet p))"
  shows "audio_udp_receive E D od nb mok packet audio = faults Assert_failed"
proof -
  have "m ! 0 \<noteq> 0x20" and "peek m 0 1 = Inr [m ! 0]"
    using audio_header_not_ping assms(3) by (simp_all add: relayed_def sent_packet_def peek_def)
  then show ?thesis
    using assms(2) by (simp add: audio_udp_receive_def assms(1) udp_cb_def mumble_audio_decoder_decode_def Let_def)
qed

lemma one_byte_packet_ends_the_receiver:
  assumes "udp_receive E D (au_udp audio) packet = Inr (udp', Some m)" and "length p = 1" and "source < 0x4000" and "q < 0x4000"
    and "m = relayed source (sent_packet 4 target q (opus_packet p))"
  shows "audio_udp_receive E D od nb mok packet audio = faults Assert_failed"
proof -
  have "length (opus_packet p) = 2" using assms(2) by (simp add: opus_packet_def varint_bytes_small)
  then have "length m \<le> 8"
    using small_numbers(1) [of source] small_numbers(2) [of q] assms(3,4) unfolding assms(5) by (simp add: relayed_def sent_packet_def)
  from short_voice_ends_the_receiver [OF assms(1) this assms(5)] show ?thesis .
qed

section \<open>Property\<close>

text \<open>
  C3: A call is heard. While UDP is connected, one client sends samples, together with those left over from the call before: every full
  frame of 480 samples is encoded by opus, numbered and sent as one datagram of the protocol, and nothing else is sent. When a server
  that relays has passed them on, the receiver's callback is handed, in order, each packet with the sender's number, the target, its sequence
  number and exactly what opus decodes of what opus encoded. Both ends are then ready for the next call.

  Opus behaves as documented, and this call's packets are such that the code can carry them: the payloads have at most 478 bytes, no packet
  is a whole number of 16-byte blocks long before or after it is relayed (of such the code's cipher is not OCB2), and a relayed packet has
  more than 8 bytes. The sequence numbers stay below \<open>2 ^ 31\<close> and do not go back; \<open>malloc\<close>, \<open>uv_udp_try_send\<close> and AES work.
\<close>

theorem voice_call_heard:
  assumes "opus_documented oe od nb" and "program_encoder (au_encoder a)" and "mumble_audio_is_udp a" and "length pcm = 2 * n"
    and "ps = voice_payloads oe (au_encoder a) pcm" and "\<forall>p \<in> set ps. length p \<le> 478"
    and "q = ae_sequence (au_encoder a)" and "unat q + length ps \<le> 2 ^ 31"
    and "ms = sent_packets (ucast target) q ps" and "\<forall>m \<in> set ms. length m mod 16 \<noteq> 0 \<and> acceptable source m"
    and "sends_with k1 n1 (au_udp a)" and "listens k2 n2 b" and "relays E server source (k1, n1) (k2, n2)"
    and "\<not> bit source 31" and "ad_sequence (au_decoder b) \<le> q"
    and "\<And>k. mok k" and "\<And>p. 0 < try_send p" and "\<And>k b. length b = 16 \<Longrightarrow> length (E k b) = 16"
    and "\<And>k b. length b = 16 \<Longrightarrow> length (D k b) = 16" and "\<And>k b. length b = 16 \<Longrightarrow> D k (E k b) = b"
  shows "\<exists>a' b'. mumble_audio_send oe E try_send ssl try_write pos target pcm n a tcp sent = ok (a', tcp, sent @ datagrams E k1 n1 ms)
    \<and> hear E D od nb mok (server (datagrams E k1 n1 ms)) b
      = ok (b', voices od nb source (ucast target) q (ad_opus (au_decoder b)) ps)
    \<and> sends_with k1 ((next_nonce ^^ length ps) n1) (au_udp a') \<and> listens k2 ((next_nonce ^^ length ps) n2) b'
    \<and> program_encoder (au_encoder a') \<and> mumble_audio_is_udp a'
    \<and> ad_sequence (au_decoder b') \<le> ae_sequence (au_encoder a')"
  by (rule call_heard [OF assms])

section \<open>A server\<close>

text \<open>A server that relays: it deciphers, drops what does not have the nonce's byte and the tag that it should, and enciphers again.\<close>

fun opened :: "block_cipher \<Rightarrow> block_cipher \<Rightarrow> bytes \<Rightarrow> bytes \<Rightarrow> bytes list \<Rightarrow> bytes list" where
  "opened E D k n [] = []"
| "opened E D k n (d # ds) =
     (let n' = next_nonce n; (m, tag) = ocb2_opened (E k) (D k) n' (drop 4 d)
      in if take 4 d = n' ! 0 # take 3 tag then m # opened E D k n' ds else opened E D k n ds)"

definition ocb2_server :: "block_cipher \<Rightarrow> block_cipher \<Rightarrow> u64 \<Rightarrow> bytes \<times> bytes \<Rightarrow> bytes \<times> bytes \<Rightarrow> bytes list \<Rightarrow> bytes list" where
  "ocb2_server E D source from_key to_key ds =
     datagrams E (fst to_key) (snd to_key) (map (relayed source) (opened E D (fst from_key) (snd from_key) ds))"

lemma ocb2_tag_length:
  assumes "\<And>b. length b = 16 \<Longrightarrow> length (e b) = 16" and "length delta = 16" and "length s = 16"
  shows "length (snd (ocb2_blocks e m delta s)) = 16"
  using assms(2,3)
proof (induction "length m" arbitrary: m delta s rule: less_induct)
  case less
  show ?case
  proof (cases "length m \<le> 16")
    case True
    then have "length (e (xor_string (be_bytes 16 (8 * length m)) delta)) = 16" using less.prems assms(1) by simp
    with True less.prems show ?thesis by (subst ocb2_blocks.simps) (simp add: Let_def assms(1))
  next
    case False
    then show ?thesis using less by (subst ocb2_blocks.simps) (simp add: Let_def split_beta)
  qed
qed

lemma opened_datagrams:
  assumes "\<And>k b. length b = 16 \<Longrightarrow> length (E k b) = 16" and "\<And>k b. length b = 16 \<Longrightarrow> D k (E k b) = b"
  shows "opened E D k n (datagrams E k n ms) = ms"
proof (induction ms arbitrary: n)
  case (Cons m ms)
  let ?n = "next_nonce n"
  have "length (snd (ocb2_reference (E k) ?n m)) = 16"
    unfolding ocb2_reference_def by (rule ocb2_tag_length) (use assms(1) in simp_all)
  then have "take 4 (datagram E k ?n m) = ?n ! 0 # take 3 (snd (ocb2_reference (E k) ?n m))"
    and "drop 4 (datagram E k ?n m) = fst (ocb2_reference (E k) ?n m)"
    by (simp_all add: datagram_def split_beta numeral_eq_Suc)
  with Cons ocb2_opened_reference [of "E k" "D k" ?n m] assms show ?case by (simp add: Let_def)
qed simp

lemma ocb2_server_relays:
  assumes "\<And>k b. length b = 16 \<Longrightarrow> length (E k b) = 16" and "\<And>k b. length b = 16 \<Longrightarrow> D k (E k b) = b"
  shows "relays E (ocb2_server E D source from_key to_key) source from_key to_key"
  using assms opened_datagrams [of E D] by (simp add: relays_def ocb2_server_def)

section \<open>Example\<close>

definition example_voice :: "unit opus_encode" where
  "example_voice e pcm frame_size room = (5, take 5 pcm, ())"

definition example_voice_encoder :: "unit audio_encoder" where
  "example_voice_encoder = \<lparr>ae_opus = \<lparr>oe_encoder = (), oe_buffer = \<lparr>b_buf = replicate 960 0, b_allocated = 960, b_used = 0\<rparr>,
     oe_buffer_ms = 20, oe_codec_size = 960, oe_framed = replicate 960 0, oe_framed_size = 960\<rparr>, ae_sequence = 9, ae_has_cb = True\<rparr>"

lemma example_voice_ok:
  "opus_documented example_voice example_samples (\<lambda>_. 480)" "program_encoder example_voice_encoder"
  by (simp_all add: opus_documented_def example_voice_def example_samples_def program_encoder_def example_voice_encoder_def
      wf_audio_encoder_def wf_opus_encoder_def wf_buffer_def)

definition example_caller :: "(unit, unit) mumble_audio" where
  "example_caller = (example_audio True)\<lparr>au_encoder := example_voice_encoder\<rparr>"

lemma example_ready: "sends_with zero_block zero_block (au_udp example_caller)" "listens zero_block zero_block (example_audio False)"
  using example_udp_ok by (simp_all add: sends_with_def listens_def receives_with_def example_caller_def example_audio_def example_decoder_def
      example_udp_def)

abbreviation example_server :: "bytes list \<Rightarrow> bytes list" where
  "example_server \<equiv> ocb2_server example_cipher example_decipher 7 (zero_block, zero_block) (zero_block, zero_block)"

text \<open>Payloads of five bytes can be carried.\<close>

lemma example_acceptable:
  assumes "m \<in> set (sent_packets target q ps)" and "\<forall>p \<in> set ps. length p = 5" and "unat q + length ps \<le> 2 ^ 14"
  shows "length m mod 16 \<noteq> 0 \<and> acceptable 7 m"
  using assms
proof (induction target q ps rule: sent_packets.induct)
  case (2 target q p ps)
  have q: "unat q < 2 ^ 14" using "2.prems"(3) by simp
  then have "length (varint_bytes (ucast q)) \<le> 2" by (intro small_numbers(2)) (simp add: word_less_nat_alt)
  moreover have "1 \<le> length (varint_bytes (ucast q))" using varint_bytes_length(1) [of "ucast q"] by (simp add: Suc_le_eq)
  ultimately consider "length (varint_bytes (ucast q)) = 1" | "length (varint_bytes (ucast q)) = 2" by linarith
  then have "length (sent_packet 4 target q (opus_packet p)) mod 16 \<noteq> 0 \<and> acceptable 7 (sent_packet 4 target q (opus_packet p))"
    using "2.prems"(2) by cases (simp_all add: acceptable_def relayed_def sent_packet_def opus_packet_def varint_bytes_small)
  moreover have "unat (q + 1) = unat q + 1" using q by (simp add: unat_word_ariths)
  ultimately show ?case using 2 by auto
qed simp

lemma example_payloads_five:
  assumes "\<forall>f \<in> set fs. 5 \<le> length f"
  shows "\<forall>p \<in> set (opus_payloads example_voice k room e fs). length p = 5"
  using assms by (induction fs arbitrary: e) (auto simp: example_voice_def)

lemma example_voice_payloads:
  "voice_payloads example_voice example_voice_encoder (replicate 1920 7) = [replicate 5 7, replicate 5 7]"
proof -
  have "buffer_frames 960 False (replicate 1920 (7 :: byte)) = ([(replicate 960 7, False), (replicate 960 7, False)], [])"
    by (simp add: buffer_frames_full prod_eq_iff)
  then show ?thesis
    by (simp add: voice_payloads_def opus_frames_def example_voice_encoder_def pending_def example_voice_def)
qed

theorem voice_call_heard_witness:
  "\<exists>a' b'. let ms = sent_packets 1 9 [replicate 5 7, replicate 5 7]; sent = datagrams example_cipher zero_block zero_block ms in
    mumble_audio_send example_voice example_cipher (\<lambda>_. 1) example_ssl (\<lambda>r. int (length r)) (0, 0, 0) 1 (replicate 1920 7) 960
      example_caller (example_socket []) [] = ok (a', example_socket [], sent)
    \<and> hear example_cipher example_decipher example_samples (\<lambda>_. 480) (\<lambda>_. True) (example_server sent) (example_audio False)
      = ok (b', map (\<lambda>q. \<lparr>ap_codec = 4, ap_data = replicate 5 7, ap_hz = 48000, ap_samples = 480, ap_position = (0, 0, 0),
          ap_sequence = q, ap_source = 7, ap_target = 1\<rparr>) [9, 10])"
proof -
  let ?ps = "[replicate 5 7, replicate 5 7] :: bytes list"
  have caller: "au_encoder example_caller = example_voice_encoder" "mumble_audio_is_udp example_caller"
    by (simp_all add: example_caller_def example_audio_def mumble_audio_is_udp_def)
  have q: "ae_sequence example_voice_encoder = 9" by (simp add: example_voice_encoder_def)
  have d: "ad_opus (au_decoder (example_audio False)) = ()" "ad_sequence (au_decoder (example_audio False)) = 3"
    by (simp_all add: example_audio_def example_decoder_def)
  have seven: "\<not> bit (7 :: u64) 31" by (simp add: bit_numeral_rec)
  have ok: "\<forall>m \<in> set (sent_packets (ucast (1 :: i32)) 9 ?ps). length m mod 16 \<noteq> 0 \<and> acceptable 7 m"
    using example_acceptable [of _ "ucast (1 :: i32)" 9 ?ps] by simp
  have "\<exists>a' b'. mumble_audio_send example_voice example_cipher (\<lambda>_. 1) example_ssl (\<lambda>r. int (length r)) (0, 0, 0) 1 (replicate 1920 7) 960
      example_caller (example_socket []) [] = ok (a', example_socket [], [] @ datagrams example_cipher zero_block zero_block
        (sent_packets (ucast (1 :: i32)) 9 ?ps))
    \<and> hear example_cipher example_decipher example_samples (\<lambda>_. 480) (\<lambda>_. True)
        (example_server (datagrams example_cipher zero_block zero_block (sent_packets (ucast (1 :: i32)) 9 ?ps))) (example_audio False)
      = ok (b', voices example_samples (\<lambda>_. 480) 7 (ucast (1 :: i32)) 9 (ad_opus (au_decoder (example_audio False))) ?ps)
    \<and> sends_with zero_block ((next_nonce ^^ length ?ps) zero_block) (au_udp a') \<and> listens zero_block ((next_nonce ^^ length ?ps) zero_block) b'
    \<and> program_encoder (au_encoder a') \<and> mumble_audio_is_udp a' \<and> ad_sequence (au_decoder b') \<le> ae_sequence (au_encoder a')"
    by (rule voice_call_heard [OF example_voice_ok(1) _ caller(2) _ _ _ _ _ refl ok example_ready ocb2_server_relays seven])
      (simp_all add: caller(1) q d example_voice_ok example_voice_payloads example_cipher_ok)
  then show ?thesis unfolding d by (auto simp: example_samples_def Let_def)
qed

end
