(* ===== verification/Mumble_Client.thy ===== *)
theory Mumble_Client
  imports Audio
begin

text \<open>
  The client \<^verbatim>\<open>lib/mumble/mumble_client.c\<close>: it puts the bytes of the TLS stream together to frames, hands the
  control messages to its user, the tunnelled audio to the audio subsystem and the keys of a CryptSetup message
  to the UDP channel, and writes control messages and audio.

  The libraries the client calls are the fields of \<open>libs\<close>. A control message is unpacked by protobuf-c into an
  \<open>'m\<close>; of its fields the client reads those of CryptSetup, the key and the two nonces, each of them there or
  not. The messages the client writes are those of protobuf-c for the fields it sets: an optional scalar field
  has a flag of its own, which the first argument gives.
\<close>

record ('s, 'd, 'e, 'm) libs =
  lib_aes :: block_cipher
  lib_try_send :: "bytes \<Rightarrow> int"
  lib_ssl :: "'s openssl"
  lib_try_write :: "bytes \<Rightarrow> int"
  lib_opus_encode :: "'e opus_encode"
  lib_opus_decode :: "'d opus_decode"
  lib_nb_samples :: "bytes \<Rightarrow> int"
  lib_malloc_ok :: "int \<Rightarrow> bool"
  lib_unpack :: "nat \<Rightarrow> bytes \<Rightarrow> 'm option"
  lib_crypt_setup :: "'m \<Rightarrow> bytes option \<times> bytes option \<times> bytes option"
  lib_version_msg :: "bool \<Rightarrow> u32 \<Rightarrow> pb_message"
  lib_authenticate_msg :: "bytes option \<Rightarrow> bool \<Rightarrow> bool \<Rightarrow> pb_message"
  lib_ping_msg :: "bool \<Rightarrow> u64 \<Rightarrow> pb_message"
  lib_garbage :: position

text \<open>
  The client without its socket, which the callbacks of the socket get beside it. \<open>cl_ping_timer\<close> is the time at
  which the ping timer fires next and the interval it repeats after, \<open>cl_datagrams\<close> what was handed to the UDP socket so far.
\<close>

record ('d, 'e) mumble_client =
  cl_hostname :: string
  cl_port :: u16
  cl_nick :: bytes
  cl_ping_timer :: "(nat \<times> nat) option"
  cl_audio :: "('d, 'e) mumble_audio"
  cl_has_on_message :: bool
  cl_has_on_audio :: bool
  cl_decoder :: frame_ctx
  cl_encoder :: frame_ctx
  cl_datagrams :: "bytes list"

type_synonym ('s, 'd, 'e, 'u) client_state = "('s, ('d, 'e) mumble_client \<times> 'u) tcp_state"
type_synonym ('s, 'd, 'e, 'm, 'u) message_cb =
  "int \<Rightarrow> 'm option \<Rightarrow> ('s, 'd, 'e, 'u) client_state \<Rightarrow> ('s, 'd, 'e, 'u) client_state comp"
type_synonym ('s, 'd, 'e, 'u) audio_cb =
  "audio_packet \<Rightarrow> ('s, 'd, 'e, 'u) client_state \<Rightarrow> ('s, 'd, 'e, 'u) client_state comp"

section \<open>Writing\<close>

definition mumble_client_write ::
    "('s, 'd, 'e, 'm) libs \<Rightarrow> pb_message \<Rightarrow> 's tcp_ssl \<Rightarrow> ('d, 'e) mumble_client
      \<Rightarrow> ('s tcp_ssl \<times> ('d, 'e) mumble_client) res" where
  "mumble_client_write lib message socket client =
     rbind (mumble_frame_encode (cl_encoder client) message) (\<lambda>encoder.
     rbind (peek (fc_mem encoder) 0 (fc_size encoder)) (\<lambda>buf.
     rbind (mumble_uv_ssl_write (lib_ssl lib) (lib_try_write lib) buf socket) (\<lambda>socket'.
     Inr (socket', client\<lparr>cl_encoder := encoder\<rparr>))))"

text \<open>The target and the number of samples are \<open>int\<close>s, the samples the bytes \<open>pcm\<close>.\<close>

definition mumble_client_write_audio ::
    "('s, 'd, 'e, 'm) libs \<Rightarrow> i32 \<Rightarrow> bytes \<Rightarrow> nat \<Rightarrow> 's tcp_ssl \<Rightarrow> ('d, 'e) mumble_client
      \<Rightarrow> ('s tcp_ssl \<times> ('d, 'e) mumble_client) comp" where
  "mumble_client_write_audio lib target pcm samples socket client =
     cbind (mumble_audio_send (lib_opus_encode lib) (lib_aes lib) (lib_try_send lib) (lib_ssl lib) (lib_try_write lib)
         (lib_garbage lib) target pcm samples (cl_audio client) socket (cl_datagrams client))
       (\<lambda>(audio, socket', datagrams). ok (socket', client\<lparr>cl_audio := audio, cl_datagrams := datagrams\<rparr>))"

text \<open>\<open>(int)time(NULL)\<close> goes into an unsigned 64-bit field; the flag \<open>has_timestamp\<close> stays unset.\<close>

definition mumble_client_on_ping ::
    "('s, 'd, 'e, 'm) libs \<Rightarrow> u64 \<Rightarrow> 's tcp_ssl \<Rightarrow> ('d, 'e) mumble_client
      \<Rightarrow> ('s tcp_ssl \<times> ('d, 'e) mumble_client) res" where
  "mumble_client_on_ping lib now socket client =
     mumble_client_write lib (lib_ping_msg lib False (scast (ucast now :: i32))) socket client"

text \<open>A C string, up to its terminating zero; the copy has one of its own.\<close>

definition dupstr :: "bytes \<Rightarrow> bool \<Rightarrow> bytes option res" where
  "dupstr source malloc_ok =
     (if 0 \<notin> set source then Inl Out_of_bounds
      else if \<not> malloc_ok then Inr None
      else Inr (Some (takeWhile (\<lambda>b. b \<noteq> 0) source @ [0])))"

text \<open>The status is not looked at. The ping timer is started for 15 seconds, then every 30.\<close>

definition mumble_connect_cb_adapter ::
    "('s, 'd, 'e, 'm) libs \<Rightarrow> int \<times> bytes \<times> int \<Rightarrow> nat \<Rightarrow> u64 \<Rightarrow> bool \<Rightarrow> int \<Rightarrow> ('s, 'd, 'e, 'u) client_state
      \<Rightarrow> ('s, 'd, 'e, 'u) client_state comp" where
  "mumble_connect_cb_adapter lib peername clock now malloc_ok status = (\<lambda>(socket, client, u).
     Some (rbind (mumble_audio_start peername (cl_audio client)) (\<lambda>audio.
     let client = client\<lparr>cl_audio := audio, cl_ping_timer := Some (clock + 15000, 30000)\<rparr>;
         version = push_bit 16 1 OR push_bit 8 2 OR 5 in
     rbind (mumble_client_write lib (lib_version_msg lib False version) socket client) (\<lambda>(socket, client).
     rbind (dupstr (cl_nick client) malloc_ok) (\<lambda>username.
     rbind (mumble_client_write lib (lib_authenticate_msg lib username True True) socket client) (\<lambda>(socket, client).
     rbind (mumble_client_write lib (lib_ping_msg lib False (scast (ucast now :: i32))) socket client) (\<lambda>(socket, client).
     Inr (socket, client, u))))))))"

section \<open>Reading\<close>

definition mumble_message_internal ::
    "('s, 'd, 'e, 'm) libs \<Rightarrow> nat \<Rightarrow> int \<Rightarrow> 'm option \<Rightarrow> ('d, 'e) mumble_client \<Rightarrow> ('d, 'e) mumble_client res" where
  "mumble_message_internal lib clock type message client =
     (if type = 15 then
        case message of None \<Rightarrow> Inl Null_deref
        | Some msg \<Rightarrow>
            case lib_crypt_setup lib msg of
              (Some k, Some client_nonce, Some server_nonce) \<Rightarrow>
                rbind (mumble_audio_encryption k client_nonce server_nonce (length client_nonce) clock (cl_audio client))
                  (\<lambda>audio. Inr (client\<lparr>cl_audio := audio\<rparr>))
            | _ \<Rightarrow> Inl Assert_failed
      else Inr client)"

definition mumble_on_audio ::
    "('s, 'd, 'e, 'u) audio_cb \<Rightarrow> audio_packet \<Rightarrow> ('s, 'd, 'e, 'u) client_state \<Rightarrow> ('s, 'd, 'e, 'u) client_state comp" where
  "mumble_on_audio on_audio decoded = (\<lambda>(socket, client, u).
     if cl_has_on_audio client then on_audio decoded (socket, client, u) else ok (socket, client, u))"

text \<open>One round of the loop in \<open>mumble_message_cb_adapter\<close>.\<close>

definition message_round ::
    "('s, 'd, 'e, 'm) libs \<Rightarrow> nat \<Rightarrow> ('s, 'd, 'e, 'm, 'u) message_cb \<Rightarrow> ('s, 'd, 'e, 'u) audio_cb
      \<Rightarrow> ('s, 'd, 'e, 'u) client_state \<Rightarrow> ('s, 'd, 'e, 'u) client_state comp" where
  "message_round lib clock on_message on_audio = (\<lambda>(socket, client, u).
     if mumble_frame_is_audio (cl_decoder client) then
       cbind (mumble_audio_decoder_decode (lib_opus_decode lib) (lib_nb_samples lib) (lib_malloc_ok lib)
           (mumble_audio_decoder (cl_audio client)) (fc_mem (cl_decoder client)) (int (fc_size (cl_decoder client))))
         (\<lambda>(ret, decoder, decoded).
       let client = client\<lparr>cl_audio := (cl_audio client)\<lparr>au_decoder := decoder\<rparr>\<rparr> in
       cbind (case decoder_cb (cl_audio client) decoded of None \<Rightarrow> ok (socket, client, u)
              | Some packet \<Rightarrow> mumble_on_audio on_audio packet (socket, client, u)) (\<lambda>(socket, client, u).
       ok (socket, client\<lparr>cl_decoder := snd (mumble_frame_pop (cl_decoder client))\<rparr>, u)))
     else
       cbind (Some (mumble_frame_decode (lib_unpack lib) (cl_decoder client))) (\<lambda>(type, message, decoder).
       let client = client\<lparr>cl_decoder := decoder\<rparr> in
       if 0 \<le> type then
         cbind (Some (mumble_message_internal lib clock type message client)) (\<lambda>client.
         if cl_has_on_message client then on_message type message (socket, client, u) else ok (socket, client, u))
       else ok (socket, client, u)))"

partial_function (option) message_loop ::
    "('s, 'd, 'e, 'm) libs \<Rightarrow> nat \<Rightarrow> ('s, 'd, 'e, 'm, 'u) message_cb \<Rightarrow> ('s, 'd, 'e, 'u) audio_cb
      \<Rightarrow> ('s, 'd, 'e, 'u) client_state \<Rightarrow> ('s, 'd, 'e, 'u) client_state comp" where
  "message_loop lib clock on_message on_audio st =
     (if mumble_frame_ready (cl_decoder (fst (snd st)))
      then cbind (message_round lib clock on_message on_audio st) (message_loop lib clock on_message on_audio)
      else ok st)"

definition mumble_message_cb_adapter ::
    "('s, 'd, 'e, 'm) libs \<Rightarrow> nat \<Rightarrow> ('s, 'd, 'e, 'm, 'u) message_cb \<Rightarrow> ('s, 'd, 'e, 'u) audio_cb
      \<Rightarrow> bytes \<Rightarrow> ('s, 'd, 'e, 'u) client_state \<Rightarrow> ('s, 'd, 'e, 'u) client_state comp" where
  "mumble_message_cb_adapter lib clock on_message on_audio buf = (\<lambda>(socket, client, u).
     cbind (Some (mumble_frame_append (cl_decoder client) buf)) (\<lambda>(ready, decoder).
     message_loop lib clock on_message on_audio (socket, client\<lparr>cl_decoder := decoder\<rparr>, u)))"

section \<open>Setting up\<close>

text \<open>The arguments of the initialisations of the socket, the audio subsystem and the two framings.\<close>

definition mumble_client_init ::
    "'s tcp_ssl res \<Rightarrow> ('d, 'e) mumble_audio res \<Rightarrow> bytes option \<Rightarrow> bytes option \<Rightarrow> string \<Rightarrow> u16 \<Rightarrow> bytes
      \<Rightarrow> ('s tcp_ssl \<times> ('d, 'e) mumble_client) res" where
  "mumble_client_init ssl_init audio_init mem1 mem2 hostname port nick =
     rbind ssl_init (\<lambda>socket.
     rbind audio_init (\<lambda>audio.
     rbind (mumble_frame_init mem1) (\<lambda>decoder.
     rbind (mumble_frame_encoder_init mem2) (\<lambda>encoder.
     Inr (mumble_uv_ssl_set_data (mumble_uv_ssl_set_cb socket True)
       \<lparr>cl_hostname = hostname, cl_port = port, cl_nick = nick, cl_ping_timer = None,
        cl_audio = mumble_audio_set_cb audio True, cl_has_on_message = False, cl_has_on_audio = False,
        cl_decoder = decoder, cl_encoder = encoder, cl_datagrams = []\<rparr>)))))"

fun decimal :: "nat \<Rightarrow> string" where
  "decimal n = (if n < 10 then [char_of (48 + n)] else decimal (n div 10) @ [char_of (48 + n mod 10)])"

declare decimal.simps [simp del]

text \<open>\<open>snprintf\<close> writes at most five characters and the terminating zero into \<open>port_str\<close>.\<close>

definition mumble_client_connect ::
    "bool \<Rightarrow> bool \<Rightarrow> (string \<Rightarrow> string \<Rightarrow> int) \<Rightarrow> 's tcp_ssl \<Rightarrow> ('d, 'e) mumble_client \<Rightarrow> 's tcp_ssl res" where
  "mumble_client_connect creq_ok req_ok getaddrinfo socket client =
     (let port_str = take 5 (decimal (unat (cl_port client))) in
      mumble_uv_ssl_connect creq_ok req_ok (getaddrinfo (cl_hostname client) port_str) True socket)"

definition mumble_client_set_on_audio :: "('d, 'e) mumble_client \<Rightarrow> bool \<Rightarrow> ('d, 'e) mumble_client" where
  "mumble_client_set_on_audio client cb = client\<lparr>cl_has_on_audio := cb\<rparr>"

definition mumble_client_set_on_message :: "('d, 'e) mumble_client \<Rightarrow> bool \<Rightarrow> ('d, 'e) mumble_client" where
  "mumble_client_set_on_message client cb = client\<lparr>cl_has_on_message := cb\<rparr>"

section \<open>Control messages\<close>

text \<open>
  What one control message does, apart from the bytes that wait: the client's own reaction, then the user's,
  for a user whose callback \<open>h\<close> works on its own state.
\<close>

definition message_effect ::
    "('s, 'd, 'e, 'm) libs \<Rightarrow> nat \<Rightarrow> (int \<Rightarrow> 'm option \<Rightarrow> 'u \<Rightarrow> 'u) \<Rightarrow> nat \<times> bytes
      \<Rightarrow> ('d, 'e) mumble_client \<times> 'u \<Rightarrow> (('d, 'e) mumble_client \<times> 'u) res" where
  "message_effect lib clock h = (\<lambda>(type, payload) (client, u).
     rbind (mumble_message_internal lib clock (int type) (lib_unpack lib type payload) client) (\<lambda>client'.
     Inr (client', if cl_has_on_message client' then h (int type) (lib_unpack lib type payload) u else u)))"

definition control_frame :: "nat \<times> bytes \<Rightarrow> bool" where
  "control_frame f \<longleftrightarrow> valid_frame f \<and> fst f < 26 \<and> fst f \<noteq> 1"

lemma internal_decoder:
  "mumble_message_internal lib clock type message (client\<lparr>cl_decoder := ctx\<rparr>) =
     rbind (mumble_message_internal lib clock type message client) (\<lambda>client'. Inr (client'\<lparr>cl_decoder := ctx\<rparr>))"
  by (auto simp: mumble_message_internal_def rbind_def split: option.splits sum.splits prod.splits)

lemma internal_fields:
  "mumble_message_internal lib clock type message client = Inr client' \<Longrightarrow>
     cl_decoder client' = cl_decoder client \<and> cl_has_on_message client' = cl_has_on_message client
     \<and> cl_has_on_audio client' = cl_has_on_audio client"
  by (auto simp: mumble_message_internal_def rbind_Inr_iff split: option.splits if_splits prod.splits)

lemma effect_decoder:
  "message_effect lib clock h f (client\<lparr>cl_decoder := ctx\<rparr>, u) =
     rbind (message_effect lib clock h f (client, u)) (\<lambda>(client', u'). Inr (client'\<lparr>cl_decoder := ctx\<rparr>, u'))"
  by (cases f; cases "mumble_message_internal lib clock (int (fst f)) (lib_unpack lib (fst f) (snd f)) client")
    (simp_all add: message_effect_def internal_decoder)

lemma effects_decoder:
  "for_each (message_effect lib clock h) fs (client\<lparr>cl_decoder := ctx\<rparr>, u) =
     rbind (for_each (message_effect lib clock h) fs (client, u)) (\<lambda>(client', u'). Inr (client'\<lparr>cl_decoder := ctx\<rparr>, u'))"
proof (induction fs arbitrary: client u)
  case (Cons f fs)
  then show ?case
    by (cases "message_effect lib clock h f (client, u)") (auto simp: effect_decoder)
qed simp

text \<open>A whole control frame in front: one round of the loop.\<close>

lemma control_round:
  assumes "wf_frame_ctx (cl_decoder client)" and "fc_data (cl_decoder client) = frame_bytes f @ rest" and "control_frame f"
    and "\<And>t m socket client u. on_message t m (socket, client, u) = ok (socket, client, h t m u)"
  obtains ctx where "mumble_frame_ready (cl_decoder client)" "wf_frame_ctx ctx" "fc_data ctx = rest"
    "fc_allocated ctx = fc_allocated (cl_decoder client)"
    "message_round lib clock on_message on_audio (socket, client, u) =
       cbind (Some (message_effect lib clock h f (client, u))) (\<lambda>(client', u'). ok (socket, client'\<lparr>cl_decoder := ctx\<rparr>, u'))"
proof -
  obtain t p where f: "f = (t, p)" by fastforce
  have vf: "valid_frame (t, p)" and t: "t < 26" "t \<noteq> 1" using assms(3) by (simp_all add: control_frame_def f)
  note d = data_frame [OF vf, of rest, folded assms(2) [unfolded f]]
  have ready: "mumble_frame_ready (cl_decoder client)"
    using frame_ready_data [OF assms(1)] d(3) by (simp add: assms(2) f)
  have no_audio: "\<not> mumble_frame_is_audio (cl_decoder client)"
    using d(1) t(2) by (simp add: mumble_frame_is_audio_def frame_type_data [OF assms(1)])
  obtain ctx where ctx: "mumble_frame_decode (lib_unpack lib) (cl_decoder client) = Inr (int t, lib_unpack lib t p, ctx)"
    "wf_frame_ctx ctx" "fc_data ctx = rest" "fc_allocated ctx = fc_allocated (cl_decoder client)"
    by (rule decode_frame [OF assms(1) assms(2) [unfolded f] vf t])
  have "message_round lib clock on_message on_audio (socket, client, u) =
       cbind (Some (message_effect lib clock h f (client, u))) (\<lambda>(client', u'). ok (socket, client'\<lparr>cl_decoder := ctx\<rparr>, u'))"
    using no_audio ctx(1)
    by (cases "mumble_message_internal lib clock (int t) (lib_unpack lib t p) client")
      (simp_all add: message_round_def message_effect_def internal_decoder f assms(4))
  with that ready ctx(2-4) show thesis by blast
qed

lemma control_loop:
  assumes "wf_frame_ctx (cl_decoder client)" and "fc_data (cl_decoder client) = concat (map frame_bytes fs) @ rest"
    and "list_all control_frame fs"
    and "\<And>t m socket client u. on_message t m (socket, client, u) = ok (socket, client, h t m u)"
  shows "\<exists>ctx. wf_frame_ctx ctx \<and> fc_data ctx = rest \<and> fc_allocated ctx = fc_allocated (cl_decoder client) \<and>
    message_loop lib clock on_message on_audio (socket, client, u) =
      cbind (Some (for_each (message_effect lib clock h) fs (client, u)))
        (\<lambda>(client', u'). message_loop lib clock on_message on_audio (socket, client'\<lparr>cl_decoder := ctx\<rparr>, u'))"
  using assms(1-3)
proof (induction fs arbitrary: client u)
  case Nil
  then show ?case by (intro exI [of _ "cl_decoder client"]) simp
next
  case (Cons f fs)
  let ?loop = "message_loop lib clock on_message on_audio"
  have f: "control_frame f" and data: "fc_data (cl_decoder client) = frame_bytes f @ (concat (map frame_bytes fs) @ rest)"
    using Cons.prems by simp_all
  obtain ctx where r: "mumble_frame_ready (cl_decoder client)" "wf_frame_ctx ctx"
    "fc_data ctx = concat (map frame_bytes fs) @ rest" "fc_allocated ctx = fc_allocated (cl_decoder client)"
    "message_round lib clock on_message on_audio (socket, client, u) =
       cbind (Some (message_effect lib clock h f (client, u))) (\<lambda>(client', u'). ok (socket, client'\<lparr>cl_decoder := ctx\<rparr>, u'))"
    by (rule control_round [OF Cons.prems(1) data f assms(4)])
  have loop: "?loop (socket, client, u) = cbind (message_round lib clock on_message on_audio (socket, client, u)) ?loop"
    using r(1) by (subst message_loop.simps) simp
  show ?case
  proof (cases "message_effect lib clock h f (client, u)")
    case (Inl e)
    obtain ctx' where "wf_frame_ctx ctx'" "fc_data ctx' = rest" "fc_allocated ctx' = fc_allocated ctx"
      using Cons.IH [of "client\<lparr>cl_decoder := ctx\<rparr>" u] Cons.prems(3) r by auto
    with Inl r show ?thesis
      by (intro exI [of _ ctx']) (simp add: loop)
  next
    case (Inr s)
    obtain client1 u1 where s: "s = (client1, u1)" by fastforce
    obtain ctx' where ctx': "wf_frame_ctx ctx'" "fc_data ctx' = rest" "fc_allocated ctx' = fc_allocated ctx"
      "?loop (socket, client1\<lparr>cl_decoder := ctx\<rparr>, u1) =
        cbind (Some (for_each (message_effect lib clock h) fs (client1\<lparr>cl_decoder := ctx\<rparr>, u1)))
          (\<lambda>(client', u'). ?loop (socket, client'\<lparr>cl_decoder := ctx'\<rparr>, u'))"
      using Cons.IH [of "client1\<lparr>cl_decoder := ctx\<rparr>" u1] Cons.prems(3) r by auto
    have "?loop (socket, client, u) =
        cbind (Some (for_each (message_effect lib clock h) fs (client1, u1)))
          (\<lambda>(client', u'). ?loop (socket, client'\<lparr>cl_decoder := ctx'\<rparr>, u'))"
      using r(5) Inr ctx'(4)
      by (cases "for_each (message_effect lib clock h) fs (client1, u1)")
        (auto simp: loop s effects_decoder)
    with ctx'(1-3) r(4) Inr s show ?thesis
      by (intro exI [of _ ctx']) simp
  qed
qed

lemma loop_ends:
  assumes "wf_frame_ctx (cl_decoder client)" and "length (fc_data (cl_decoder client)) < data_total (fc_data (cl_decoder client))"
  shows "message_loop lib clock on_message on_audio (socket, client, u) = ok (socket, client, u)"
  using assms frame_ready_data [OF assms(1)] by (subst message_loop.simps) simp

text \<open>The first five bytes of a frame are taken for a frame that is ready, of the length \<open>-1\<close>.\<close>

lemma loop_five:
  assumes "wf_frame_ctx (cl_decoder client)" and "length (fc_data (cl_decoder client)) = 5"
    and "frame_bytes f = fc_data (cl_decoder client) @ missing" and "control_frame f"
  shows "message_loop lib clock on_message on_audio (socket, client, u) = faults Out_of_bounds"
proof -
  let ?ctx = "cl_decoder client"
  obtain t p where f: "f = (t, p)" by fastforce
  have vf: "valid_frame (t, p)" and t: "t < 26" "t \<noteq> 1" using assms(4) by (simp_all add: control_frame_def f)
  have "data_type (frame_bytes f) = int t" using data_frame(1) [OF vf, of "[]"] by (simp add: f)
  then have type: "data_type (fc_data ?ctx) = int t" using assms(2) by (simp add: assms(3) data_type_def ntohs_def nth_append)
  have size: "data_size (fc_data ?ctx) = -1" "data_total (fc_data ?ctx) = 5" using assms(2) by (simp_all add: data_size_def data_total_def)
  have "mumble_frame_ready ?ctx" using frame_ready_data [OF assms(1)] size assms(2) by simp
  moreover from this have "mumble_frame_decode (lib_unpack lib) ?ctx = Inl Out_of_bounds"
    using t by (simp add: mumble_frame_decode_def mumble_frame_is_audio_def frame_type_data [OF assms(1)] frame_size_data [OF assms(1)]
        type size descriptor_def Let_def)
  moreover have "\<not> mumble_frame_is_audio ?ctx"
    using t(2) by (simp add: mumble_frame_is_audio_def frame_type_data [OF assms(1)] type)
  ultimately show ?thesis by (subst message_loop.simps) (simp add: message_round_def)
qed

section \<open>The stream, in pieces\<close>

text \<open>
  Of a stream of frames the first bytes have arrived: the frames that are complete, the bytes that wait,
  and the frames that are still to come, the first of which the waiting bytes belong to.
\<close>

fun arrived :: "(nat \<times> bytes) list \<Rightarrow> bytes \<Rightarrow> (nat \<times> bytes) list \<times> bytes \<times> (nat \<times> bytes) list" where
  "arrived [] ds = ([], ds, [])"
| "arrived (f # fs) ds =
     (if length (frame_bytes f) \<le> length ds
      then let (complete, waiting, coming) = arrived fs (drop (length (frame_bytes f)) ds) in (f # complete, waiting, coming)
      else ([], ds, f # fs))"

lemma arrived_split:
  assumes "arrived fs ds = (complete, waiting, coming)" and "ds @ later = concat (map frame_bytes fs)"
  shows "fs = complete @ coming \<and> ds = concat (map frame_bytes complete) @ waiting
    \<and> (case coming of [] \<Rightarrow> waiting = [] | f # _ \<Rightarrow> \<exists>missing. missing \<noteq> [] \<and> frame_bytes f = waiting @ missing)
    \<and> waiting @ later = concat (map frame_bytes coming)"
  using assms
proof (induction fs ds arbitrary: complete rule: arrived.induct)
  case (2 f fs ds)
  let ?n = "length (frame_bytes f)"
  have eq: "ds @ later = frame_bytes f @ concat (map frame_bytes fs)" using "2.prems"(2) by simp
  show ?case
  proof (cases "?n \<le> length ds")
    case True
    have t: "take ?n ds = frame_bytes f" and d: "drop ?n ds @ later = concat (map frame_bytes fs)"
      using True arg_cong [OF eq, of "take ?n"] arg_cong [OF eq, of "drop ?n"] by simp_all
    have ds: "ds = frame_bytes f @ drop ?n ds" using append_take_drop_id [of ?n ds] by (simp only: t)
    obtain c where c: "arrived fs (drop ?n ds) = (c, waiting, coming)" "complete = f # c"
      using "2.prems"(1) True by (auto split: prod.splits)
    have "fs = c @ coming \<and> drop ?n ds = concat (map frame_bytes c) @ waiting
      \<and> (case coming of [] \<Rightarrow> waiting = [] | f # _ \<Rightarrow> \<exists>missing. missing \<noteq> [] \<and> frame_bytes f = waiting @ missing)
      \<and> waiting @ later = concat (map frame_bytes coming)"
      by (rule "2.IH" [OF True c(1) d])
    then show ?thesis using ds c(2) by simp
  next
    case False
    then have "complete = []" "waiting = ds" "coming = f # fs" using "2.prems"(1) by simp_all
    moreover have "frame_bytes f = ds @ drop (length ds) (frame_bytes f)"
      using False arg_cong [OF eq, of "take (length ds)"] append_take_drop_id [of "length ds" "frame_bytes f"] by simp
    ultimately show ?thesis
      using False eq by (auto intro!: exI [of _ "drop (length ds) (frame_bytes f)"])
  qed
qed simp

text \<open>An incomplete frame is not taken for a complete one, unless it consists of five bytes.\<close>

lemma partial_frame:
  assumes "valid_frame f" and "frame_bytes f = w @ missing" and "missing \<noteq> []" and "length w \<noteq> 5"
  shows "length w < data_total w"
proof -
  obtain t p where f: "f = (t, p)" by fastforce
  have len: "length w < 6 + length p"
    using arg_cong [OF assms(2), of length] assms(3) by (simp add: f)
  show ?thesis
  proof (cases "length w < 6")
    case True
    then have "data_total w = 5" by (simp add: data_total_def data_size_def)
    with True assms(4) show ?thesis by simp
  next
    case False
    let ?h = "htons (of_nat t) @ htonl (of_nat (length p))"
    have "take 6 w = take 6 (frame_bytes f)" using False by (simp add: assms(2))
    then have "take 6 w = ?h" by (simp add: f frame_bytes_def)
    then have w: "w = ?h @ drop 6 w" using append_take_drop_id [of 6 w] by (simp only:)
    have "drop 2 w = htonl (of_nat (length p)) @ drop 6 w" by (subst w) simp
    moreover have "drop 2 (frame_bytes (t, p)) = htonl (of_nat (length p)) @ p" by (simp add: frame_bytes_def)
    ultimately have "data_size w = data_size (frame_bytes (t, p))"
      using False by (simp add: data_size_def)
    then have "data_total w = 6 + length p"
      using data_frame(3) [OF assms(1) [unfolded f], of "[]"] by (simp add: data_total_def)
    with len show ?thesis by simp
  qed
qed

lemma waiting_not_ready:
  assumes "arrived fs ds = (complete, waiting, coming)" and "ds @ later = concat (map frame_bytes fs)"
    and "list_all control_frame fs" and "length waiting \<noteq> 5"
  shows "length waiting < data_total waiting"
proof -
  note split = arrived_split [OF assms(1,2)]
  show ?thesis
  proof (cases coming)
    case Nil
    with split have "waiting = []" by simp
    then show ?thesis by (simp add: data_total_def data_size_def)
  next
    case (Cons f fs')
    with split obtain missing where "missing \<noteq> []" "frame_bytes f = waiting @ missing" by auto
    moreover have "valid_frame f" using split assms(3) Cons by (simp add: control_frame_def)
    ultimately show ?thesis using assms(4) by (intro partial_frame)
  qed
qed

lemma empty_ctx: "wf_frame_ctx ctx \<Longrightarrow> \<exists>ctx'. wf_frame_ctx ctx' \<and> fc_data ctx' = []"
  by (intro exI [of _ "ctx\<lparr>fc_size := 0\<rparr>"]) (auto simp: wf_frame_ctx_def fc_data_def)

fun receive_chunks ::
    "('s, 'd, 'e, 'm) libs \<Rightarrow> nat \<Rightarrow> ('s, 'd, 'e, 'm, 'u) message_cb \<Rightarrow> ('s, 'd, 'e, 'u) audio_cb
      \<Rightarrow> bytes list \<Rightarrow> ('s, 'd, 'e, 'u) client_state \<Rightarrow> ('s, 'd, 'e, 'u) client_state comp" where
  "receive_chunks lib clock on_message on_audio [] st = ok st"
| "receive_chunks lib clock on_message on_audio (c # cs) st =
     cbind (mumble_message_cb_adapter lib clock on_message on_audio c st) (receive_chunks lib clock on_message on_audio cs)"

text \<open>
  Where the frames \<open>fs\<close> are to come and \<open>w\<close> has arrived of them: the frames that are complete when a piece of the stream first ends
  with exactly five bytes of a frame.
\<close>

fun until_five :: "(nat \<times> bytes) list \<Rightarrow> bytes \<Rightarrow> bytes list \<Rightarrow> (nat \<times> bytes) list option" where
  "until_five fs w [] = None"
| "until_five fs w (c # cs) =
     (case arrived fs (w @ c) of (complete, waiting, coming) \<Rightarrow>
        if length waiting = 5 then Some complete else map_option ((@) complete) (until_five coming waiting cs))"

text \<open>What becomes of a stream of control messages.\<close>

definition stream_outcome ::
    "('s, 'd, 'e, 'm) libs \<Rightarrow> nat \<Rightarrow> (int \<Rightarrow> 'm option \<Rightarrow> 'u \<Rightarrow> 'u) \<Rightarrow> frame_ctx \<Rightarrow> (nat \<times> bytes) list \<Rightarrow> (nat \<times> bytes) list option
      \<Rightarrow> 's tcp_ssl \<Rightarrow> ('d, 'e) mumble_client \<times> 'u \<Rightarrow> ('s, 'd, 'e, 'u) client_state comp" where
  "stream_outcome lib clock h decoder fs five socket c =
     (case five of
        None \<Rightarrow> cbind (Some (for_each (message_effect lib clock h) fs c)) (\<lambda>(client, u). ok (socket, client\<lparr>cl_decoder := decoder\<rparr>, u))
      | Some ended \<Rightarrow> cbind (Some (for_each (message_effect lib clock h) ended c)) (\<lambda>_. faults Out_of_bounds))"

lemma chunks_deliver:
  assumes "wf_frame_ctx (cl_decoder client)" and "fc_data (cl_decoder client) = w"
    and "fc_allocated (cl_decoder client) = 2 ^ 20" and "w @ concat chunks = concat (map frame_bytes fs)"
    and "list_all control_frame fs" and "\<forall>f \<in> set fs. length (frame_bytes f) \<le> 2 ^ 20 - 2 ^ 14"
    and "\<forall>c \<in> set chunks. length c \<le> 2 ^ 14" and "length w \<le> 2 ^ 20 - 2 ^ 14"
    and "\<And>t m socket client u. on_message t m (socket, client, u) = ok (socket, client, h t m u)"
  shows "\<exists>ctx. wf_frame_ctx ctx \<and> (chunks \<noteq> [] \<longrightarrow> fc_data ctx = []) \<and>
    receive_chunks lib clock on_message on_audio chunks (socket, client, u) =
      (if chunks = [] then ok (socket, client, u) else stream_outcome lib clock h ctx fs (until_five fs w chunks) socket (client, u))"
  using assms(1-8)
proof (induction chunks arbitrary: client u fs w)
  case Nil
  then show ?case by auto
next
  case (Cons c cs)
  let ?each = "for_each (message_effect lib clock h)" and ?loop = "message_loop lib clock on_message on_audio"
  obtain complete waiting coming where ar: "arrived fs (w @ c) = (complete, waiting, coming)"
    using prod_cases3 by blast
  have stream: "(w @ c) @ concat cs = concat (map frame_bytes fs)" using Cons.prems(4) by simp
  note split = arrived_split [OF ar stream]
  have frames: "list_all control_frame complete" "list_all control_frame coming"
    "\<forall>f \<in> set coming. length (frame_bytes f) \<le> 2 ^ 20 - 2 ^ 14"
    using split Cons.prems(5,6) by auto
  have room: "fc_size (cl_decoder client) + length c \<le> fc_allocated (cl_decoder client)"
    using Cons.prems(2,3,7,8) fc_data_length [OF Cons.prems(1)] by simp
  obtain ctx where app: "mumble_frame_append (cl_decoder client) c = Inr (mumble_frame_ready ctx, ctx)"
    "wf_frame_ctx ctx" "fc_data ctx = w @ c" "fc_allocated ctx = 2 ^ 20"
    using frame_append_data [OF Cons.prems(1) room] Cons.prems(2,3) by metis
  let ?client = "client\<lparr>cl_decoder := ctx\<rparr>"
  obtain ctx1 where loop: "wf_frame_ctx ctx1" "fc_data ctx1 = waiting" "fc_allocated ctx1 = 2 ^ 20"
    "?loop (socket, ?client, u) = cbind (Some (?each complete (?client, u))) (\<lambda>(client', u'). ?loop (socket, client'\<lparr>cl_decoder := ctx1\<rparr>, u'))"
    using control_loop [where client = ?client and on_message = on_message and h = h and on_audio = on_audio and lib = lib and clock = clock and u = u
        and socket = socket, OF _ _ frames(1) assms(9)] app split by auto
  have adapter: "receive_chunks lib clock on_message on_audio (c # cs) (socket, client, u) =
      cbind (Some (?each complete (client, u)))
        (\<lambda>(client', u'). cbind (?loop (socket, client'\<lparr>cl_decoder := ctx1\<rparr>, u')) (receive_chunks lib clock on_message on_audio cs))"
    using loop(4) by (cases "?each complete (client, u)") (auto simp: mumble_message_cb_adapter_def app(1) effects_decoder cbind_assoc)
  show ?case
  proof (cases "length waiting = 5")
    case True
    then obtain f missing where f: "f \<in> set coming" "frame_bytes f = waiting @ missing" using split by (cases coming) auto
    have "?loop (socket, client'\<lparr>cl_decoder := ctx1\<rparr>, u') = faults Out_of_bounds" for client' u'
      by (rule loop_five [where f = f and missing = missing]) (use loop(1,2) True f frames(2) in \<open>auto simp: list_all_iff\<close>)
    moreover obtain ctx2 where "wf_frame_ctx ctx2" "fc_data ctx2 = []" using empty_ctx [OF app(2)] by blast
    ultimately show ?thesis
      using True ar by (intro exI [of _ ctx2]) (simp add: adapter stream_outcome_def split_def del: receive_chunks.simps)
  next
    case False
    have ends: "?loop (socket, client'\<lparr>cl_decoder := ctx1\<rparr>, u') = ok (socket, client'\<lparr>cl_decoder := ctx1\<rparr>, u')" for client' u'
      by (rule loop_ends) (use loop(1,2) waiting_not_ready [OF ar stream Cons.prems(5) False] in simp_all)
    have small: "length waiting \<le> 2 ^ 20 - 2 ^ 14"
    proof (cases coming)
      case (Cons f fs')
      with split have "length waiting \<le> length (frame_bytes f)" by auto
      moreover have "length (frame_bytes f) \<le> 2 ^ 20 - 2 ^ 14" using frames(3) Cons by simp
      ultimately show ?thesis by (rule le_trans)
    qed (use split in simp)
    have rest: "waiting @ concat cs = concat (map frame_bytes coming)" using split by simp
    have five: "until_five fs w (c # cs) = map_option ((@) complete) (until_five coming waiting cs)" using ar False by simp
    have each: "?each (complete @ fs') (client, u) = rbind (?each complete (client, u)) (?each fs')" for fs'
      by (simp add: for_each_append)
    have fs: "fs = complete @ coming" using split by simp
    show ?thesis
    proof (cases "?each complete (client, u)")
      case (Inl e)
      obtain ctx2 where "wf_frame_ctx ctx2" "fc_data ctx2 = []"
        using empty_ctx [OF app(2)] by blast
      with Inl show ?thesis
        unfolding adapter five
        by (intro exI [of _ ctx2]) (cases "until_five coming waiting cs", simp_all add: stream_outcome_def fs each)
    next
      case (Inr s)
      obtain client1 u1 where s: "s = (client1, u1)" by fastforce
      obtain ctx2 where ctx2: "wf_frame_ctx ctx2" "cs \<noteq> [] \<Longrightarrow> fc_data ctx2 = []"
        "receive_chunks lib clock on_message on_audio cs (socket, client1\<lparr>cl_decoder := ctx1\<rparr>, u1) =
          (if cs = [] then ok (socket, client1\<lparr>cl_decoder := ctx1\<rparr>, u1)
           else stream_outcome lib clock h ctx2 coming (until_five coming waiting cs) socket (client1\<lparr>cl_decoder := ctx1\<rparr>, u1))"
        using Cons.IH [of "client1\<lparr>cl_decoder := ctx1\<rparr>" waiting coming u1, OF _ _ _ rest frames(2,3) _ small] Cons.prems(7) loop(1-3) by auto
      have run: "receive_chunks lib clock on_message on_audio (c # cs) (socket, client, u)
          = receive_chunks lib clock on_message on_audio cs (socket, client1\<lparr>cl_decoder := ctx1\<rparr>, u1)"
        unfolding adapter by (simp add: Inr s ends)
      show ?thesis
      proof (cases "cs = []")
        case True
        then have "coming = [] \<and> waiting = []" using split rest by (cases coming) auto
        with True Inr s loop(1,2) show ?thesis
          unfolding run five by (intro exI [of _ ctx1]) (simp add: stream_outcome_def fs)
      next
        case False
        have pre: "?each (complete @ fs') (client, u) = ?each fs' (client1, u1)" for fs' by (simp add: each Inr s)
        have rest_run: "receive_chunks lib clock on_message on_audio (c # cs) (socket, client, u)
            = stream_outcome lib clock h ctx2 coming (until_five coming waiting cs) socket (client1\<lparr>cl_decoder := ctx1\<rparr>, u1)"
          unfolding run using ctx2(3) False by simp
        have "receive_chunks lib clock on_message on_audio (c # cs) (socket, client, u)
            = stream_outcome lib clock h ctx2 fs (until_five fs w (c # cs)) socket (client, u)"
        proof (cases "until_five coming waiting cs")
          case None
          show ?thesis
            unfolding rest_run five None
            unfolding stream_outcome_def fs option.map option.case pre effects_decoder
            by (cases "?each coming (client1, u1)") (simp_all add: split_def)
        next
          case (Some ended)
          show ?thesis
            unfolding rest_run five Some
            unfolding stream_outcome_def option.map option.case pre effects_decoder
            by (cases "?each ended (client1, u1)") (simp_all add: split_def)
        qed
        with ctx2(1,2) False show ?thesis by (intro exI [of _ ctx2]) (simp del: receive_chunks.simps until_five.simps)
      qed
    qed
  qed
qed

section \<open>Tunnelled audio\<close>

lemma htonl_head:
  assumes "n < 2 ^ 24"
  shows "\<exists>ms. htonl (of_nat n) = 0 # ms \<and> length ms = 3"
proof -
  have "unat (of_nat n :: u32) = n" using assms by (simp add: unsigned_of_nat take_bit_nat_eq_self)
  then have "(of_nat n :: u32) < 2 ^ 24" using assms by (simp add: word_less_nat_alt)
  then have "drop_bit 24 (of_nat n :: u32) = 0"
    by (metis drop_bit_eq_div div_word_less)
  then show ?thesis by (simp add: htonl_def)
qed

text \<open>
  The audio decoder on a buffer that starts with the bytes 0, 1 and 0, as one with a tunnelled frame does:
  it takes them for the header, the source and the sequence number.
\<close>

lemma decode_of_tunnel:
  assumes "8 < length (0 # 1 # 0 # rest)"
  shows "mumble_audio_decoder_decode od nb mok dec (0 # 1 # 0 # rest @ junk) (int (length (0 # 1 # 0 # rest))) =
    (let dec = dec\<lparr>ad_packets := ad_packets dec + 1\<rparr> in
     if 0 < ad_sequence dec then ok (1, dec\<lparr>ad_dropped := ad_dropped dec + 1\<rparr>, None)
     else if length rest = 12
     then ok (0, dec, if ad_has_cb dec then Some (empty_packet\<lparr>ap_source := 1,
       ap_position := (float_at rest 0, float_at rest 1, float_at rest 2)\<rparr>) else None)
     else faults Assert_failed)"
proof -
  let ?buf = "0 # 1 # 0 # rest @ junk" and ?len = "int (length (0 # 1 # 0 # rest))"
  have small: "\<not> bit (1 :: u64) 31" "\<not> bit (0 :: u64) 31" by simp_all
  have d1: "varint_decode (1 # xs) sz 0 = ok (1, 1)" if "1 \<le> sz" for xs sz
    using varint_decode_exact [OF small(1), of sz xs 0] that by (simp add: varint_bytes_small)
  have d0: "varint_decode (0 # xs) sz 0 = ok (1, 0)" if "1 \<le> sz" for xs sz
    using varint_decode_exact [OF small(2), of sz xs 0] that by (simp add: varint_bytes_small)
  have peek0: "peek ?buf 0 1 = Inr [0]" by (simp add: peek_def)
  have types: "MUMBLE_AUDIO_TYPE 0 = 0" "MUMBLE_AUDIO_TARGET 0 = 0"
    by (simp_all add: MUMBLE_AUDIO_TYPE_def MUMBLE_AUDIO_TARGET_def)
  have len: "5 < length rest" using assms by simp
  have payload: "decode_payload od nb mok 0 (rest @ junk) (int (length rest)) d audio =
    (if length rest = 12 then ok (d, audio\<lparr>ap_position := (float_at rest 0, float_at rest 1, float_at rest 2)\<rparr>)
     else faults Assert_failed)" for d audio
    using len by (auto simp: decode_payload_def peek_def)
  have same: "ad_sequence dec = 0 \<Longrightarrow> dec\<lparr>ad_packets := n, ad_sequence := 0\<rparr> = dec\<lparr>ad_packets := n\<rparr>" for n
    by (cases dec) simp
  have empty: "empty_packet\<lparr>ap_codec := 0, ap_target := 0, ap_source := v, ap_sequence := 0\<rparr> = empty_packet\<lparr>ap_source := v\<rparr>" for v
    by (simp add: empty_packet_def)
  have zero: "((ucast (w :: u32) :: u64) = 0) = (w = 0)" for w
    using unat_up_ucast [of w] by (metis unsigned_0 unsigned_word_eqI)
  have "8 < ?len" using assms by simp
  then show ?thesis
    using len unfolding mumble_audio_decoder_decode_def Let_def peek0 cbind_simps nth_Cons_0 types
    by (auto simp: d1 d0 payload zero same empty word_gt_0)
qed

lemma fc_mem_data: "wf_frame_ctx ctx \<Longrightarrow> fc_mem ctx = fc_data ctx @ drop (fc_size ctx) (fc_mem ctx)"
  by (simp add: fc_data_def)

lemma tunnel_frame_head:
  assumes "valid_frame (1, p)"
  obtains ms where "frame_bytes (1, p) = 0 # 1 # 0 # ms @ p" "length ms = 3"
proof -
  have "length p < 2 ^ 24" using assms by (simp add: valid_frame_def)
  from htonl_head [OF this] obtain ms where "htonl (of_nat (length p)) = 0 # ms" "length ms = 3" by blast
  then have "frame_bytes (1, p) = 0 # 1 # 0 # ms @ p" by (simp add: frame_bytes_def htons_def)
  with that \<open>length ms = 3\<close> show thesis by blast
qed

lemma tunnel_round:
  assumes "wf_frame_ctx (cl_decoder client)" and "fc_data (cl_decoder client) = frame_bytes (1, p) @ rest"
    and "valid_frame (1, p)"
  defines "dec \<equiv> au_decoder (cl_audio client)" and "n \<equiv> length p + length rest"
  defines "counted \<equiv> dec\<lparr>ad_packets := ad_packets dec + 1\<rparr>"
  obtains ctx position where "wf_frame_ctx ctx" "fc_data ctx = rest"
    "message_round lib clock on_message on_audio (socket, client, u) =
      (if n \<le> 2 then faults Assert_failed
       else if 0 < ad_sequence dec then
         ok (socket, client\<lparr>cl_audio := (cl_audio client)\<lparr>au_decoder := counted\<lparr>ad_dropped := ad_dropped dec + 1\<rparr>\<rparr>,
           cl_decoder := ctx\<rparr>, u)
       else if n \<noteq> 9 then faults Assert_failed
       else cbind (if ad_has_cb dec \<and> au_has_cb (cl_audio client)
           then mumble_on_audio on_audio (empty_packet\<lparr>ap_source := 1, ap_position := position\<rparr>)
             (socket, client\<lparr>cl_audio := (cl_audio client)\<lparr>au_decoder := counted\<rparr>\<rparr>, u)
           else ok (socket, client\<lparr>cl_audio := (cl_audio client)\<lparr>au_decoder := counted\<rparr>\<rparr>, u))
         (\<lambda>(socket, client, u). ok (socket, client\<lparr>cl_decoder := snd (mumble_frame_pop (cl_decoder client))\<rparr>, u)))"
proof -
  let ?ctx = "cl_decoder client"
  obtain ms where ms: "frame_bytes (1, p) = 0 # 1 # 0 # ms @ p" "length ms = 3"
    by (rule tunnel_frame_head [OF assms(3)])
  define m where "m = ms @ p @ rest"
  have data: "fc_data ?ctx = 0 # 1 # 0 # m"
    unfolding assms(2) ms(1) by (simp add: m_def)
  have mem: "fc_mem ?ctx = 0 # 1 # 0 # m @ drop (fc_size ?ctx) (fc_mem ?ctx)"
    using fc_mem_data [OF assms(1)] by (simp add: data)
  have size: "int (fc_size ?ctx) = int (length (0 # 1 # 0 # m))"
    using fc_data_length [OF assms(1)] by (simp add: data)
  have n: "length m = n + 3" by (simp add: n_def m_def ms)
  note d = data_frame [OF assms(3), of rest, folded assms(2)]
  have audio: "mumble_frame_is_audio ?ctx"
    using d(1) by (simp add: mumble_frame_is_audio_def frame_type_data [OF assms(1)])
  have ready: "mumble_frame_ready ?ctx"
    using frame_ready_data [OF assms(1)] d(3) by (simp add: assms(2))
  obtain r ctx where pop: "mumble_frame_pop ?ctx = (r, ctx)" by fastforce
  note popped = frame_pop_data [OF assms(1) ready pop]
  have rest: "fc_data ctx = rest" using popped(2) d(3) by (simp add: assms(2))
  let ?decode = "mumble_audio_decoder_decode (lib_opus_decode lib) (lib_nb_samples lib) (lib_malloc_ok lib) dec
     (fc_mem ?ctx) (int (fc_size ?ctx))"
  have short: "?decode = faults Assert_failed" if "n \<le> 2"
    using that n unfolding size by (simp add: mumble_audio_decoder_decode_def)
  have long: "?decode = (if 0 < ad_sequence dec then ok (1, counted\<lparr>ad_dropped := ad_dropped dec + 1\<rparr>, None)
     else if n = 9
     then ok (0, counted, if ad_has_cb dec then Some (empty_packet\<lparr>ap_source := 1,
       ap_position := (float_at m 0, float_at m 1, float_at m 2)\<rparr>) else None)
     else faults Assert_failed)" if "2 < n"
  proof -
    have "8 < length (0 # 1 # 0 # m)" using that n by simp
    from decode_of_tunnel [OF this, where junk = "drop (fc_size ?ctx) (fc_mem ?ctx)" and dec = dec
        and od = "lib_opus_decode lib" and nb = "lib_nb_samples lib" and mok = "lib_malloc_ok lib", folded size mem]
    show ?thesis using n by (simp add: counted_def Let_def)
  qed
  show thesis
  proof (rule that [OF popped(1) rest])
    show "message_round lib clock on_message on_audio (socket, client, u) =
      (if n \<le> 2 then faults Assert_failed
       else if 0 < ad_sequence dec then
         ok (socket, client\<lparr>cl_audio := (cl_audio client)\<lparr>au_decoder := counted\<lparr>ad_dropped := ad_dropped dec + 1\<rparr>\<rparr>,
           cl_decoder := ctx\<rparr>, u)
       else if n \<noteq> 9 then faults Assert_failed
       else cbind (if ad_has_cb dec \<and> au_has_cb (cl_audio client)
           then mumble_on_audio on_audio (empty_packet\<lparr>ap_source := 1, ap_position :=
                (float_at m 0, float_at m 1, float_at m 2)\<rparr>)
             (socket, client\<lparr>cl_audio := (cl_audio client)\<lparr>au_decoder := counted\<rparr>\<rparr>, u)
           else ok (socket, client\<lparr>cl_audio := (cl_audio client)\<lparr>au_decoder := counted\<rparr>\<rparr>, u))
         (\<lambda>(socket, client, u). ok (socket, client\<lparr>cl_decoder := snd (mumble_frame_pop (cl_decoder client))\<rparr>, u)))"
      using short long audio
      by (auto simp: message_round_def decoder_cb_def pop Let_def simp flip: dec_def)
  qed
qed

section \<open>A loop without end\<close>

lemma message_loop_diverges:
  assumes "\<And>st. st \<in> S \<Longrightarrow> mumble_frame_ready (cl_decoder (fst (snd st)))
      \<and> (\<exists>st' \<in> S. message_round lib clock on_message on_audio st = ok st')"
    and "(st :: ('s, 'd, 'e, 'u) client_state) \<in> S"
  shows "message_loop lib clock on_message on_audio st = never_returns"
proof (rule ccontr)
  assume "message_loop lib clock on_message on_audio st \<noteq> never_returns"
  then obtain y where y: "message_loop lib clock on_message on_audio st = Some y" by blast
  define P where "P = (\<lambda>lib' clock' om oa st (y :: fault + ('s, 'd, 'e, 'u) client_state). lib' = lib \<longrightarrow> clock' = clock \<longrightarrow> om = on_message
    \<longrightarrow> oa = on_audio \<longrightarrow> st \<notin> S)"
  have "P lib clock on_message on_audio st y"
    using y
  proof (rule message_loop.raw_induct [where P = P, rotated])
    fix f lib' clock' om oa st y
    assume IH: "\<And>lib' clock' om oa st y. f lib' clock' om oa st = Some y \<Longrightarrow> P lib' clock' om oa st y"
      and body: "(if mumble_frame_ready (cl_decoder (fst (snd st)))
        then cbind (message_round lib' clock' om oa st) (f lib' clock' om oa) else ok st) = Some y"
    show "P lib' clock' om oa st y"
      unfolding P_def
    proof (intro impI notI)
      assume eq: "lib' = lib" "clock' = clock" "om = on_message" "oa = on_audio" and st: "st \<in> S"
      from assms(1) [OF st] obtain st' where "st' \<in> S" "message_round lib clock on_message on_audio st = ok st'"
        and "mumble_frame_ready (cl_decoder (fst (snd st)))" by blast
      with body eq have "f lib clock on_message on_audio st' = Some y" by simp
      from IH [OF this] \<open>st' \<in> S\<close> show False by (simp add: P_def)
    qed
  qed
  with assms(2) show False by (simp add: P_def)
qed

lemma decode_of_endless:
  assumes "length nine = 9" and "buf = [0, 1, 0xFF, 0xFF, 0xFF, 0xFA] @ nine @ junk"
  shows "\<exists>dec' decoded. mumble_audio_decoder_decode od nb mok dec buf 15 = ok (0, dec', decoded)"
proof -
  have d1: "varint_decode (1 # xs) sz 0 = ok (1, 1)" if "1 \<le> sz" for xs sz
    using varint_decode_exact [of 1 sz xs 0] that by (simp add: varint_bytes_small)
  have d2: "varint_decode (0xFF # xs) sz 0 = ok (1, NOT 3)" if "sz \<noteq> 0" for xs sz
    using that by (subst varint_decode.simps) simp
  have not_late: "\<not> - 4 < (ucast (w :: u32) :: u64)" for w
  proof -
    have "unat w < 2 ^ 32" using unsigned_less [where 'a = nat, of w] by simp
    then have "unat (ucast w :: u64) < unat (- 4 :: u64)" by (simp add: unat_up_ucast)
    then show ?thesis by (simp add: word_less_nat_alt)
  qed
  have types: "MUMBLE_AUDIO_TYPE 0 = 0" by (simp add: MUMBLE_AUDIO_TYPE_def)
  have payload: "decode_payload od nb mok 0 ([0xFF, 0xFF, 0xFA] @ nine @ junk) 12 d audio =
    ok (d, audio\<lparr>ap_position := (float_at ([0xFF, 0xFF, 0xFA] @ nine) 0, float_at ([0xFF, 0xFF, 0xFA] @ nine) 1,
      float_at ([0xFF, 0xFF, 0xFA] @ nine) 2)\<rparr>)" for d audio
    using assms(1) by (simp add: decode_payload_def peek_def)
  have peek0: "peek buf 0 1 = Inr [0]" by (simp add: peek_def assms(2))
  show ?thesis
    using payload unfolding mumble_audio_decoder_decode_def Let_def peek0 cbind_simps nth_Cons_0 assms(2)
    by (simp add: d1 d2 not_late types)
qed

lemma endless_frame_round:
  assumes "wf_frame_ctx (cl_decoder client)"
    and "fc_data (cl_decoder client) = [0, 1, 0xFF, 0xFF, 0xFF, 0xFA] @ nine" and "length nine = 9"
    and "\<And>p socket client u. on_audio p (socket, client, u) = ok (socket, client, g p u)"
  shows "mumble_frame_ready (cl_decoder client)"
    and "\<exists>socket' client' u'. message_round lib clock on_message on_audio (socket, client, u) = ok (socket', client', u')
      \<and> wf_frame_ctx (cl_decoder client') \<and> fc_data (cl_decoder client') = fc_data (cl_decoder client)"
proof -
  let ?ctx = "cl_decoder client" and ?data = "[0, 1, 0xFF, 0xFF, 0xFF, 0xFA] @ nine"
  have size: "data_size ?data = -6" by (simp add: data_size_def ntohl_def assms(3))
  then have total: "data_total ?data = 0" by (simp add: data_total_def)
  have type: "data_type ?data = 1" by (simp add: data_type_def ntohs_def)
  show ready: "mumble_frame_ready ?ctx"
    using frame_ready_data [OF assms(1)] total by (simp add: assms(2))
  have audio: "mumble_frame_is_audio ?ctx"
    using type by (simp add: mumble_frame_is_audio_def frame_type_data [OF assms(1)] assms(2))
  obtain r ctx where pop: "mumble_frame_pop ?ctx = (r, ctx)" by fastforce
  note popped = frame_pop_data [OF assms(1) ready pop]
  have "fc_mem ?ctx = [0, 1, 0xFF, 0xFF, 0xFF, 0xFA] @ nine @ drop (fc_size ?ctx) (fc_mem ?ctx)"
    using fc_mem_data [OF assms(1)] by (simp add: assms(2))
  from decode_of_endless [OF assms(3) this] obtain dec' decoded where
    d: "mumble_audio_decoder_decode (lib_opus_decode lib) (lib_nb_samples lib) (lib_malloc_ok lib)
      (au_decoder (cl_audio client)) (fc_mem ?ctx) 15 = ok (0, dec', decoded)" by blast
  have fs: "int (fc_size ?ctx) = 15" using fc_data_length [OF assms(1)] assms(2,3) by simp
  have "fc_data ctx = fc_data ?ctx" using popped(2) total by (simp add: assms(2))
  then show "\<exists>socket' client' u'. message_round lib clock on_message on_audio (socket, client, u) = ok (socket', client', u')
      \<and> wf_frame_ctx (cl_decoder client') \<and> fc_data (cl_decoder client') = fc_data ?ctx"
    using popped(1) audio
    by (simp add: message_round_def d fs Let_def mumble_on_audio_def assms(4) pop split: option.split)
qed

section \<open>The keys of the UDP channel\<close>

lemma set_keys_eq:
  assumes "wf_ocb ctx" and "length k = 16" and "length e_iv = 16" and "length d_iv = 16"
  shows "ocb_aes_set_keys ctx k e_iv d_iv 16 = Inr \<lparr>key = k, enc_iv = e_iv, dec_iv = d_iv, ivlen = 16, taglen = 96\<rparr>"
  using assms by (simp add: ocb_aes_set_keys_def wf_ocb_def)

lemma crypt_setup_keys:
  assumes "wf_udp (au_udp (cl_audio client))" and "lib_crypt_setup lib msg = (Some k, Some client_nonce, Some server_nonce)"
    and "length k = 16" and "length client_nonce = 16" and "length server_nonce = 16"
  obtains client' where "mumble_message_internal lib clock 15 (Some msg) client = Inr client'"
    "u_cipher (au_udp (cl_audio client')) = \<lparr>key = k, enc_iv = client_nonce, dec_iv = server_nonce, ivlen = 16, taglen = 96\<rparr>"
    "u_pool (au_udp (cl_audio client')) = u_pool (au_udp (cl_audio client))"
    "u_mem (au_udp (cl_audio client')) = u_mem (au_udp (cl_audio client))"
    "u_has_cb (au_udp (cl_audio client')) = u_has_cb (au_udp (cl_audio client))"
    "pg_period_due (au_pinger (cl_audio client')) = Some clock"
proof -
  have "wf_ocb (u_cipher (au_udp (cl_audio client)))" using assms(1) by (simp add: wf_udp_def)
  note set_keys_eq [OF this assms(3-5)]
  then show thesis
    using that assms(2,4) sint_of_nat_small [of 16]
    by (simp add: mumble_message_internal_def mumble_audio_encryption_def uv_udp_ssl_set_encryption_def
        mumble_udp_ping_start_def)
qed

section \<open>Properties\<close>

text \<open>
  C14: What the cut of the TLS stream does: whatever the pieces in which a stream of control messages arrives, every message has
  its effect once and in order (the client's own reaction and the user's callback), as if the messages had come one by one, and no
  byte is left over; unless a piece ends with exactly five bytes of a message, which are taken for a message of the length
  \<open>-1\<close>: then the messages up to there have their effects, and the program reads out of bounds. A message has at most
  \<open>2 ^ 20 - 2 ^ 14\<close> bytes and a piece at most \<open>2 ^ 14\<close>, as those of the TLS socket; the user's callback works on its own state.
\<close>

theorem message_stream_chunks:
  assumes "wf_frame_ctx (cl_decoder client)" and "fc_data (cl_decoder client) = []"
    and "fc_allocated (cl_decoder client) = 2 ^ 20" and "concat chunks = concat (map frame_bytes fs)" and "chunks \<noteq> []"
    and "list_all control_frame fs" and "\<forall>f \<in> set fs. length (frame_bytes f) \<le> 2 ^ 20 - 2 ^ 14"
    and "\<forall>c \<in> set chunks. length c \<le> 2 ^ 14"
    and "\<And>t m socket client u. on_message t m (socket, client, u) = ok (socket, client, h t m u)"
  shows "\<exists>decoder. wf_frame_ctx decoder \<and> fc_data decoder = [] \<and>
    receive_chunks lib clock on_message on_audio chunks (socket, client, u) =
      (case until_five fs [] chunks of
         None \<Rightarrow> cbind (Some (for_each (message_effect lib clock h) fs (client, u)))
           (\<lambda>(client', u'). ok (socket, client'\<lparr>cl_decoder := decoder\<rparr>, u'))
       | Some ended \<Rightarrow> cbind (Some (for_each (message_effect lib clock h) ended (client, u))) (\<lambda>_. faults Out_of_bounds))"
proof -
  have "[] @ concat chunks = concat (map frame_bytes fs)" using assms(4) by simp
  from chunks_deliver [where on_message = on_message and h = h, OF assms(1,2,3) this assms(6-8) _ assms(9)] assms(5)
  show ?thesis by (auto simp: stream_outcome_def)
qed

text \<open>
  C30: Audio that comes through the tunnel is never played: the frame's own header is taken for the packet's,
  so that a tunnelled packet either ends the program with a failed assertion or, once UDP audio has
  been received, is dropped as late, or, when exactly nine bytes of payload and later bytes wait, is handed
  on without samples, with the source 1 and a position made of the payload.
\<close>

theorem tunnelled_audio_is_misread:
  assumes "wf_frame_ctx (cl_decoder client)" and "fc_data (cl_decoder client) = frame_bytes (1, p) @ rest"
    and "valid_frame (1, p)"
  defines "dec \<equiv> au_decoder (cl_audio client)" and "n \<equiv> length p + length rest"
  defines "counted \<equiv> dec\<lparr>ad_packets := ad_packets dec + 1\<rparr>"
  shows "\<exists>ctx position. fc_data ctx = rest \<and> message_round lib clock on_message on_audio (socket, client, u) =
      (if n \<le> 2 then faults Assert_failed
       else if 0 < ad_sequence dec then
         ok (socket, client\<lparr>cl_audio := (cl_audio client)\<lparr>au_decoder := counted\<lparr>ad_dropped := ad_dropped dec + 1\<rparr>\<rparr>,
           cl_decoder := ctx\<rparr>, u)
       else if n \<noteq> 9 then faults Assert_failed
       else cbind (if ad_has_cb dec \<and> au_has_cb (cl_audio client)
           then mumble_on_audio on_audio (empty_packet\<lparr>ap_source := 1, ap_position := position\<rparr>)
             (socket, client\<lparr>cl_audio := (cl_audio client)\<lparr>au_decoder := counted\<rparr>\<rparr>, u)
           else ok (socket, client\<lparr>cl_audio := (cl_audio client)\<lparr>au_decoder := counted\<rparr>\<rparr>, u))
         (\<lambda>(socket, client, u). ok (socket, client\<lparr>cl_decoder := snd (mumble_frame_pop (cl_decoder client))\<rparr>, u)))"
  unfolding dec_def n_def counted_def
  by (rule tunnel_round [OF assms(1-3), where lib = lib and clock = clock and on_message = on_message
        and on_audio = on_audio and socket = socket and u = u]) blast

text \<open>
  C29: A tunnelled frame that claims a length of \<open>2 ^ 32 - 6\<close> hangs the client: with nine bytes behind its header it
  counts as complete, is handed on as audio, and popping it removes nothing, so that the loop never ends,
  whatever the nine bytes and whatever the user's callback does with the audio.
\<close>

theorem endless_frame_hangs:
  fixes socket :: "'s tcp_ssl" and client :: "('d, 'e) mumble_client" and u :: 'u
  assumes "wf_frame_ctx (cl_decoder client)"
    and "fc_data (cl_decoder client) = [0, 1, 0xFF, 0xFF, 0xFF, 0xFA] @ nine" and "length nine = 9"
    and "\<And>p socket client u. on_audio p (socket, client, u) = ok (socket, client, g p u)"
  shows "message_loop lib clock on_message on_audio (socket, client, u) = never_returns"
proof -
  let ?data = "[0, 1, 0xFF, 0xFF, 0xFF, 0xFA] @ nine"
  let ?S = "{st. wf_frame_ctx (cl_decoder (fst (snd st))) \<and> fc_data (cl_decoder (fst (snd st))) = ?data}"
  show ?thesis
  proof (rule message_loop_diverges [where S = ?S])
    fix st :: "('s, 'd, 'e, 'u) client_state"
    assume "st \<in> ?S"
    moreover obtain s c v where st: "st = (s, c, v)" by (cases st) auto
    ultimately have c: "wf_frame_ctx (cl_decoder c)" "fc_data (cl_decoder c) = ?data" by simp_all
    from endless_frame_round(1) [OF c assms(3,4)]
      endless_frame_round(2) [where on_audio = on_audio and g = g and lib = lib and clock = clock and on_message = on_message
        and socket = s and u = v, OF c assms(3,4)]
    show "mumble_frame_ready (cl_decoder (fst (snd st)))
      \<and> (\<exists>st' \<in> ?S. message_round lib clock on_message on_audio st = ok st')"
      unfolding st using c(2) by auto
  qed (use assms in simp)
qed

text \<open>
  C19: The keys a CryptSetup message brings establish the UDP channel: with a server that holds the same key and the
  nonces the other way round the client is connected crosswise, its transport stays well-formed, and the
  first ping is due at once.
\<close>

theorem crypt_setup_links:
  assumes "wf_udp (au_udp (cl_audio client))" and "lib_crypt_setup lib msg = (Some k, Some client_nonce, Some server_nonce)"
    and "length k = 16" and "length client_nonce = 16" and "length server_nonce = 16"
    and "key (u_cipher s) = k" and "enc_iv (u_cipher s) = server_nonce" and "dec_iv (u_cipher s) = client_nonce"
    and "ivlen (u_cipher s) = 16"
  shows "\<exists>client'. mumble_message_internal lib clock 15 (Some msg) client = Inr client'
    \<and> udp_link (au_udp (cl_audio client')) s \<and> udp_link s (au_udp (cl_audio client'))
    \<and> wf_udp (au_udp (cl_audio client')) \<and> (pool_room (au_udp (cl_audio client')) \<longleftrightarrow> pool_room (au_udp (cl_audio client)))
    \<and> pg_period_due (au_pinger (cl_audio client')) = Some clock"
proof (rule crypt_setup_keys [OF assms(1-5)])
  fix client'
  assume c: "mumble_message_internal lib clock 15 (Some msg) client = Inr client'"
    "u_cipher (au_udp (cl_audio client')) = \<lparr>key = k, enc_iv = client_nonce, dec_iv = server_nonce, ivlen = 16, taglen = 96\<rparr>"
    "u_pool (au_udp (cl_audio client')) = u_pool (au_udp (cl_audio client))"
    "u_mem (au_udp (cl_audio client')) = u_mem (au_udp (cl_audio client))"
    "u_has_cb (au_udp (cl_audio client')) = u_has_cb (au_udp (cl_audio client))"
    "pg_period_due (au_pinger (cl_audio client')) = Some clock"
  then show ?thesis
    using assms by (intro exI [of _ client']) (simp add: udp_link_def wf_udp_def wf_ocb_def pool_room_def)
qed

text \<open>
  C20: What the client writes is what the control channel carries: a message of the protocol that fits the
  encoder's buffer reaches TLS as exactly one frame with its type and its packed bytes; any other message
  fails an assertion before a byte is written.
\<close>

theorem client_writes_frames:
  assumes "wf_frame_ctx (cl_encoder client)"
  shows "if pb_package msg = ''MumbleProto'' \<and> pb_name msg \<in> set descriptor_names
      \<and> 6 + length (pb_packed msg) \<le> fc_allocated (cl_encoder client)
    then \<exists>i encoder. i < 26 \<and> pb_name msg = descriptor_names ! i \<and> wf_frame_ctx encoder \<and>
      mumble_client_write lib msg socket client =
        rbind (mumble_uv_ssl_write (lib_ssl lib) (lib_try_write lib) (frame_bytes (i, pb_packed msg)) socket)
          (\<lambda>socket'. Inr (socket', client\<lparr>cl_encoder := encoder\<rparr>))
    else mumble_client_write lib msg socket client = Inl Assert_failed"
proof (cases "pb_package msg = ''MumbleProto'' \<and> pb_name msg \<in> set descriptor_names
      \<and> 6 + length (pb_packed msg) \<le> fc_allocated (cl_encoder client)")
  case True
  with encode_cases [OF assms, of msg] obtain i encoder where e: "i < 26" "pb_name msg = descriptor_names ! i"
    "mumble_frame_encode (cl_encoder client) msg = Inr encoder" "wf_frame_ctx encoder"
    "fc_data encoder = frame_bytes (i, pb_packed msg)" by auto
  have "fc_size encoder \<le> length (fc_mem encoder)"
    using e(4) fc_mem_length [OF e(4)] by (simp add: wf_frame_ctx_def)
  then have "peek (fc_mem encoder) 0 (fc_size encoder) = Inr (frame_bytes (i, pb_packed msg))"
    using e(5) by (simp add: fc_data_def)
  then have "mumble_client_write lib msg socket client =
        rbind (mumble_uv_ssl_write (lib_ssl lib) (lib_try_write lib) (frame_bytes (i, pb_packed msg)) socket)
          (\<lambda>socket'. Inr (socket', client\<lparr>cl_encoder := encoder\<rparr>))"
    by (simp add: mumble_client_write_def e(3))
  with True e(1,2,4) show ?thesis by auto
next
  case False
  then have "mumble_frame_encode (cl_encoder client) msg = Inl Assert_failed"
    using encode_cases [OF assms, of msg] by (auto split: if_splits)
  with False show ?thesis by (auto simp: mumble_client_write_def)
qed

section \<open>Examples\<close>

definition example_lib :: "(bytes list, unit, unit, bytes) libs" where
  "example_lib = \<lparr>lib_aes = example_cipher, lib_try_send = (\<lambda>_. 1), lib_ssl = example_ssl,
     lib_try_write = (\<lambda>r. int (length r)), lib_opus_encode = example_opus_encode, lib_opus_decode = example_samples,
     lib_nb_samples = (\<lambda>_. 480), lib_malloc_ok = (\<lambda>_. True), lib_unpack = (\<lambda>t p. Some p),
     lib_crypt_setup = (\<lambda>m. (Some (key example_ocb), Some (dec_iv example_ocb), Some (enc_iv example_ocb))),
     lib_version_msg = (\<lambda>has v. \<lparr>pb_package = ''MumbleProto'', pb_name = ''MumbleProto.Version'', pb_packed = []\<rparr>),
     lib_authenticate_msg = (\<lambda>name has opus. \<lparr>pb_package = ''MumbleProto'', pb_name = ''MumbleProto.Authenticate'',
       pb_packed = []\<rparr>),
     lib_ping_msg = (\<lambda>has t. \<lparr>pb_package = ''MumbleProto'', pb_name = ''MumbleProto.Ping'', pb_packed = []\<rparr>),
     lib_garbage = (0, 0, 0)\<rparr>"

definition example_frames :: "bytes \<Rightarrow> frame_ctx" where
  "example_frames ds = \<lparr>fc_buffer = Some (ds @ replicate (2 ^ 20 - length ds) 0), fc_allocated = 2 ^ 20, fc_size = length ds\<rparr>"

lemma example_frames_ok:
  "length ds \<le> 2 ^ 20 \<Longrightarrow> wf_frame_ctx (example_frames ds)" "fc_data (example_frames ds) = ds"
  "fc_allocated (example_frames ds) = 2 ^ 20"
  by (simp_all add: example_frames_def wf_frame_ctx_def fc_data_def fc_mem_def)

definition example_client :: "u32 \<Rightarrow> bytes \<Rightarrow> (unit, unit) mumble_client" where
  "example_client sequence ds = \<lparr>cl_hostname = ''localhost'', cl_port = 64738, cl_nick = [], cl_ping_timer = None,
     cl_audio = (example_audio False)\<lparr>au_decoder := example_decoder sequence\<rparr>, cl_has_on_message = True,
     cl_has_on_audio = True, cl_decoder = example_frames ds, cl_encoder = example_frames [], cl_datagrams = []\<rparr>"

theorem message_stream_chunks_witness:
  "\<exists>decoder. fc_data decoder = [] \<and>
    receive_chunks example_lib 0 (\<lambda>t m (s, c, u). ok (s, c, u @ [t])) (\<lambda>p st. ok st)
      [[0, 3, 0], [0, 0, 2, 8, 1, 0, 0], [0, 0, 0, 0]] (example_socket [], example_client 0 [], [])
    = ok (example_socket [], (example_client 0 [])\<lparr>cl_decoder := decoder\<rparr>, [3, 0])"
proof -
  let ?fs = "[(3, [8, 1]), (0, [])] :: (nat \<times> bytes) list"
  let ?cs = "[[0, 3, 0], [0, 0, 2, 8, 1, 0, 0], [0, 0, 0, 0]] :: bytes list" and ?h = "\<lambda>t m u. u @ [t]"
  let ?om = "\<lambda>t m (s, c, u). ok (s, c, u @ [t])" and ?client = "example_client 0 []"
  have fs: "frame_bytes (3, [8, 1]) = [0, 3, 0, 0, 0, 2, 8, 1]" "frame_bytes (0, []) = [0, 0, 0, 0, 0, 0]"
    by (simp_all add: frame_bytes_def htons_def htonl_def)
  have c: "cl_decoder ?client = example_frames []" by (simp add: example_client_def)
  have effects: "for_each (message_effect example_lib 0 ?h) ?fs (?client, []) = Inr (?client, [3, 0])"
    by (simp add: message_effect_def mumble_message_internal_def example_client_def)
  have ok: "list_all control_frame ?fs" "\<forall>f \<in> set ?fs. length (frame_bytes f) \<le> 2 ^ 20 - 2 ^ 14"
    "\<forall>c \<in> set ?cs. length c \<le> 2 ^ 14" "until_five ?fs [] ?cs = None" "concat ?cs = concat (map frame_bytes ?fs)"
    by (simp_all add: control_frame_def valid_frame_def fs)
  have "\<exists>decoder. wf_frame_ctx decoder \<and> fc_data decoder = [] \<and>
    receive_chunks example_lib 0 ?om (\<lambda>p st. ok st) ?cs (example_socket [], ?client, []) =
      (case until_five ?fs [] ?cs of
         None \<Rightarrow> cbind (Some (for_each (message_effect example_lib 0 ?h) ?fs (?client, [])))
           (\<lambda>(client', u'). ok (example_socket [], client'\<lparr>cl_decoder := decoder\<rparr>, u'))
       | Some ended \<Rightarrow> cbind (Some (for_each (message_effect example_lib 0 ?h) ended (?client, []))) (\<lambda>_. faults Out_of_bounds))"
    by (rule message_stream_chunks [OF _ _ _ ok(5) _ ok(1-3)]) (simp_all add: c example_frames_ok)
  then show ?thesis unfolding ok(4) effects by auto
qed

theorem tunnelled_audio_is_misread_witness:
  "message_round example_lib 0 (\<lambda>t m st. ok st) (\<lambda>p st. ok st)
     (example_socket [], example_client 0 (frame_bytes (1, example_relayed 4) @ [7]), ()) = faults Assert_failed"
proof -
  let ?p = "example_relayed 4" and ?client = "example_client 0 (frame_bytes (1, example_relayed 4) @ [7])"
  have len: "length ?p = 9" by (simp add: example_relayed_eq)
  have c: "cl_decoder ?client = example_frames (frame_bytes (1, ?p) @ [7])" "ad_sequence (au_decoder (cl_audio ?client)) = 0"
    by (simp_all add: example_client_def example_decoder_def)
  have "wf_frame_ctx (cl_decoder ?client)" "fc_data (cl_decoder ?client) = frame_bytes (1, ?p) @ [7]" "valid_frame (1, ?p)"
    unfolding c using len by (simp_all add: example_frames_ok valid_frame_def)
  from tunnelled_audio_is_misread [OF this, of example_lib 0 "\<lambda>t m st. ok st" "\<lambda>p st. ok st" "example_socket []" "()"]
  show ?thesis using len c(2) by simp
qed

theorem endless_frame_hangs_witness:
  "message_loop example_lib 0 (\<lambda>t m st. ok st) (\<lambda>p st. ok st)
     (example_socket [], example_client 0 ([0, 1, 0xFF, 0xFF, 0xFF, 0xFA] @ replicate 9 7), ()) = never_returns"
  by (rule endless_frame_hangs [where g = "\<lambda>p u. u" and nine = "replicate 9 7"])
    (simp_all add: example_client_def example_frames_ok)

theorem crypt_setup_links_witness:
  "\<exists>client'. mumble_message_internal example_lib 0 15 (Some [1]) (example_client 0 []) = Inr client'
    \<and> udp_link (au_udp (cl_audio client')) example_udp \<and> udp_link example_udp (au_udp (cl_audio client'))"
proof -
  have "au_udp (cl_audio (example_client 0 [])) = example_udp" by (simp add: example_client_def example_audio_def)
  then show ?thesis
    using crypt_setup_links [of "example_client 0 []" example_lib "[1]" "key example_ocb" "dec_iv example_ocb" "enc_iv example_ocb"
        example_udp 0] example_udp_ok(1)
    by (auto simp: example_lib_def example_udp_def)
qed

theorem client_writes_frames_witness:
  "\<exists>encoder. mumble_client_write example_lib \<lparr>pb_package = ''MumbleProto'', pb_name = ''MumbleProto.Ping'', pb_packed = [8, 1]\<rparr>
     (example_socket []) (example_client 0 []) =
     Inr (example_socket []\<lparr>ts_sent := [[0, 3, 0], [0, 0, 2, 8, 1]]\<rparr>, (example_client 0 [])\<lparr>cl_encoder := encoder\<rparr>)"
proof -
  let ?msg = "\<lparr>pb_package = ''MumbleProto'', pb_name = ''MumbleProto.Ping'', pb_packed = [8, 1]\<rparr>"
  have e: "cl_encoder (example_client 0 []) = example_frames []" by (simp add: example_client_def)
  have name: "''MumbleProto.Ping'' = descriptor_names ! 3" by (simp add: descriptor_names_def numeral_3_eq_3)
  obtain i encoder where "i < 26" "''MumbleProto.Ping'' = descriptor_names ! i"
    "mumble_client_write example_lib ?msg (example_socket []) (example_client 0 []) =
        rbind (mumble_uv_ssl_write (lib_ssl example_lib) (lib_try_write example_lib) (frame_bytes (i, [8, 1])) (example_socket []))
          (\<lambda>socket'. Inr (socket', (example_client 0 [])\<lparr>cl_encoder := encoder\<rparr>))"
    using client_writes_frames [of "example_client 0 []" ?msg example_lib "example_socket []"]
    by (auto simp: e example_frames_ok name)
  moreover from this(1,2) have "i = 3"
    using name descriptor_names_distinct by (simp add: nth_eq_iff_index_eq)
  moreover have "frame_bytes (3, [8, 1]) = [0, 3, 0, 0, 0, 2, 8, 1]"
    by (simp add: frame_bytes_def htons_def htonl_def)
  moreover have "mumble_uv_ssl_write example_ssl (\<lambda>r. int (length r)) [0, 3, 0, 0, 0, 2, 8, 1] (example_socket [])
      = Inr (example_socket []\<lparr>ts_sent := [[0, 3, 0], [0, 0, 2, 8, 1]]\<rparr>)"
    using example_tls_write [of "[0, 3, 0, 0, 0, 2, 8, 1]"] by simp
  ultimately show ?thesis by (auto simp: example_lib_def)
qed

end
