(* ===== verification/Client_Stream.thy ===== *)
theory Client_Stream imports Mumble_Client begin

text \<open>
  From the network to the user: the TLS transport and the client's message loop put together, for a user whose callbacks do not
  write to the socket.
\<close>

section \<open>The message loop does not look at the socket\<close>

definition same_socket :: "'s tcp_ssl \<Rightarrow> ('s tcp_ssl \<times> 'c) comp \<Rightarrow> ('s tcp_ssl \<times> 'c) comp" where
  "same_socket socket r = cbind r (\<lambda>(s, c). ok (socket, c))"

lemma same_socket_simps [simp]:
  "same_socket socket (ok (s, c)) = ok (socket, c)" "same_socket socket (faults e) = faults e" "same_socket socket None = None"
  by (simp_all add: same_socket_def)

lemma same_socket_cbind:
  "same_socket socket (cbind r f) = cbind r (\<lambda>x. same_socket socket (f x))"
  by (simp add: same_socket_def cbind_assoc)

text \<open>A user whose callbacks work on their own state only.\<close>

definition own_state ::
    "('s, 'd, 'e, 'm, 'u) message_cb \<Rightarrow> ('s, 'd, 'e, 'u) audio_cb \<Rightarrow> (int \<Rightarrow> 'm option \<Rightarrow> 'u \<Rightarrow> 'u) \<Rightarrow> (audio_packet \<Rightarrow> 'u \<Rightarrow> 'u)
      \<Rightarrow> bool" where
  "own_state on_message on_audio h g \<longleftrightarrow>
     on_message = (\<lambda>t m (socket, client, u). ok (socket, client, h t m u))
     \<and> on_audio = (\<lambda>p (socket, client, u). ok (socket, client, g p u))"

lemma round_natural:
  assumes "own_state on_message on_audio h g"
  shows "message_round lib clock on_message on_audio (socket, c) = same_socket socket (message_round lib clock on_message on_audio (s, c))"
proof (cases c)
  case (Pair client u)
  show ?thesis
    using assms
    by (auto simp: own_state_def Pair message_round_def same_socket_cbind mumble_on_audio_def Let_def
        split: option.splits if_splits intro!: arg_cong [where f = "cbind _"] ext)
qed

lemma loop_natural_some:
  fixes lib :: "('s, 'd, 'e, 'm) libs" and s :: "'s tcp_ssl" and on_audio :: "('s, 'd, 'e, 'u) audio_cb"
  assumes "own_state on_message on_audio h g"
    and "message_loop lib clock on_message on_audio (s, c) = Some y"
  shows "message_loop lib clock on_message on_audio (socket, c) = same_socket socket (Some y)"
proof -
  define P where "P = (\<lambda>lib' clock' om (oa :: ('s, 'd, 'e, 'u) audio_cb) (st :: ('s, 'd, 'e, 'u) client_state) y.
    lib' = lib \<longrightarrow> clock' = clock \<longrightarrow> om = on_message \<longrightarrow> oa = on_audio
    \<longrightarrow> message_loop lib clock on_message on_audio (socket, snd st) = same_socket socket (Some y))"
  have "P lib clock on_message on_audio (s, c) y"
    using assms(2)
  proof (rule message_loop.raw_induct [where P = P, rotated])
    fix f lib' clock' om oa st y
    assume IH: "\<And>lib clock om oa st y. f lib clock om oa st = Some y \<Longrightarrow> P lib clock om oa st y"
      and body: "(if mumble_frame_ready (cl_decoder (fst (snd st)))
        then cbind (message_round lib' clock' om oa st) (f lib' clock' om oa) else ok st) = Some y"
    show "P lib' clock' om oa st y"
      unfolding P_def
    proof (intro impI)
      assume eq: "lib' = lib" "clock' = clock" "om = on_message" "oa = on_audio"
      obtain s1 c1 where st: "st = (s1, c1)" by (cases st)
      let ?loop = "message_loop lib clock on_message on_audio"
      note round = round_natural [OF assms(1), of lib clock socket c1 s1]
      show "?loop (socket, snd st) = same_socket socket (Some y)"
      proof (cases "mumble_frame_ready (cl_decoder (fst (snd st)))")
        case True
        with body have run: "cbind (message_round lib clock on_message on_audio (s1, c1)) (f lib clock on_message on_audio) = Some y"
          by (simp add: eq st)
        have loop: "?loop (socket, c1) = cbind (message_round lib clock on_message on_audio (socket, c1)) ?loop"
          using True by (subst message_loop.simps) (simp add: st)
        show ?thesis
        proof (cases "message_round lib clock on_message on_audio (s1, c1)")
          case (Some r)
          show ?thesis
          proof (cases r)
            case (Inr st2)
            obtain s2 c2 where st2: "st2 = (s2, c2)" by (cases st2)
            have "f lib clock on_message on_audio (s2, c2) = Some y" using run Some Inr st2 by simp
            from IH [OF this] have "?loop (socket, c2) = same_socket socket (Some y)" by (simp add: P_def)
            then show ?thesis using loop round Some Inr st2 by (simp add: st)
          next
            case (Inl e)
            then have y: "y = Inl e" using run Some by simp
            show ?thesis using loop round Some Inl by (simp add: st y)
          qed
        qed (use run in simp)
      next
        case False
        then show ?thesis using body by (subst message_loop.simps) (auto simp: st)
      qed
    qed
  qed
  then show ?thesis by (simp add: P_def)
qed

lemma loop_natural:
  assumes "own_state on_message on_audio h g"
  shows "message_loop lib clock on_message on_audio (socket, c) = same_socket socket (message_loop lib clock on_message on_audio (s, c))"
proof (cases "message_loop lib clock on_message on_audio (s, c)")
  case None
  then have "message_loop lib clock on_message on_audio (socket, c) = None"
    using loop_natural_some [OF assms, of lib clock socket c _ s]
    by (cases "message_loop lib clock on_message on_audio (socket, c)") (auto simp: same_socket_def cbind_None_iff)
  then show ?thesis by (simp add: None)
next
  case (Some y)
  then show ?thesis using loop_natural_some [OF assms Some] by simp
qed

lemma adapter_natural:
  assumes "own_state on_message on_audio h g"
  shows "mumble_message_cb_adapter lib clock on_message on_audio buf (socket, c)
    = same_socket socket (mumble_message_cb_adapter lib clock on_message on_audio buf (s, c))"
  using loop_natural [OF assms, of lib clock socket _ s]
  by (cases c) (auto simp: mumble_message_cb_adapter_def same_socket_cbind split_beta intro!: arg_cong [where f = "cbind _"] ext)

lemma chunks_natural:
  assumes "own_state on_message on_audio h g"
  shows "receive_chunks lib clock on_message on_audio chunks (socket, c)
    = same_socket socket (receive_chunks lib clock on_message on_audio chunks (s, c))"
proof (induction chunks arbitrary: c s)
  case (Cons x xs)
  let ?a = "mumble_message_cb_adapter lib clock on_message on_audio x"
  have "receive_chunks lib clock on_message on_audio (x # xs) (socket, c)
    = cbind (same_socket socket (?a (s, c))) (receive_chunks lib clock on_message on_audio xs)"
    by (simp add: adapter_natural [OF assms, of lib clock x socket c s])
  also have "\<dots> = cbind (?a (s, c)) (\<lambda>(s1, c1). receive_chunks lib clock on_message on_audio xs (socket, c1))"
    by (simp add: same_socket_def cbind_assoc split_def)
  also have "\<dots> = cbind (?a (s, c)) (\<lambda>(s1, c1). same_socket socket (receive_chunks lib clock on_message on_audio xs (s1, c1)))"
    using Cons.IH by (intro arg_cong [where f = "cbind _"] ext) (auto simp: split_def)
  finally show ?case by (simp add: same_socket_cbind split_def)
qed simp

section \<open>What the socket hands to the client\<close>

text \<open>What the adapter does to the client and its user; the socket it is given does not matter.\<close>

definition adapter_effect ::
    "('s, 'd, 'e, 'm) libs \<Rightarrow> nat \<Rightarrow> ('s, 'd, 'e, 'm, 'u) message_cb \<Rightarrow> ('s, 'd, 'e, 'u) audio_cb \<Rightarrow> 's tcp_ssl
      \<Rightarrow> bytes \<Rightarrow> ('d, 'e) mumble_client \<times> 'u \<Rightarrow> (('d, 'e) mumble_client \<times> 'u) comp" where
  "adapter_effect lib clock on_message on_audio s data c =
     cbind (mumble_message_cb_adapter lib clock on_message on_audio data (s, c)) (\<lambda>(s, c). ok c)"

lemma adapter_effect_adapter:
  assumes "own_state on_message on_audio h g"
  shows "mumble_message_cb_adapter lib clock on_message on_audio data (socket, c)
    = cbind (adapter_effect lib clock on_message on_audio s data c) (\<lambda>c. ok (socket, c))"
  using adapter_natural [OF assms, of lib clock data socket c s]
  by (simp add: adapter_effect_def same_socket_def cbind_assoc split_def)

lemma deliver_all_chunks:
  assumes "own_state on_message on_audio h g"
  shows "cbind (deliver_all (adapter_effect lib clock on_message on_audio s) chunks c) (\<lambda>c. ok (socket, c))
    = receive_chunks lib clock on_message on_audio chunks (socket, c)"
proof (induction chunks arbitrary: c)
  case (Cons x xs)
  have "receive_chunks lib clock on_message on_audio (x # xs) (socket, c)
    = cbind (adapter_effect lib clock on_message on_audio s x c) (\<lambda>c. receive_chunks lib clock on_message on_audio xs (socket, c))"
    using adapter_effect_adapter [OF assms, of lib clock x socket c s] by (simp add: cbind_assoc)
  then show ?case using Cons.IH by (simp add: cbind_assoc)
qed simp

section \<open>A run of network reads\<close>

text \<open>
  Once the handshake is over OpenSSL takes all the ciphertext of a read and yields the plaintext of it, in pieces;
  \<open>reads\<close> and \<open>chunks\<close> need not match, a record may be spread over many reads.
\<close>

inductive tls_stream :: "'s openssl \<Rightarrow> nat \<Rightarrow> 's \<Rightarrow> bytes list \<Rightarrow> bytes list \<Rightarrow> 's \<Rightarrow> bool" for ssl n where
  quiet: "tls_stream ssl n s [] [] s"
| arrival: "bio_write ssl s data = (int (length data), s1) \<Longrightarrow> data \<noteq> [] \<Longrightarrow> \<not> ssl_in_init ssl s1 \<Longrightarrow> ssl_is_init_finished ssl s1
    \<Longrightarrow> ssl_yields ssl n s1 chunks s2 \<Longrightarrow> tls_stream ssl n s2 reads rest s3
    \<Longrightarrow> tls_stream ssl n s (data # reads) (chunks @ rest) s3"

text \<open>Room for the buffer of the read and the buffer of the plaintext.\<close>

definition read_room :: "'s tcp_ssl \<Rightarrow> bool" where
  "read_room socket \<longleftrightarrow> wf_pool (ts_pool socket) \<and> card (held (ts_pool socket)) + 2 \<le> p_count (ts_pool socket)"

lemma deliver_all_append:
  "deliver_all f (xs @ ys) = (\<lambda>c. cbind (deliver_all f xs c) (deliver_all f ys))"
  by (induction xs) (simp_all add: cbind_assoc)

lemma receive_delivers:
  assumes "read_room socket" and "ts_has_cb socket" and "ts_creq socket = Some has_cb"
    and "bio_write ssl (ts_ssl socket) data = (int (length data), s1)" and "data \<noteq> []"
    and "\<not> ssl_in_init ssl s1" and "ssl_is_init_finished ssl s1"
    and "ssl_yields ssl (p_size (ts_pool socket)) s1 chunks s2"
    and "\<And>data socket c. cb data (socket, c) = cbind (f data c) (\<lambda>c'. ok (socket, c'))"
  shows "tcp_receive ssl try_write cb connect_cb (int (length data), data) (socket, c)
    = cbind (deliver_all f chunks c) (\<lambda>c'. ok (socket\<lparr>ts_ssl := s2\<rparr>, c'))"
proof -
  have room: "tcp_room socket" using assms(1) by (simp add: read_room_def tcp_room_def)
  obtain a pool' where a: "buffer_pool_acquire (ts_pool socket) = (Some a, pool')"
    "buffer_pool_release pool' a = Inr (ts_pool socket)" "p_size pool' = p_size (ts_pool socket)" "wf_pool pool'"
    "card (held pool') = Suc (card (held (ts_pool socket)))" "p_count pool' = p_count (ts_pool socket)"
    by (rule tcp_borrow [OF room])
  let ?s = "socket\<lparr>ts_pool := pool', ts_ssl := s1\<rparr>"
  have "tcp_room ?s" using a assms(1) by (simp add: tcp_room_def read_room_def)
  from read_delivers [where f = f and cb = cb and try_write = try_write and c = c and socket = ?s, OF assms(8) _ _ this _ assms(9)]
  have "uv_ssl_read ssl try_write cb (?s, c) = cbind (deliver_all f chunks c) (\<lambda>c'. ok (?s\<lparr>ts_ssl := s2\<rparr>, c'))"
    using a assms(2) by simp
  with assms(3-7) a show ?thesis
    by (simp add: tcp_receive_def default_alloc_cb_def uv_ssl_read_cb_def uv_ssl_rbio_cb_def cbind_assoc)
qed

lemma reads_deliver:
  assumes "tls_stream ssl n s0 reads chunks s" and "ts_ssl socket = s0" and "n = p_size (ts_pool socket)"
    and "read_room socket" and "ts_has_cb socket" and "ts_creq socket = Some has_cb"
    and "\<And>data socket c. cb data (socket, c) = cbind (f data c) (\<lambda>c'. ok (socket, c'))"
  shows "tcp_reads ssl try_write cb connect_cb (map (\<lambda>d. (int (length d), d)) reads) (socket, c)
    = cbind (deliver_all f chunks c) (\<lambda>c'. ok (socket\<lparr>ts_ssl := s\<rparr>, c'))"
  using assms(1-6)
proof (induction arbitrary: socket c rule: tls_stream.induct)
  case (arrival s data s1 chunks s2 reads rest s3)
  let ?socket = "socket\<lparr>ts_ssl := s2\<rparr>"
  have "read_room ?socket" using arrival.prems(3) by (simp add: read_room_def)
  then have later: "tcp_reads ssl try_write cb connect_cb (map (\<lambda>d. (int (length d), d)) reads) (?socket, c')
      = cbind (deliver_all f rest c') (\<lambda>c'. ok (socket\<lparr>ts_ssl := s3\<rparr>, c'))" for c'
    using arrival.IH [of ?socket c'] arrival.prems by simp
  have "tcp_receive ssl try_write cb connect_cb (int (length data), data) (socket, c)
    = cbind (deliver_all f chunks c) (\<lambda>c'. ok (?socket, c'))"
    using receive_delivers [where f = f and cb = cb, OF arrival.prems(3-5) _ arrival(2-4) _ assms(7)] arrival.hyps(1,5) arrival.prems(1,2)
    by simp
  then show ?case by (simp add: later deliver_all_append cbind_assoc)
qed simp

section \<open>Property\<close>

text \<open>
  C1: From the network to the user: however the network cuts the ciphertext of a stream of control messages into reads,
  and however OpenSSL cuts their plaintext into pieces, every message has its effect exactly once and in order (the client's
  own reaction and the user's callback), nothing is left over in the decoder, the socket's buffers are all given back, and
  the program stops exactly where a message's own effect does; unless a piece ends with exactly five bytes of a message, of
  which the messages before have their effects and then the program reads out of bounds. A message has at most \<open>2 ^ 20 - 2 ^ 14\<close>
  bytes and a piece at most \<open>2 ^ 14\<close>; the handshake is over, and the user's callbacks work on their own state.
\<close>

theorem network_delivers_messages:
  assumes "tls_stream (lib_ssl lib) (p_size (ts_pool socket)) (ts_ssl socket) reads chunks s"
    and "read_room socket" and "ts_has_cb socket" and "ts_creq socket = Some has_cb"
    and "wf_frame_ctx (cl_decoder client)" and "fc_data (cl_decoder client) = []" and "fc_allocated (cl_decoder client) = 2 ^ 20"
    and "concat chunks = concat (map frame_bytes fs)"
    and "list_all control_frame fs" and "\<forall>f \<in> set fs. length (frame_bytes f) \<le> 2 ^ 20 - 2 ^ 14"
    and "\<forall>c \<in> set chunks. length c \<le> 2 ^ 14"
    and "own_state on_message on_audio h g"
  shows "\<exists>decoder. wf_frame_ctx decoder \<and> fc_data decoder = [] \<and>
    tcp_reads (lib_ssl lib) (lib_try_write lib) (mumble_message_cb_adapter lib clock on_message on_audio) connect_cb
      (map (\<lambda>d. (int (length d), d)) reads) (socket, client, u) =
    (case until_five fs [] chunks of
       None \<Rightarrow> cbind (Some (for_each (message_effect lib clock h) fs (client, u)))
         (\<lambda>(client', u'). ok (socket\<lparr>ts_ssl := s\<rparr>, client'\<lparr>cl_decoder := decoder\<rparr>, u'))
     | Some ended \<Rightarrow> cbind (Some (for_each (message_effect lib clock h) ended (client, u))) (\<lambda>_. faults Out_of_bounds))"
proof -
  let ?adapter = "mumble_message_cb_adapter lib clock on_message on_audio" and ?socket = "socket\<lparr>ts_ssl := s\<rparr>"
  note user = assms(12)
  have reads: "tcp_reads (lib_ssl lib) (lib_try_write lib) ?adapter connect_cb (map (\<lambda>d. (int (length d), d)) reads) (socket, client, u)
    = receive_chunks lib clock on_message on_audio chunks (?socket, client, u)"
    using reads_deliver [where cb = ?adapter and f = "adapter_effect lib clock on_message on_audio socket",
        OF assms(1) refl refl assms(2-4) adapter_effect_adapter [OF user]]
    by (simp add: deliver_all_chunks [OF user])
  have "[] @ concat chunks = concat (map frame_bytes fs)" using assms(8) by simp
  note chunks = chunks_deliver [where on_message = on_message and h = h and on_audio = on_audio and lib = lib and clock = clock
      and u = u and socket = ?socket, OF assms(5-7) this assms(9-11)]
  show ?thesis
  proof (cases "chunks = []")
    case True
    moreover from this assms(8) have "fs = []" by (cases fs) (auto simp: frame_bytes_def htons_def)
    ultimately show ?thesis unfolding reads using assms(5,6) by (intro exI [of _ "cl_decoder client"]) simp
  next
    case False
    with chunks user show ?thesis unfolding reads by (auto simp: own_state_def stream_outcome_def)
  qed
qed

section \<open>Example\<close>

text \<open>Two messages, in three reads and as many pieces of plaintext, into a list of the types of the messages.\<close>

theorem network_delivers_messages_witness:
  "\<exists>decoder. fc_data decoder = [] \<and>
    tcp_reads example_ssl (\<lambda>r. int (length r))
      (mumble_message_cb_adapter example_lib 0 (\<lambda>t m (s, c, u). ok (s, c, u @ [t])) (\<lambda>p (s, c, u). ok (s, c, u))) (\<lambda>status st. ok st)
      (map (\<lambda>d. (int (length d), d)) [[0, 3, 0], [0, 0, 2, 8, 1, 0, 0], [0, 0, 0, 0]]) (example_socket [], example_client 0 [], [])
    = ok (example_socket [], (example_client 0 [])\<lparr>cl_decoder := decoder\<rparr>, [3, 0])"
proof -
  let ?fs = "[(3, [8, 1]), (0, [])] :: (nat \<times> bytes) list"
  let ?cs = "[[0, 3, 0], [0, 0, 2, 8, 1, 0, 0], [0, 0, 0, 0]] :: bytes list" and ?h = "\<lambda>t (m :: bytes option) u. u @ [t]"
  let ?client = "example_client 0 []" and ?socket = "example_socket []"
  have yields: "ssl_yields example_ssl n [d] [d] []" if "d \<noteq> []" for d :: bytes and n
  proof (rule ssl_yields.more)
    show "ssl_yields example_ssl n [] [] []"
      by (rule ssl_yields.stop [where ret = "-1" and out = "[]"]) (simp_all add: example_ssl_def)
  qed (use that in \<open>simp_all add: example_ssl_def\<close>)
  have "tls_stream example_ssl n [] ds ds []" if "[] \<notin> set ds" for ds :: "bytes list" and n
    using that
  proof (induction ds)
    case (Cons d ds)
    then have "d \<noteq> []" "tls_stream example_ssl n [] ds ds []" by auto
    from tls_stream.arrival [OF _ this(1) _ _ yields [OF this(1)] this(2), of "[]"] show ?case by (simp add: example_ssl_def)
  qed (simp add: tls_stream.quiet)
  from this [of ?cs] have stream: "tls_stream (lib_ssl example_lib) (p_size (ts_pool ?socket)) (ts_ssl ?socket) ?cs ?cs []"
    by (simp add: example_lib_def example_socket_def)
  have fs: "frame_bytes (3, [8, 1]) = [0, 3, 0, 0, 0, 2, 8, 1]" "frame_bytes (0, []) = [0, 0, 0, 0, 0, 0]"
    by (simp_all add: frame_bytes_def htons_def htonl_def)
  have c: "cl_decoder ?client = example_frames []" by (simp add: example_client_def)
  have room: "read_room ?socket" "ts_has_cb ?socket" "ts_creq ?socket = Some True"
    by (simp_all add: read_room_def example_socket_def wf_pool_def held_def)
  have effects: "for_each (message_effect example_lib 0 ?h) ?fs (?client, []) = Inr (?client, [3, 0])"
    by (simp add: message_effect_def mumble_message_internal_def example_client_def)
  have ok: "list_all control_frame ?fs" "\<forall>f \<in> set ?fs. length (frame_bytes f) \<le> 2 ^ 20 - 2 ^ 14"
    "\<forall>c \<in> set ?cs. length c \<le> 2 ^ 14" "until_five ?fs [] ?cs = None" "concat ?cs = concat (map frame_bytes ?fs)"
    by (simp_all add: control_frame_def valid_frame_def fs)
  have "\<exists>decoder. wf_frame_ctx decoder \<and> fc_data decoder = [] \<and>
    tcp_reads (lib_ssl example_lib) (lib_try_write example_lib)
      (mumble_message_cb_adapter example_lib 0 (\<lambda>t m (s, c, u). ok (s, c, ?h t m u)) (\<lambda>p (s, c, u). ok (s, c, u))) (\<lambda>status st. ok st)
      (map (\<lambda>d. (int (length d), d)) ?cs) (?socket, ?client, []) =
    (case until_five ?fs [] ?cs of
       None \<Rightarrow> cbind (Some (for_each (message_effect example_lib 0 ?h) ?fs (?client, [])))
         (\<lambda>(client', u'). ok (?socket\<lparr>ts_ssl := []\<rparr>, client'\<lparr>cl_decoder := decoder\<rparr>, u'))
     | Some ended \<Rightarrow> cbind (Some (for_each (message_effect example_lib 0 ?h) ended (?client, []))) (\<lambda>_. faults Out_of_bounds))"
    by (rule network_delivers_messages [OF stream room _ _ _ ok(5) ok(1-3)])
      (simp_all add: c example_frames_ok own_state_def)
  then show ?thesis unfolding ok(4) effects by (simp add: example_lib_def example_socket_def) blast
qed

end
