(* ===== verification/Client_Invariant.thy ===== *)
theory Client_Invariant
  imports Mumble_Client
begin

text \<open>
  What stays true of a client: the invariant \<open>client_ok\<close> of its state, made of the invariants of the components,
  and one lemma for every operation that it keeps it whenever it returns.
\<close>

section \<open>The UDP transport\<close>

lemma for_each_keeps:
  assumes "for_each f is s = Inr s'" and "I s" and "\<And>i s s'. I s \<Longrightarrow> f i s = Inr s' \<Longrightarrow> I s'"
  shows "I s'"
  using assms(1,2)
proof (induction "is" arbitrary: s)
  case (Cons i "is")
  then show ?case by (auto simp: rbind_Inr_iff intro: assms(3))
qed simp

lemma ocb2_round_length:
  "ocb2_round step inp i (out, s) = Inr (out', s') \<Longrightarrow> length out' = length out"
proof -
  assume "ocb2_round step inp i (out, s) = Inr (out', s')"
  then obtain o_block where "poke out (i * AES_BLOCK_SIZE) o_block = Inr out'"
    by (cases s) (auto simp: ocb2_round_def rbind_Inr_iff Let_def split_beta)
  then show ?thesis by (rule poke_length)
qed

lemma ocb2_encrypt_keeps_length:
  assumes "ocb2_aes_encrypt E ctx inp inl out = Inr (out', tag)"
  shows "length out' = length out"
proof -
  obtain n o1 s1 where r: "for_each (ocb2_round (ocb2_encrypt_block E ctx) inp) [0..<n] (out, E (key ctx) (enc_iv ctx), zero_block)
      = Inr (o1, s1)"
    and f: "ocb2_encrypt_block_final E ctx (drop (n * AES_BLOCK_SIZE) inp)
      (word_of_int (inl - int (n * AES_BLOCK_SIZE))) o1 (n * AES_BLOCK_SIZE) s1 = Inr (out', tag)"
    using assms by (auto simp: ocb2_aes_encrypt_def rbind_Inr_iff Let_def)
  have "length (fst (o1, s1)) = length out"
    by (rule for_each_keeps [OF r, where I = "\<lambda>s. length (fst s) = length out"]) (auto dest: ocb2_round_length)
  moreover have "length out' = length o1"
    using f by (cases s1) (auto simp: ocb2_encrypt_block_final_def rbind_Inr_iff Let_def dest: poke_length)
  ultimately show ?thesis by simp
qed

lemma increment_from_length: "increment_from n i iv = Inr iv' \<Longrightarrow> length iv' = length iv"
  by (induction n i iv arbitrary: iv' rule: increment_from.induct) (auto simp: Let_def split: if_splits)

lemma increment_iv_length: "increment_iv iv n = Inr iv' \<Longrightarrow> length iv' = length iv"
  by (simp add: increment_iv_def increment_from_length)

text \<open>Between two events no buffer of the transport is out.\<close>

definition udp_idle :: "udp_ssl \<Rightarrow> bool" where
  "udp_idle c \<longleftrightarrow> wf_udp c \<and> held (u_pool c) = {} \<and> p_count (u_pool c) = 2 \<and> u_has_cb c"

lemma udp_idle_room: "udp_idle c \<Longrightarrow> pool_room c"
  by (simp add: udp_idle_def pool_room_def)

lemma udp_write_keeps:
  assumes "uv_udp_ssl_write E try_send c buf n = Inr (c', packet)" and "udp_idle c"
  shows "udp_idle c'"
proof -
  have wf: "wf_udp c" "wf_pool (u_pool c)" using assms(2) by (simp_all add: udp_idle_def wf_udp_def)
  obtain base pool' where a: "buffer_pool_acquire (u_pool c) = (Some base, pool')"
    and mem: "length (u_mem c base) = 1024" and base: "base \<in> set (p_buffers (u_pool c))"
    by (rule borrow [OF wf(1) udp_idle_room [OF assms(2)]])
  note rel = acquire_release [OF wf(2) a]
  obtain iv' dest' tag where
    iv: "increment_iv (enc_iv (u_cipher c)) (unat (ivlen (u_cipher c))) = Inr iv'"
    and enc: "ocb2_aes_encrypt E ((u_cipher c)\<lparr>enc_iv := iv'\<rparr>) buf (sint (of_nat n :: i32)) (drop 4 (u_mem c base)) = Inr (dest', tag)"
    and c': "c' = c\<lparr>u_cipher := (u_cipher c)\<lparr>enc_iv := iv'\<rparr>,
      u_mem := (u_mem c)(base := [iv' ! 0, tag ! 0, tag ! 1, tag ! 2] @ dest')\<rparr>"
    using assms(1) by (auto simp: uv_udp_ssl_write_def a rel encrypt_ocb_def rbind_Inr_iff Let_def split: if_splits)
  show ?thesis
    using assms(2) ocb2_encrypt_keeps_length [OF enc] increment_iv_length [OF iv] mem
    by (simp add: c' udp_idle_def wf_udp_def wf_ocb_def)
qed

lemma udp_decrypt_keeps:
  assumes "uv_udp_ssl_decrypt E D c buf n = Inr (c', data)"
  shows "\<exists>iv'. c' = c\<lparr>u_cipher := (u_cipher c)\<lparr>dec_iv := iv'\<rparr>\<rparr> \<and> length iv' = length (dec_iv (u_cipher c))"
  using assms by (auto simp: uv_udp_ssl_decrypt_def rbind_Inr_iff Let_def dest: increment_iv_length split: if_splits)

lemma udp_recv_cb_keeps:
  assumes "udp_recv_cb E D c n base = Inr (c', data)"
  shows "\<exists>iv' p. buffer_pool_release (u_pool c) base = Inr p \<and> length iv' = length (dec_iv (u_cipher c))
    \<and> c' = c\<lparr>u_cipher := (u_cipher c)\<lparr>dec_iv := iv'\<rparr>, u_pool := p\<rparr>"
proof (cases "0 < n")
  case True
  with assms obtain c2 p where c2: "uv_udp_ssl_decrypt E D c (u_mem c base) (nat n) = Inr (c2, data)"
    and p: "buffer_pool_release (u_pool c2) base = Inr p" and c': "c' = c2\<lparr>u_pool := p\<rparr>"
    by (auto simp: udp_recv_cb_def rbind_Inr_iff)
  from udp_decrypt_keeps [OF c2] p show ?thesis by (auto simp: c')
next
  case False
  with assms show ?thesis
    by (auto simp: udp_recv_cb_def rbind_Inr_iff intro!: exI [of _ "dec_iv (u_cipher c)"])
qed

lemma udp_receive_keeps:
  assumes "udp_receive E D c packet = Inr (c', data)" and "udp_idle c"
  shows "udp_idle c'"
proof -
  have wf: "wf_udp c" "wf_pool (u_pool c)" using assms(2) by (simp_all add: udp_idle_def wf_udp_def)
  obtain base pool' where a: "buffer_pool_acquire (u_pool c) = (Some base, pool')"
    and mem: "length (u_mem c base) = 1024" and size: "p_size pool' = 1024"
    by (rule borrow [OF wf(1) udp_idle_room [OF assms(2)]])
  let ?got = "take 1024 packet"
  let ?mem = "(u_mem c)(base := ?got @ drop (length ?got) (u_mem c base))"
  have "udp_recv_cb E D (c\<lparr>u_pool := pool', u_mem := ?mem\<rparr>) (int (length ?got)) base = Inr (c', data)"
    using assms(1) by (simp add: udp_receive_def udp_alloc_cb_def a size Let_def)
  from udp_recv_cb_keeps [OF this] acquire_release [OF wf(2) a] obtain iv'
    where "length iv' = length (dec_iv (u_cipher c))" "c' = c\<lparr>u_mem := ?mem, u_cipher := (u_cipher c)\<lparr>dec_iv := iv'\<rparr>\<rparr>"
    by auto
  with assms(2) mem show ?thesis
    by (simp add: udp_idle_def wf_udp_def wf_ocb_def)
qed

lemma small_byte: "0 \<le> k \<Longrightarrow> nat k \<le> 16 \<Longrightarrow> unat (word_of_int k :: byte) \<le> 16"
  by (simp add: unsigned_of_int take_bit_int_eq_self)

lemma set_encryption_keeps:
  assumes "uv_udp_ssl_set_encryption c k e_iv d_iv n = Inr c'" and "udp_idle c"
  shows "udp_idle c'"
proof -
  let ?n = "sint (of_nat n :: i32)"
  obtain k1 e1 d1 where p: "poke (key (u_cipher c)) 0 (take 16 k) = Inr k1" "\<not> ?n < 0"
    "poke (enc_iv (u_cipher c)) 0 (take (nat ?n) e_iv) = Inr e1" "nat ?n \<le> length e_iv"
    "poke (dec_iv (u_cipher c)) 0 (take (nat ?n) d_iv) = Inr d1"
    and c': "c' = c\<lparr>u_cipher := (u_cipher c)\<lparr>key := k1, enc_iv := e1, dec_iv := d1, ivlen := word_of_int ?n, taglen := 96\<rparr>\<rparr>"
    using assms(1)
    by (auto simp: uv_udp_ssl_set_encryption_def ocb_aes_set_keys_def rbind_Inr_iff peek_def split: if_splits)
  have "nat ?n \<le> 16"
    using p(3,4) assms(2) by (auto simp: poke_def udp_idle_def wf_udp_def wf_ocb_def split: if_splits)
  then have "unat (word_of_int ?n :: byte) \<le> 16"
    using p(2) by (intro small_byte) simp_all
  then show ?thesis
    using assms(2) p by (auto simp: c' udp_idle_def wf_udp_def wf_ocb_def dest!: poke_length)
qed


section \<open>The client\<close>

definition audio_ok :: "('d, 'e) mumble_audio \<Rightarrow> bool" where
  "audio_ok audio \<longleftrightarrow> wf_audio_encoder (au_encoder audio) \<and> udp_idle (au_udp audio) \<and> wf_ping (au_pinger audio)
     \<and> au_has_cb audio"

definition client_ok :: "('d, 'e) mumble_client \<Rightarrow> bool" where
  "client_ok client \<longleftrightarrow> audio_ok (cl_audio client)
     \<and> wf_frame_ctx (cl_decoder client) \<and> fc_allocated (cl_decoder client) = MUMBLE_FRAME_MAX_SIZE
     \<and> wf_frame_ctx (cl_encoder client) \<and> fc_allocated (cl_encoder client) = MUMBLE_FRAME_MAX_SIZE"

text \<open>The state the encoder's callback works on, while the samples of one call are cut into frames.\<close>

definition sending_ok :: "buffer_pool \<Rightarrow> nat \<Rightarrow> 'e opus_encoder \<times> u32 \<times> udp_ssl \<times> 's tcp_ssl \<times> bytes list \<Rightarrow> bool" where
  "sending_ok p k s \<longleftrightarrow> (case s of (codec, sequence, udp, tcp, datagrams) \<Rightarrow> wf_pool p \<and> ts_pool tcp = p \<and> udp_idle udp
     \<and> oe_framed_size codec = k \<and> length (oe_framed codec) = k \<and> k \<le> 0x2000)"

lemma tls_write_keeps:
  "mumble_uv_ssl_write ssl try_write buf socket = Inr socket' \<Longrightarrow> wf_pool (ts_pool socket)
    \<Longrightarrow> ts_pool socket' = ts_pool socket \<and> ts_has_cb socket' = ts_has_cb socket \<and> ts_creq socket' = ts_creq socket"
  by (auto simp: mumble_uv_ssl_write_def rbind_Inr_iff dest: wbio_writes_keeps split: prod.splits if_splits)

lemma encoder_cb_keeps:
  assumes "encoder_cb E try_send ssl try_write connected buf (udp, tcp, ds) = Inr (udp', tcp', ds')"
    and "udp_idle udp" and "wf_pool (ts_pool tcp)"
  shows "udp_idle udp' \<and> ts_pool tcp' = ts_pool tcp"
  using assms
  by (cases connected)
    (auto simp: encoder_cb_datagram encoder_cb_tunnel rbind_Inr_iff dest: tls_write_keeps udp_write_keeps)

interpretation sending: frame_sink
    "on_encoder_frame oe (encoder_codec_cb (encoder_cb E try_send ssl try_write connected) 4 target pos)" n "sending_ok p k"
  for oe :: "'e opus_encode" and E try_send and ssl :: "'s openssl" and try_write connected target pos n p k
proof
  fix s s' :: "'e opus_encoder \<times> u32 \<times> udp_ssl \<times> 's tcp_ssl \<times> bytes list" and f fin
  assume inv: "sending_ok p k s"
    and run: "on_encoder_frame oe (encoder_codec_cb (encoder_cb E try_send ssl try_write connected) 4 target pos) f n fin s = Inr s'"
  obtain codec sequence udp tcp ds codec' sequence' udp' tcp' ds'
    where s: "s = (codec, sequence, udp, tcp, ds)" "s' = (codec', sequence', udp', tcp', ds')"
    by (cases s; cases s')
  obtain payload out enc' where o:
    "encoder_codec_cb (encoder_cb E try_send ssl try_write connected) 4 target pos (opus_packet payload) fin (sequence, udp, tcp, ds)
      = Inr (sequence', udp', tcp', ds')"
    "oe_framed_size codec' = oe_framed_size codec" "length (oe_framed codec') = oe_framed_size codec"
    by (rule on_encoder_frame_packet [OF run [unfolded s]]) (use inv s in \<open>auto simp: sending_ok_def\<close>)
  from o(1) have "encoder_cb E try_send ssl try_write connected (sent_packet 4 target sequence (opus_packet payload)) (udp, tcp, ds)
      = Inr (udp', tcp', ds')"
    by (auto simp: encoder_codec_cb_sends rbind_Inr_iff)
  from encoder_cb_keeps [OF this] o(2,3) inv show "sending_ok p k s'"
    by (auto simp: sending_ok_def s)
qed

lemma audio_send_keeps:
  assumes "mumble_audio_send oe E try_send ssl try_write garbage target pcm n audio tcp ds = ok (audio', tcp', ds')"
    and "audio_ok audio" and "wf_pool (ts_pool tcp)"
  shows "audio_ok audio' \<and> ts_pool tcp' = ts_pool tcp \<and> au_pinger audio' = au_pinger audio"
proof -
  let ?cb = "on_encoder_frame oe (encoder_codec_cb (encoder_cb E try_send ssl try_write (pg_connected (au_pinger audio)))
    4 (ucast target) garbage)"
  let ?enc = "au_encoder audio"
  obtain data b codec sequence udp where
    w: "mumble_buffer_write ?cb data False (oe_buffer (ae_opus ?enc)) (ae_opus ?enc, ae_sequence ?enc, au_udp audio, tcp, ds)
      = ok (b, codec, sequence, udp, tcp', ds')"
    and a: "audio' = audio\<lparr>au_encoder := ?enc\<lparr>ae_opus := codec\<lparr>oe_buffer := b\<rparr>, ae_sequence := sequence\<rparr>, au_udp := udp\<rparr>"
    using assms(1,2)
    by (auto simp: mumble_audio_send_def mumble_audio_encoder_encode_def mumble_codec_opus_encode_def cbind_ok_iff
        audio_ok_def wf_audio_encoder_def)
  have wf: "wf_buffer (oe_buffer (ae_opus ?enc))"
    using assms(2) by (simp add: audio_ok_def wf_audio_encoder_def wf_opus_encoder_def)
  have "sending_ok (ts_pool tcp) (oe_framed_size (ae_opus ?enc)) (ae_opus ?enc, ae_sequence ?enc, au_udp audio, tcp, ds)"
    using assms(2,3) by (simp add: sending_ok_def audio_ok_def wf_audio_encoder_def wf_opus_encoder_def)
  from sending.write_inv [OF wf refl this w] assms(2) show ?thesis
    by (simp add: a sending_ok_def audio_ok_def wf_audio_encoder_def wf_opus_encoder_def)
qed


section \<open>The message loop\<close>

lemma message_loop_invariant:
  fixes lib :: "('s, 'd, 'e, 'm) libs" and st st' :: "('s, 'd, 'e, 'u) client_state"
  assumes "message_loop lib clock on_message on_audio st = ok st'" and "I st"
    and step: "\<And>st st'. I st \<Longrightarrow> mumble_frame_ready (cl_decoder (fst (snd st)))
      \<Longrightarrow> message_round lib clock on_message on_audio st = ok st' \<Longrightarrow> I st'"
  shows "I st'"
proof -
  define P where "P = (\<lambda>lib' clock' om (oa :: ('s, 'd, 'e, 'u) audio_cb) (st :: ('s, 'd, 'e, 'u) client_state) y.
    lib' = lib \<longrightarrow> clock' = clock \<longrightarrow> om = on_message \<longrightarrow> oa = on_audio \<longrightarrow> I st
    \<longrightarrow> (\<forall>st'. y = (Inr st' :: fault + ('s, 'd, 'e, 'u) client_state) \<longrightarrow> I st'))"
  have "P lib clock on_message on_audio st (Inr st')"
    using assms(1)
  proof (rule message_loop.raw_induct [where P = P, rotated])
    fix f lib' clock' om oa st y
    assume IH: "\<And>lib clock om oa st y. f lib clock om oa st = Some y \<Longrightarrow> P lib clock om oa st y"
      and body: "(if mumble_frame_ready (cl_decoder (fst (snd st)))
        then cbind (message_round lib' clock' om oa st) (f lib' clock' om oa) else ok st) = Some y"
    show "P lib' clock' om oa st y"
      unfolding P_def
    proof (intro impI allI)
      fix st'
      assume eq: "lib' = lib" "clock' = clock" "om = on_message" "oa = on_audio" and inv: "I st" and y: "y = Inr st'"
      show "I st'"
      proof (cases "mumble_frame_ready (cl_decoder (fst (snd st)))")
        case True
        with body obtain st1 where r: "message_round lib clock on_message on_audio st = ok st1"
          and l: "f lib clock on_message on_audio st1 = ok st'"
          unfolding y eq by (auto simp: cbind_ok_iff)
        from IH [OF l] step [OF inv True r] show ?thesis by (cases st') (simp add: P_def)
      qed (use body inv y in simp)
    qed
  qed
  then show ?thesis using assms(2) by (cases st') (simp add: P_def)
qed

text \<open>
  The contract between the client and a property \<open>good\<close> of its state: what the client itself does with what it receives keeps
  it, and so do the user's callbacks, which moreover give every buffer of the socket back.
\<close>

locale client_reader =
  fixes lib :: "('s, 'd, 'e, 'm) libs" and clock :: nat
    and on_message :: "('s, 'd, 'e, 'm, 'u) message_cb" and on_audio :: "('s, 'd, 'e, 'u) audio_cb"
    and good :: "('d, 'e) mumble_client \<Rightarrow> bool"
  assumes message_keeps: "good client \<Longrightarrow> wf_pool (ts_pool socket)
      \<Longrightarrow> on_message type message (socket, client, u) = ok (socket', client', u')
      \<Longrightarrow> ts_pool socket' = ts_pool socket \<and> good client'"
    and audio_keeps: "good client \<Longrightarrow> wf_pool (ts_pool socket)
      \<Longrightarrow> on_audio packet (socket, client, u) = ok (socket', client', u')
      \<Longrightarrow> ts_pool socket' = ts_pool socket \<and> good client'"
    and internal_keeps: "good client \<Longrightarrow> mumble_message_internal lib clock type message client = Inr client' \<Longrightarrow> good client'"
    and append_keeps: "good client \<Longrightarrow> mumble_frame_append (cl_decoder client) buf = Inr (r, decoder)
      \<Longrightarrow> good (client\<lparr>cl_decoder := decoder\<rparr>)"
    and pop_keeps: "good client \<Longrightarrow> mumble_frame_pop (cl_decoder client) = (i, decoder)
      \<Longrightarrow> good (client\<lparr>cl_decoder := decoder\<rparr>)"
    and voice_keeps: "good client \<Longrightarrow> good (client\<lparr>cl_audio := (cl_audio client)\<lparr>au_decoder := voice\<rparr>\<rparr>)"
begin

lemma decode_keeps:
  assumes "good client" and "mumble_frame_decode unpack (cl_decoder client) = Inr (type, message, decoder)"
  shows "good (client\<lparr>cl_decoder := decoder\<rparr>)"
proof -
  have "decoder = cl_decoder client \<or> decoder = snd (mumble_frame_pop (cl_decoder client))"
    using assms(2) by (auto simp: mumble_frame_decode_def rbind_Inr_iff Let_def split_beta split: if_splits)
  moreover have "good (client\<lparr>cl_decoder := snd (mumble_frame_pop (cl_decoder client))\<rparr>)"
    using pop_keeps [OF assms(1), of "fst (mumble_frame_pop (cl_decoder client))"] by simp
  ultimately show ?thesis using assms(1) by auto
qed

lemma round_keeps:
  assumes "message_round lib clock on_message on_audio (socket, client, u) = ok (socket', client', u')"
    and "good client" and "wf_pool (ts_pool socket)"
  shows "ts_pool socket' = ts_pool socket \<and> good client'"
proof (cases "mumble_frame_is_audio (cl_decoder client)")
  case True
  with assms(1) obtain voice decoded client1 where
    d: "(case decoder_cb (cl_audio (client\<lparr>cl_audio := (cl_audio client)\<lparr>au_decoder := voice\<rparr>\<rparr>)) decoded of
        None \<Rightarrow> ok (socket, client\<lparr>cl_audio := (cl_audio client)\<lparr>au_decoder := voice\<rparr>\<rparr>, u)
      | Some packet \<Rightarrow> mumble_on_audio on_audio packet (socket, client\<lparr>cl_audio := (cl_audio client)\<lparr>au_decoder := voice\<rparr>\<rparr>, u))
      = ok (socket', client1, u')"
    and c': "client' = client1\<lparr>cl_decoder := snd (mumble_frame_pop (cl_decoder client1))\<rparr>"
    by (auto simp: message_round_def cbind_ok_iff Let_def)
  have "ts_pool socket' = ts_pool socket \<and> good client1"
    using d voice_keeps [OF assms(2), of voice] assms(3)
    by (auto simp: mumble_on_audio_def split: option.splits if_splits dest: audio_keeps)
  then show ?thesis using pop_keeps [of client1 "fst (mumble_frame_pop (cl_decoder client1))"] by (simp add: c')
next
  case False
  with assms(1) obtain type message decoder where
    d: "mumble_frame_decode (lib_unpack lib) (cl_decoder client) = Inr (type, message, decoder)"
    and r: "(if 0 \<le> type
      then cbind (Some (mumble_message_internal lib clock type message (client\<lparr>cl_decoder := decoder\<rparr>))) (\<lambda>client.
        if cl_has_on_message client then on_message type message (socket, client, u) else ok (socket, client, u))
      else ok (socket, client\<lparr>cl_decoder := decoder\<rparr>, u)) = ok (socket', client', u')"
    by (auto simp: message_round_def cbind_ok_iff Let_def)
  note good = decode_keeps [OF assms(2) d]
  show ?thesis
    using r good internal_keeps [OF good] message_keeps [OF internal_keeps [OF good] assms(3)]
    by (auto simp: cbind_ok_iff split: if_splits)
qed

lemma adapter_keeps:
  assumes "mumble_message_cb_adapter lib clock on_message on_audio buf (socket, client, u) = ok (socket', client', u')"
    and "good client" and "wf_pool (ts_pool socket)"
  shows "ts_pool socket' = ts_pool socket \<and> good client'"
proof -
  from assms(1) obtain r decoder where
    a: "mumble_frame_append (cl_decoder client) buf = Inr (r, decoder)"
    and l: "message_loop lib clock on_message on_audio (socket, client\<lparr>cl_decoder := decoder\<rparr>, u) = ok (socket', client', u')"
    by (auto simp: mumble_message_cb_adapter_def cbind_ok_iff)
  let ?I = "\<lambda>st. ts_pool (fst st) = ts_pool socket \<and> good (fst (snd st))"
  have "?I (socket', client', u')"
  proof (rule message_loop_invariant [OF l, where I = ?I])
    show "?I (socket, client\<lparr>cl_decoder := decoder\<rparr>, u)" using append_keeps [OF assms(2) a] by simp
  next
    fix st st' :: "('s, 'd, 'e, 'u) client_state"
    assume "?I st" "message_round lib clock on_message on_audio st = ok st'"
    then show "?I st'"
      using round_keeps [of "fst st" "fst (snd st)" "snd (snd st)" "fst st'" "fst (snd st')" "snd (snd st')"] assms(3)
      by simp
  qed
  then show ?thesis by simp
qed

end

text \<open>A client that is connected already is a user of its socket in the sense of the TLS transport.\<close>

sublocale client_reader \<subseteq> reading: tcp_user
    "mumble_message_cb_adapter lib clock on_message on_audio" "\<lambda>status st. ok st" "\<lambda>(client, u). good client"
proof
  fix socket socket' :: "'s tcp_ssl" and c c' :: "('d, 'e) mumble_client \<times> 'u" and data
  assume "wf_pool (ts_pool socket)" "case c of (client, u) \<Rightarrow> good client"
    "mumble_message_cb_adapter lib clock on_message on_audio data (socket, c) = ok (socket', c')"
  then show "ts_pool socket' = ts_pool socket \<and> (case c' of (client, u) \<Rightarrow> good client)"
    using adapter_keeps [of data socket "fst c" "snd c" socket' "fst c'" "snd c'"] by (simp add: split_beta)
qed auto

text \<open>The contract of a client that connects: the login keeps the property, too.\<close>

locale client_writer =
  fixes lib :: "('s, 'd, 'e, 'm) libs" and clock :: nat and good :: "('d, 'e) mumble_client \<Rightarrow> bool"
    and peername :: "int \<times> bytes \<times> int" and now :: u64 and malloc_ok :: bool
  assumes write_keeps: "good client \<Longrightarrow> wf_pool (ts_pool socket)
      \<Longrightarrow> mumble_client_write lib msg socket client = Inr (socket', client')
      \<Longrightarrow> ts_pool socket' = ts_pool socket \<and> good client'"
    and start_keeps: "good client \<Longrightarrow> mumble_audio_start peername (cl_audio client) = Inr audio
      \<Longrightarrow> good (client\<lparr>cl_audio := audio, cl_ping_timer := Some (clock + 15000, 30000)\<rparr>)"
begin

lemma connect_keeps:
  assumes "mumble_connect_cb_adapter lib peername clock now malloc_ok status (socket, client, u) = ok (socket', client', u')"
    and "good client" and "wf_pool (ts_pool socket)"
  shows "ts_pool socket' = ts_pool socket \<and> good client'"
proof -
  from assms(1) obtain audio msg1 msg2 msg3 s1 c1 s2 c2 where
    "mumble_audio_start peername (cl_audio client) = Inr audio"
    "mumble_client_write lib msg1 socket (client\<lparr>cl_audio := audio, cl_ping_timer := Some (clock + 15000, 30000)\<rparr>) = Inr (s1, c1)"
    "mumble_client_write lib msg2 s1 c1 = Inr (s2, c2)" "mumble_client_write lib msg3 s2 c2 = Inr (socket', client')"
    by (auto simp: mumble_connect_cb_adapter_def rbind_Inr_iff Let_def)
  with start_keeps assms(2,3) write_keeps show ?thesis by metis
qed

lemma connect_balanced:
  assumes "wf_pool (ts_pool socket)" and "case c of (client, u) \<Rightarrow> good client"
    and "mumble_connect_cb_adapter lib peername clock now malloc_ok status (socket, c) = ok (socket', c')"
  shows "ts_pool socket' = ts_pool socket \<and> (case c' of (client, u) \<Rightarrow> good client)"
  using connect_keeps [of status socket "fst c" "snd c" socket' "fst c'" "snd c'"] assms by (simp add: split_beta)

end

sublocale client_writer \<subseteq> login: tcp_user
    "\<lambda>data st. ok st" "mumble_connect_cb_adapter lib peername clock now malloc_ok" "\<lambda>(client, u). good client"
  by unfold_locales (auto dest: connect_balanced)

locale client_user = client_reader lib clock on_message on_audio good + client_writer lib clock good peername now malloc_ok
  for lib :: "('s, 'd, 'e, 'm) libs" and clock :: nat
    and on_message :: "('s, 'd, 'e, 'm, 'u) message_cb" and on_audio :: "('s, 'd, 'e, 'u) audio_cb"
    and good :: "('d, 'e) mumble_client \<Rightarrow> bool" and peername :: "int \<times> bytes \<times> int" and now :: u64 and malloc_ok :: bool

sublocale client_user \<subseteq> socket: tcp_user
    "mumble_message_cb_adapter lib clock on_message on_audio"
    "mumble_connect_cb_adapter lib peername clock now malloc_ok" "\<lambda>(client, u). good client"
  by unfold_locales (fact reading.cb_balanced, fact connect_balanced)

section \<open>What the client itself does keeps the invariant\<close>

lemma internal_ok:
  assumes "mumble_message_internal lib clock type message client = Inr client'" and "client_ok client"
  shows "client_ok client'"
  using assms
  by (auto simp: mumble_message_internal_def mumble_audio_encryption_def mumble_udp_ping_start_def rbind_Inr_iff
      client_ok_def audio_ok_def wf_ping_def
      split: option.splits if_splits prod.splits dest: set_encryption_keeps)

lemma append_ok:
  assumes "mumble_frame_append (cl_decoder client) buf = Inr (r, decoder)" and "client_ok client"
  shows "client_ok (client\<lparr>cl_decoder := decoder\<rparr>)"
proof -
  let ?ctx = "cl_decoder client"
  have wf: "wf_frame_ctx ?ctx" using assms(2) by (simp add: client_ok_def)
  have "fc_size ?ctx + length buf \<le> fc_allocated ?ctx"
    using assms(1) fc_mem_length [OF wf]
    by (auto simp: mumble_frame_append_def rbind_Inr_iff poke_def split: if_splits option.splits)
  from frame_append_data [OF wf this] obtain ctx' where "mumble_frame_append ?ctx buf = Inr (mumble_frame_ready ctx', ctx')"
    "wf_frame_ctx ctx'" "fc_allocated ctx' = fc_allocated ?ctx" by metis
  with assms show ?thesis by (simp add: client_ok_def)
qed

lemma pop_ok:
  assumes "mumble_frame_pop (cl_decoder client) = (i, decoder)" and "client_ok client"
  shows "client_ok (client\<lparr>cl_decoder := decoder\<rparr>)"
proof (cases "mumble_frame_ready (cl_decoder client)")
  case True
  have "wf_frame_ctx (cl_decoder client)" using assms(2) by (simp add: client_ok_def)
  from frame_pop_data(1,3) [OF this True assms(1)] assms(2) show ?thesis by (simp add: client_ok_def)
next
  case False
  with assms show ?thesis by (auto simp: mumble_frame_pop_def)
qed

lemma voice_ok: "client_ok client \<Longrightarrow> client_ok (client\<lparr>cl_audio := (cl_audio client)\<lparr>au_decoder := voice\<rparr>\<rparr>)"
  by (simp add: client_ok_def audio_ok_def)

lemma write_ok:
  assumes "mumble_client_write lib msg socket client = Inr (socket', client')" and "client_ok client"
    and "wf_pool (ts_pool socket)"
  shows "client_ok client' \<and> ts_pool socket' = ts_pool socket \<and> cl_audio client' = cl_audio client
    \<and> cl_ping_timer client' = cl_ping_timer client \<and> ts_has_cb socket' = ts_has_cb socket \<and> ts_creq socket' = ts_creq socket"
proof -
  obtain encoder buf where e: "mumble_frame_encode (cl_encoder client) msg = Inr encoder"
    "mumble_uv_ssl_write (lib_ssl lib) (lib_try_write lib) buf socket = Inr socket'" "client' = client\<lparr>cl_encoder := encoder\<rparr>"
    using assms(1) by (auto simp: mumble_client_write_def rbind_Inr_iff)
  have wf: "wf_frame_ctx (cl_encoder client)" using assms(2) by (simp add: client_ok_def)
  from e(1) obtain t where t: "get_message_type msg = Inr t" "t \<noteq> -1" "6 + length (pb_packed msg) \<le> fc_allocated (cl_encoder client)"
    by (auto simp: mumble_frame_encode_def rbind_Inr_iff Let_def split: if_splits)
  from encode_data [OF wf t] e(1) have "wf_frame_ctx encoder" "fc_allocated encoder = fc_allocated (cl_encoder client)"
    by auto
  with e tls_write_keeps [OF e(2) assms(3)] assms(2) show ?thesis by (simp add: client_ok_def)
qed

lemma write_audio_ok:
  assumes "mumble_client_write_audio lib target pcm n socket client = ok (socket', client')"
    and "client_ok client" and "wf_pool (ts_pool socket)"
  shows "client_ok client' \<and> ts_pool socket' = ts_pool socket \<and> au_pinger (cl_audio client') = au_pinger (cl_audio client)
    \<and> cl_ping_timer client' = cl_ping_timer client"
  using assms
  by (auto simp: mumble_client_write_audio_def cbind_ok_iff client_ok_def dest: audio_send_keeps)

end
