(* ===== verification/Main_Program.thy ===== *)
theory Main_Program
  imports Client_Invariant Complex_Main
begin

text \<open>
  The program \<^verbatim>\<open>src/main.c\<close>: it prints what it hears and answers every text message with a tone of two seconds.

  The values of the sine, which the code computes in floating point, are the parameter \<open>sine\<close>; \<open>version_of\<close> and \<open>text_of\<close> read
  the fields of a Version and a TextMessage that are printed. What is printed is the user's state.
\<close>

datatype printed =
    Server_version int int int string
  | Text_line u32 string
  | Audio_line u64 u64 u64 byte int

text \<open>\<open>sine\<close> is the sine of the \<open>i\<close>-th sample for a sample rate and a frequency. The cast to an integer cuts
  the positive value off.\<close>

definition bit_sample :: "real \<Rightarrow> u16" where
  "bit_sample s = word_of_int \<lfloor>(s + 1) * (2 ^ 15 - 1)\<rfloor>"

definition tone :: "bool \<Rightarrow> (nat \<Rightarrow> nat \<Rightarrow> nat \<Rightarrow> real) \<Rightarrow> nat \<Rightarrow> nat \<Rightarrow> nat \<Rightarrow> u16 list res" where
  "tone malloc_ok sine time sample_rate frequency =
     (let samples = time * sample_rate in
      if \<not> malloc_ok \<and> 0 < samples then Inl Null_deref
      else Inr (map (\<lambda>i. bit_sample (sine sample_rate frequency i)) [0..<samples]))"

text \<open>The samples in memory, on a little-endian machine.\<close>

definition pcm_bytes :: "u16 list \<Rightarrow> bytes" where
  "pcm_bytes samples = concat (map (\<lambda>w. [ucast w, ucast (drop_bit 8 w)]) samples)"

definition send_tone ::
    "('s, 'd, 'e, 'm) libs \<Rightarrow> bool \<Rightarrow> (nat \<Rightarrow> nat \<Rightarrow> nat \<Rightarrow> real) \<Rightarrow> nat \<Rightarrow> nat \<Rightarrow> 's tcp_ssl \<Rightarrow> ('d, 'e) mumble_client
      \<Rightarrow> ('s tcp_ssl \<times> ('d, 'e) mumble_client) comp" where
  "send_tone lib malloc_ok sine frequency time socket client =
     cbind (Some (tone malloc_ok sine time 48000 frequency)) (\<lambda>data.
     mumble_client_write_audio lib 0 (pcm_bytes data) (time * 48000) socket client)"

definition on_message ::
    "('s, 'd, 'e, 'm) libs \<Rightarrow> bool \<Rightarrow> (nat \<Rightarrow> nat \<Rightarrow> nat \<Rightarrow> real) \<Rightarrow> ('m \<Rightarrow> u32 \<times> string) \<Rightarrow> ('m \<Rightarrow> u32 \<times> string)
      \<Rightarrow> ('s, 'd, 'e, 'm, printed list) message_cb" where
  "on_message lib malloc_ok sine version_of text_of type message = (\<lambda>(socket, client, out).
     if type = 0 then
       case message of None \<Rightarrow> faults Null_deref
       | Some m \<Rightarrow>
           let (version, release) = version_of m;
               major = uint (drop_bit 16 version);
               minor = uint (drop_bit 8 version AND 0xFF);
               bugfix = uint (version AND 0xFF)
           in ok (socket, client, out @ [Server_version major minor bugfix release])
     else if type = 11 then
       case message of None \<Rightarrow> faults Null_deref
       | Some m \<Rightarrow>
           let (actor, text) = text_of m in
           cbind (send_tone lib malloc_ok sine 300 2 socket client) (\<lambda>(socket, client).
           ok (socket, client, out @ [Text_line actor text]))
     else ok (socket, client, out))"

definition on_audio :: "('s, 'd, 'e, printed list) audio_cb" where
  "on_audio audio = (\<lambda>(socket, client, out).
     ok (socket, client, out @ [Audio_line (ap_source audio) (ap_target audio) (ap_sequence audio) (ap_codec audio)
       (ap_samples audio)]))"

text \<open>What \<open>main\<close> does before it runs the event loop.\<close>

definition main_start ::
    "'s tcp_ssl res \<Rightarrow> ('d, 'e) mumble_audio res \<Rightarrow> bytes option \<Rightarrow> bytes option \<Rightarrow> bool \<Rightarrow> bool
      \<Rightarrow> (string \<Rightarrow> string \<Rightarrow> int) \<Rightarrow> ('s tcp_ssl \<times> ('d, 'e) mumble_client) res" where
  "main_start ssl_init audio_init mem1 mem2 creq_ok req_ok getaddrinfo =
     rbind (mumble_client_init ssl_init audio_init mem1 mem2 ''jnstw.us'' 64738 (map of_char ''testbot'' @ [0]))
       (\<lambda>(socket, client).
     rbind (mumble_client_connect creq_ok req_ok getaddrinfo socket client) (\<lambda>socket.
     Inr (socket, mumble_client_set_on_audio (mumble_client_set_on_message client True) True)))"

section \<open>The program as a user of its socket\<close>

lemma client_write_keeps:
  assumes "mumble_client_write lib msg socket client = Inr (socket', client')" and "wf_pool (ts_pool socket)"
  shows "ts_pool socket' = ts_pool socket \<and> cl_audio client' = cl_audio client"
  using assms by (auto simp: mumble_client_write_def rbind_Inr_iff dest: tls_write_keeps)

text \<open>The audio encoder's buffer is well-formed; the pool of the socket is the given one.\<close>

definition wf_client :: "('d, 'e) mumble_client \<Rightarrow> bool" where
  "wf_client client \<longleftrightarrow> ae_has_cb (au_encoder (cl_audio client))
     \<and> wf_buffer (oe_buffer (ae_opus (au_encoder (cl_audio client))))"

definition pool_inv :: "buffer_pool \<Rightarrow> 'e opus_encoder \<times> u32 \<times> udp_ssl \<times> 's tcp_ssl \<times> bytes list \<Rightarrow> bool" where
  "pool_inv p s \<longleftrightarrow> (case s of (codec, sequence, udp, tcp, datagrams) \<Rightarrow> wf_pool p \<and> ts_pool tcp = p)"

interpretation transport: frame_sink
    "on_encoder_frame oe (encoder_codec_cb (encoder_cb E try_send ssl try_write connected) 4 target pos)" n "pool_inv p"
  for oe :: "'e opus_encode" and E try_send and ssl :: "'s openssl" and try_write connected target pos n p
proof
  fix s s' :: "'e opus_encoder \<times> u32 \<times> udp_ssl \<times> 's tcp_ssl \<times> bytes list" and f fin
  assume inv: "pool_inv p s"
    and run: "on_encoder_frame oe (encoder_codec_cb (encoder_cb E try_send ssl try_write connected) 4 target pos) f n fin s = Inr s'"
  obtain codec sequence udp tcp ds where s: "s = (codec, sequence, udp, tcp, ds)" by (cases s)
  obtain codec' packet where fp: "frame_packet oe f n codec = Inr (codec', packet)"
    using run unfolding s audio_frame_step by (cases "frame_packet oe f n codec") auto
  obtain udp' tcp' ds' where cb: "encoder_cb E try_send ssl try_write connected (sent_packet 4 target sequence packet) (udp, tcp, ds)
      = Inr (udp', tcp', ds')" and s': "s' = (codec', sequence + 1, udp', tcp', ds')"
    using run unfolding s audio_frame_step fp rbind_simps case_prod_conv
    by (cases "encoder_cb E try_send ssl try_write connected (sent_packet 4 target sequence packet) (udp, tcp, ds)") auto
  have "ts_pool tcp' = ts_pool tcp"
    using cb inv
    by (cases connected) (auto simp: s pool_inv_def encoder_cb_datagram encoder_cb_tunnel rbind_Inr_iff dest: tls_write_keeps)
  then show "pool_inv p s'" using inv by (simp add: s s' pool_inv_def)
qed

lemma write_audio_keeps:
  assumes "mumble_client_write_audio lib target pcm n socket client = ok (socket', client')"
    and "wf_pool (ts_pool socket)" and "wf_client client"
  shows "ts_pool socket' = ts_pool socket \<and> wf_client client'"
proof -
  let ?cb = "on_encoder_frame (lib_opus_encode lib) (encoder_codec_cb (encoder_cb (lib_aes lib) (lib_try_send lib) (lib_ssl lib)
    (lib_try_write lib) (pg_connected (au_pinger (cl_audio client)))) 4 (ucast target) (lib_garbage lib))"
  let ?enc = "au_encoder (cl_audio client)" and ?udp = "au_udp (cl_audio client)"
  obtain data b codec sequence udp ds where
    w: "mumble_buffer_write ?cb data False (oe_buffer (ae_opus ?enc))
      (ae_opus ?enc, ae_sequence ?enc, ?udp, socket, cl_datagrams client) = ok (b, codec, sequence, udp, socket', ds)"
    and c: "client' = client\<lparr>cl_audio := (cl_audio client)\<lparr>au_encoder := ?enc\<lparr>ae_opus := codec\<lparr>oe_buffer := b\<rparr>, ae_sequence := sequence\<rparr>,
        au_udp := udp\<rparr>, cl_datagrams := ds\<rparr>"
    using assms(1,3) by (auto simp: mumble_client_write_audio_def mumble_audio_send_def mumble_audio_encoder_encode_def
        mumble_codec_opus_encode_def cbind_ok_iff wf_client_def)
  have "pool_inv (ts_pool socket) (ae_opus ?enc, ae_sequence ?enc, ?udp, socket, cl_datagrams client)"
    using assms(2) by (simp add: pool_inv_def)
  from transport.write_inv [OF assms(3) [unfolded wf_client_def, THEN conjunct2] refl this w] assms(3)
  show ?thesis by (simp add: pool_inv_def c wf_client_def)
qed

lemma on_message_keeps:
  assumes "on_message lib malloc_ok sine version_of text_of type message (socket, client, out) = ok (socket', client', out')"
    and "wf_client client" and "wf_pool (ts_pool socket)"
  shows "ts_pool socket' = ts_pool socket \<and> wf_client client'"
  using assms
  by (auto simp: on_message_def send_tone_def cbind_ok_iff Let_def
      split: if_splits option.splits prod.splits dest: write_audio_keeps)

lemma internal_encoder:
  "mumble_message_internal lib clock type message client = Inr client' \<Longrightarrow>
     au_encoder (cl_audio client') = au_encoder (cl_audio client)"
  by (auto simp: mumble_message_internal_def mumble_audio_encryption_def rbind_Inr_iff
      split: option.splits if_splits prod.splits)

text \<open>The program keeps the contract of a user of the client, and so of the socket.\<close>

interpretation program: client_user lib clock "on_message lib malloc_ok' sine version_of text_of" on_audio wf_client
    peername now malloc_ok
  for lib :: "('s, 'd, 'e, 'm) libs" and clock peername now malloc_ok malloc_ok' sine version_of text_of
proof
  fix socket socket' :: "'s tcp_ssl" and client client' :: "('d, 'e) mumble_client" and out out' and type message
  assume "wf_client client" "wf_pool (ts_pool socket)"
    "on_message lib malloc_ok' sine version_of text_of type message (socket, client, out) = ok (socket', client', out')"
  then show "ts_pool socket' = ts_pool socket \<and> wf_client client'" using on_message_keeps by blast
qed (auto simp: wf_client_def on_audio_def mumble_audio_start_def rbind_Inr_iff dest: internal_encoder client_write_keeps)

lemma create_encoder_buffer:
  "mumble_codec_opus_create_encoder struct_ok create buffer_size (Some mem) mem2 mem3 rate ms app = Inr codec \<Longrightarrow>
     length mem = nat (buffer_size rate ms) \<Longrightarrow> 0 < buffer_size rate ms \<Longrightarrow> wf_buffer (oe_buffer codec)"
  by (auto simp: mumble_codec_opus_create_encoder_def mumble_buffer_create_def rbind_Inr_iff wf_buffer_def Let_def
      split: option.splits if_splits)

lemma main_start_keeps:
  assumes "main_start ssl_init (Inr audio) mem1 mem2 creq_ok req_ok getaddrinfo = Inr (socket, client)"
  obtains socket0 where "ssl_init = Inr socket0" "ts_pool socket = ts_pool socket0"
    "au_encoder (cl_audio client) = au_encoder audio"
proof -
  from assms obtain socket0 where "ssl_init = Inr socket0" "ts_pool socket = ts_pool socket0"
    "au_encoder (cl_audio client) = au_encoder audio"
    by (auto simp: main_start_def mumble_client_init_def mumble_uv_ssl_set_data_def mumble_client_connect_def mumble_uv_ssl_connect_def rbind_Inr_iff
        mumble_client_set_on_audio_def mumble_client_set_on_message_def mumble_audio_set_cb_def mumble_uv_ssl_set_cb_def Let_def
        split: if_splits)
  then show thesis by (rule that)
qed

lemma word_of_int_small: "0 \<le> x \<Longrightarrow> x < 65536 \<Longrightarrow> uint (word_of_int x :: u16) = x"
  by (simp add: unsigned_of_int take_bit_int_eq_self)

lemma bit_15:
  assumes "0 \<le> x" and "x < 65536"
  shows "bit (x :: int) 15 \<longleftrightarrow> 32768 \<le> x"
proof (cases "x < 32768")
  case True
  with assms have "x div 32768 = 0" by simp
  with True show ?thesis by (simp add: bit_iff_odd)
next
  case False
  have "x div 32768 = 1 + (x - 32768) div 32768" using div_add_self2 [of 32768 "x - 32768"] by simp
  moreover have "(x - 32768) div 32768 = 0" using False assms by simp
  ultimately show ?thesis using False by (simp add: bit_iff_odd)
qed

section \<open>Properties\<close>

text \<open>
  However the server and the network behave, whatever messages and audio the program handles, the buffers of
  its socket that are out after any number of reads are those of the reads without data: the handshake, the login, the
  callbacks and the tone give back all they take. A run that is still going has seen at most four such reads.
\<close>

theorem program_pool_balanced:
  assumes "main_start (mumble_uv_ssl_init 0 True 1 (Some s) True m) (Inr audio) mem1 mem2 creq_ok req_ok getaddrinfo
      = Inr (socket, client)"
    and "inj_on m {..<4}"
    and "mumble_audio_init array_ok m' mem struct_ok create buffer_size (Some pcm) mem3 mem4 struct_ok' created = Inr audio"
    and "length pcm = nat (buffer_size 48000 20)" and "0 < buffer_size 48000 20"
    and "tcp_reads ssl try_write
        (mumble_message_cb_adapter lib clock (on_message lib malloc_ok sine version_of text_of) on_audio)
        (mumble_connect_cb_adapter lib peername clock now malloc_ok) reads (socket, client, [])
      = ok (socket', client', out)"
  shows "card (held (ts_pool socket')) = length (filter (\<lambda>r. fst r \<le> 0) reads)
    \<and> length (filter (\<lambda>r. fst r \<le> 0) reads) \<le> 4"
proof -
  obtain socket0 where s0: "mumble_uv_ssl_init 0 True 1 (Some s) True m = Inr socket0"
    "ts_pool socket = ts_pool socket0" and enc: "au_encoder (cl_audio client) = au_encoder audio"
    by (rule main_start_keeps [OF assms(1)])
  obtain p where p: "buffer_pool_init 4 (16 * 1024) True m = Inr p" and s: "ts_pool socket = p"
    using s0 by (auto simp: mumble_uv_ssl_init_def rbind_Inr_iff)
  note w = wf_pool_init [OF p assms(2)]
  have wf: "wf_pool (ts_pool socket)" using w s by simp
  have "wf_client client"
    using assms(3-5) by (auto simp: wf_client_def enc mumble_audio_init_def mumble_audio_encoder_init_def
        mumble_audio_encoder_set_cb_def rbind_Inr_iff
        intro: create_encoder_buffer)
  then have "case (client, []) of (client, out) \<Rightarrow> wf_client client" by simp
  from program.socket.reads_balanced [OF assms(6) wf this] w s show ?thesis
    using held_card [of "ts_pool socket'"] by (auto simp: wf_pool_def)
qed

text \<open>
  The tone's samples are those of a sine between 0 and 65534, and the encoder takes them for signed
  ones: every positive value of the sine, from 1/32767 on, becomes a negative sample.
\<close>

theorem tone_is_unsigned:
  assumes "-1 \<le> s" and "s \<le> 1"
  shows "uint (bit_sample s) = \<lfloor>(s + 1) * 32767\<rfloor> \<and> (sint (bit_sample s) < 0 \<longleftrightarrow> 1 / 32767 \<le> s)"
proof -
  let ?x = "\<lfloor>(s + 1) * 32767\<rfloor>"
  have "0 \<le> (s + 1) * 32767" "(s + 1) * 32767 \<le> 65534" using assms by simp_all
  then have x: "0 \<le> ?x" "?x \<le> 65534" by linarith+
  moreover have eq: "bit_sample s = word_of_int ?x" unfolding bit_sample_def by (rule arg_cong [of _ _ "\<lambda>r. word_of_int \<lfloor>(s + 1) * r\<rfloor>"]) simp
  ultimately have u: "uint (bit_sample s) = ?x" using word_of_int_small [of ?x] by simp
  have "sint (bit_sample s) < 0 \<longleftrightarrow> 32768 \<le> ?x"
    using u x bit_15 [of ?x] by (simp add: sint_uint)
  also have "\<dots> \<longleftrightarrow> 1 / 32767 \<le> s"
    by (simp add: le_floor_iff field_simps)
  finally show ?thesis using u by simp
qed


section \<open>Examples\<close>

theorem tone_is_unsigned_witness:
  "uint (bit_sample (1 / 2)) = 49150 \<and> sint (bit_sample (1 / 2)) < 0"
  using tone_is_unsigned [of "1 / 2"] by simp

text \<open>Two bytes of a frame arrive, then a read without data.\<close>

theorem program_pool_balanced_witness:
  "\<exists>socket client socket' client'.
     main_start (mumble_uv_ssl_init 0 True 1 (Some []) True (\<lambda>i. Some i))
       (mumble_audio_init True (\<lambda>i. Some i) (\<lambda>a. replicate 1024 0) True (\<lambda>app. Some ()) (\<lambda>rate ms. 4)
         (Some [0, 0, 0, 0]) (Some [0, 0, 0, 0]) (Some [0, 0, 0, 0]) True (Some ()))
       (Some (replicate (2 ^ 20) 0)) (Some (replicate (2 ^ 20) 0)) True True (\<lambda>host port. 0) = Inr (socket, client)
     \<and> tcp_reads example_ssl (\<lambda>r. int (length r))
         (mumble_message_cb_adapter example_lib 0 (on_message example_lib True (\<lambda>r f i. 0) (\<lambda>m. (0, [])) (\<lambda>m. (0, []))) on_audio)
         (mumble_connect_cb_adapter example_lib (0, [], 0) 0 0 True) [(2, [0, 3]), (0, [])] (socket, client, [])
       = ok (socket', client', [])
     \<and> card (held (ts_pool socket')) = 1"
proof -
  let ?lib = "example_lib" and ?mem = "Some (replicate (2 ^ 20) 0)"
  let ?ssl = "mumble_uv_ssl_init 0 True 1 (Some ([] :: bytes list)) True (\<lambda>i. Some i)"
  let ?audio = "mumble_audio_init True (\<lambda>i. Some i) (\<lambda>a. replicate 1024 0) True (\<lambda>app. Some ()) (\<lambda>rate ms. 4)
         (Some [0, 0, 0, 0]) (Some [0, 0, 0, 0]) (Some [0, 0, 0, 0]) True (Some ()) :: (unit, unit) mumble_audio res"
  let ?om = "on_message ?lib True (\<lambda>r f i. 0) (\<lambda>m. (0, [])) (\<lambda>m. (0, []))"
  let ?read = "mumble_message_cb_adapter ?lib 0 ?om on_audio" and ?con = "mumble_connect_cb_adapter ?lib (0, [], 0) 0 0 True"
  obtain p0 where pool: "buffer_pool_init 4 16384 True (\<lambda>i. Some i) = Inr p0"
    by (simp add: buffer_pool_init_def list_all_iff)
  note p0 = wf_pool_init [OF pool]
  obtain audio where audio: "?audio = Inr audio"
    by (simp add: mumble_audio_init_def uv_udp_ssl_init_def buffer_pool_init_def mumble_audio_encoder_init_def
        mumble_codec_opus_create_encoder_def mumble_buffer_create_def codec_buf_init_def mumble_audio_decoder_init_def
        mumble_codec_opus_create_decoder_def mumble_udp_ping_init_def mumble_udp_ping_init_ex_def Let_def list_all_iff)
  obtain socket client where start: "main_start ?ssl (Inr audio) ?mem ?mem True True (\<lambda>host port. 0) = Inr (socket, client)"
    and socket: "ts_pool socket = p0" "ts_ssl socket = []" "ts_has_cb socket" "ts_creq socket = Some True"
    and client: "cl_decoder client = example_frames []"
    by (simp add: main_start_def mumble_client_init_def mumble_uv_ssl_set_data_def mumble_uv_ssl_init_def pool mumble_frame_init_def
        mumble_frame_encoder_init_def mumble_client_connect_def mumble_uv_ssl_connect_def mumble_uv_ssl_set_cb_def
        mumble_client_set_on_audio_def mumble_client_set_on_message_def example_frames_def Let_def)
  obtain ctx where append: "mumble_frame_append (cl_decoder client) [0, 3] = Inr (mumble_frame_ready ctx, ctx)"
    and ctx: "wf_frame_ctx ctx" "fc_data ctx = [0, 3]"
    using frame_append_data [of "example_frames []" "[0, 3]"] example_frames_ok [of "[]"]
    by (auto simp: client example_frames_def)
  have "\<not> mumble_frame_ready ctx" using ctx by (simp add: frame_ready_data data_total_def data_size_def)
  then have read: "?read [0, 3] (sock, client, []) = ok (sock, client\<lparr>cl_decoder := ctx\<rparr>, [])" for sock
    by (simp add: mumble_message_cb_adapter_def append message_loop.simps)
  let ?client = "client\<lparr>cl_decoder := ctx\<rparr>" and ?tw = "\<lambda>r :: bytes. int (length r)"
  have "tcp_room socket" using p0 by (simp add: tcp_room_def socket(1))
  then obtain a p1 where a: "buffer_pool_acquire p0 = (Some a, p1)"
    using tcp_borrow [of socket thesis] by (auto simp: socket(1))
  have "tcp_receive example_ssl ?tw ?read ?con (int (length [0, 3 :: byte]), [0, 3]) (socket, client, []) = ok (socket, ?client, [])"
    by (rule example_read [OF _ _ socket(2-4)]) (use p0 read in \<open>simp_all add: socket(1)\<close>)
  moreover have "tcp_receive example_ssl ?tw ?read ?con (0, []) (socket, ?client, []) = ok (socket\<lparr>ts_pool := p1\<rparr>, ?client, [])"
    by (simp add: tcp_receive_def default_alloc_cb_def a uv_ssl_read_cb_def socket(1))
  ultimately have reads: "tcp_reads example_ssl ?tw ?read ?con [(2, [0, 3]), (0, [])] (socket, client, [])
      = ok (socket\<lparr>ts_pool := p1\<rparr>, ?client, [])"
    by simp
  have "card (held (ts_pool (socket\<lparr>ts_pool := p1\<rparr>))) = 1"
    using program_pool_balanced [OF start _ audio _ _ reads] by simp
  with start reads show ?thesis unfolding audio by blast
qed

end
