(* ===== verification/Event_Loop.thy ===== *)
theory Event_Loop
  imports Main_Program
begin

text \<open>
  Whole runs of the program: what libuv's event loop, which \<^verbatim>\<open>main\<close> runs last, makes of the callbacks of all the
  components. An event is what libuv reports; everything the outside world contributes is in it: the time, what is read, the
  status of the connection.

  A state is the time of the loop in milliseconds, the socket, the client and what has been printed. The time never passes a timer
  that is due. The program never stops: a run ends with a fault or in a callback that never returns.
\<close>

record ('s, 'd, 'e, 'm) world =
  w_lib :: "('s, 'd, 'e, 'm) libs"
  w_decipher :: block_cipher
  w_malloc_ok :: bool
  w_sine :: "nat \<Rightarrow> nat \<Rightarrow> nat \<Rightarrow> real"
  w_version_of :: "'m \<Rightarrow> u32 \<times> string"
  w_text_of :: "'m \<Rightarrow> u32 \<times> string"
  w_peername :: "int \<times> bytes \<times> int"

text \<open>\<open>now\<close> is what \<open>time(NULL)\<close> returns; the pinger reads it twice.\<close>

datatype loop_event =
    Time nat
  | Connected int int u64
  | Tcp_read int bytes u64
  | Datagram bytes
  | Client_ping u64
  | Udp_ping u64 u64
  | Udp_ping_late

type_synonym ('s, 'd, 'e) program_state = "nat \<times> ('s, 'd, 'e, printed list) client_state"

section \<open>The callbacks of an event\<close>

definition on_read :: "('s, 'd, 'e, 'm) world \<Rightarrow> nat \<Rightarrow> ('s, ('d, 'e) mumble_client \<times> printed list) read_cb" where
  "on_read W clock = mumble_message_cb_adapter (w_lib W) clock
     (on_message (w_lib W) (w_malloc_ok W) (w_sine W) (w_version_of W) (w_text_of W)) on_audio"

definition on_connect :: "('s, 'd, 'e, 'm) world \<Rightarrow> nat \<Rightarrow> u64 \<Rightarrow> ('s, ('d, 'e) mumble_client \<times> printed list) connect_cb" where
  "on_connect W clock now = mumble_connect_cb_adapter (w_lib W) (w_peername W) clock now (w_malloc_ok W)"

definition set_pinger :: "udp_ping \<Rightarrow> ('d, 'e) mumble_client \<Rightarrow> ('d, 'e) mumble_client" where
  "set_pinger pinger client = client\<lparr>cl_audio := (cl_audio client)\<lparr>au_pinger := pinger\<rparr>\<rparr>"

abbreviation pinger_of :: "('d, 'e) mumble_client \<Rightarrow> udp_ping" where
  "pinger_of client \<equiv> au_pinger (cl_audio client)"

abbreviation ping_due :: "('d, 'e) mumble_client \<Rightarrow> nat option" where
  "ping_due client \<equiv> map_option fst (cl_ping_timer client)"

text \<open>The keepalive's timer, armed again by the repeat it was started with.\<close>

definition ping_again :: "nat \<Rightarrow> ('d, 'e) mumble_client \<Rightarrow> ('d, 'e) mumble_client" where
  "ping_again t client = client\<lparr>cl_ping_timer := map_option (\<lambda>(due, repeat). (t + repeat, repeat)) (cl_ping_timer client)\<rparr>"

lemma ping_again_simps [simp]:
  "cl_audio (ping_again t client) = cl_audio client" "cl_decoder (ping_again t client) = cl_decoder client"
  "cl_encoder (ping_again t client) = cl_encoder client"
  "cl_ping_timer (ping_again t client) = map_option (\<lambda>(due, repeat). (t + repeat, repeat)) (cl_ping_timer client)"
  by (simp_all add: ping_again_def)

text \<open>A timer that repeats is armed again before its callback runs, one that does not is disarmed.\<close>

fun handle :: "('s, 'd, 'e, 'm) world \<Rightarrow> loop_event \<Rightarrow> ('s, 'd, 'e) program_state \<Rightarrow> ('s, 'd, 'e) program_state comp" where
  "handle W (Time t') (t, st) = ok (t', st)"
| "handle W (Connected status read_start now) (t, st) =
     (case ts_creq (fst st) of None \<Rightarrow> faults Null_deref
      | Some has_cb \<Rightarrow>
          cbind (uv_ssl_connect_cb (lib_ssl (w_lib W)) (lib_try_write (w_lib W)) (on_connect W t now) status read_start has_cb st)
            (\<lambda>st. ok (t, st)))"
| "handle W (Tcp_read nread data now) (t, st) =
     cbind (tcp_receive (lib_ssl (w_lib W)) (lib_try_write (w_lib W)) (on_read W t) (on_connect W t now) (nread, data) st)
       (\<lambda>st. ok (t, st))"
| "handle W (Datagram packet) (t, socket, client, out) =
     cbind (audio_udp_receive (lib_aes (w_lib W)) (w_decipher W) (lib_opus_decode (w_lib W)) (lib_nb_samples (w_lib W))
         (lib_malloc_ok (w_lib W)) packet (cl_audio client)) (\<lambda>(audio, decoded).
     let client = client\<lparr>cl_audio := audio\<rparr> in
     cbind (case decoded of None \<Rightarrow> ok (socket, client, out)
            | Some voice \<Rightarrow> mumble_on_audio on_audio voice (socket, client, out)) (\<lambda>st. ok (t, st)))"
| "handle W (Client_ping now) (t, socket, client, out) =
     cbind (Some (mumble_client_on_ping (w_lib W) now socket (ping_again t client))) (\<lambda>(socket, client).
     ok (t, socket, client, out))"
| "handle W (Udp_ping t1 t2) (t, socket, client, out) =
     (let ping = pinger_of client in
      cbind (Some (period_timer_cb (lib_aes (w_lib W)) (lib_try_send (w_lib W)) t1 t2 t
          (ping\<lparr>pg_period_due := Some (t + pg_period ping)\<rparr>) (au_udp (cl_audio client)))) (\<lambda>(ping, udp, packet).
      ok (t, socket, client\<lparr>cl_audio := (cl_audio client)\<lparr>au_pinger := ping, au_udp := udp\<rparr>,
        cl_datagrams := cl_datagrams client @ [packet]\<rparr>, out)))"
| "handle W Udp_ping_late (t, socket, client, out) =
     ok (t, socket, set_pinger (reply_timer_cb ((pinger_of client)\<lparr>pg_reply_due := None\<rparr>)) client, out)"

definition due :: "nat option \<Rightarrow> nat \<Rightarrow> bool" where
  "due timer t \<longleftrightarrow> (case timer of None \<Rightarrow> False | Some d \<Rightarrow> d \<le> t)"

lemma due_simps [simp]: "\<not> due None t" "due (Some d) t \<longleftrightarrow> d \<le> t"
  by (simp_all add: due_def)

fun enabled :: "loop_event \<Rightarrow> ('s, 'd, 'e) program_state \<Rightarrow> bool" where
  "enabled (Time t') (t, socket, client, out) \<longleftrightarrow> t \<le> t' \<and> not_before (ping_due client) t'
     \<and> not_before (pg_period_due (pinger_of client)) t' \<and> not_before (pg_reply_due (pinger_of client)) t'"
| "enabled (Client_ping now) (t, socket, client, out) \<longleftrightarrow> due (ping_due client) t"
| "enabled (Udp_ping t1 t2) (t, socket, client, out) \<longleftrightarrow> due (pg_period_due (pinger_of client)) t"
| "enabled Udp_ping_late (t, socket, client, out) \<longleftrightarrow> due (pg_reply_due (pinger_of client)) t"
| "enabled e s \<longleftrightarrow> True"

text \<open>The runs all of whose steps satisfy \<open>Q\<close>.\<close>

inductive program_run ::
    "('s, 'd, 'e, 'm) world \<Rightarrow> (loop_event \<Rightarrow> ('s, 'd, 'e) program_state \<Rightarrow> ('s, 'd, 'e) program_state \<Rightarrow> bool)
      \<Rightarrow> ('s, 'd, 'e) program_state \<Rightarrow> loop_event list \<Rightarrow> ('s, 'd, 'e) program_state \<Rightarrow> bool"
    for W Q where
  nil: "program_run W Q s [] s"
| snoc: "program_run W Q s es s' \<Longrightarrow> enabled e s' \<Longrightarrow> handle W e s' = ok s'' \<Longrightarrow> Q e s' s''
    \<Longrightarrow> program_run W Q s (es @ [e]) s''"

inductive_cases program_run_snocE: "program_run W Q s (es @ [e]) s'"

abbreviation any_step :: "loop_event \<Rightarrow> 'a \<Rightarrow> 'b \<Rightarrow> bool" where
  "any_step e s s' \<equiv> True"

lemma program_run_invariant:
  assumes "program_run W Q s es s'" and "I s"
    and "\<And>e s s'. I s \<Longrightarrow> enabled e s \<Longrightarrow> handle W e s = ok s' \<Longrightarrow> Q e s s' \<Longrightarrow> I s'"
  shows "I s'"
  using assms(1,2) by (induction rule: program_run.induct) (auto intro: assms(3))

lemma program_run_append:
  "program_run W Q b es' c \<Longrightarrow> program_run W Q a es b \<Longrightarrow> program_run W Q a (es @ es') c"
proof (induction rule: program_run.induct)
  case (snoc b es1 s1 e s2)
  then have "program_run W Q a (es @ es1) s1" by simp
  from program_run.snoc [OF this snoc.hyps(2-4)] show ?case by simp
qed simp

section \<open>The invariant of the program\<close>

text \<open>The timers, none of which is overdue or farther away than its period.\<close>

definition timers_ok :: "nat \<Rightarrow> ('d, 'e) mumble_client \<Rightarrow> bool" where
  "timers_ok t client \<longleftrightarrow> ping_inv (t, pinger_of client, au_udp (cl_audio client))
     \<and> pg_period (pinger_of client) = 5000 \<and> pg_timeout (pinger_of client) = 1000
     \<and> (pg_connected (pinger_of client) \<or> pg_waiting (pinger_of client) \<longrightarrow> pg_period_due (pinger_of client) \<noteq> None)
     \<and> not_before (ping_due client) t
     \<and> (\<forall>d r. cl_ping_timer client = Some (d, r) \<longrightarrow> r = 30000 \<and> d \<le> t + 30000)"

definition program_inv :: "('s, 'd, 'e) program_state \<Rightarrow> bool" where
  "program_inv s \<longleftrightarrow> (case s of (t, socket, client, out) \<Rightarrow>
     wf_pool (ts_pool socket) \<and> p_count (ts_pool socket) = 4 \<and> p_size (ts_pool socket) = 16 * 1024
     \<and> client_ok client \<and> timers_ok t client)"

lemma timers_start:
  "timers_ok t client \<Longrightarrow> mumble_message_internal lib t type message client = Inr client' \<Longrightarrow> timers_ok t client'"
  by (auto simp: mumble_message_internal_def mumble_audio_encryption_def mumble_udp_ping_start_def rbind_Inr_iff
      timers_ok_def ping_inv_def split: option.splits if_splits prod.splits)


lemma timers_connect:
  "timers_ok t client \<Longrightarrow> mumble_audio_start peername (cl_audio client) = Inr audio \<Longrightarrow>
     timers_ok t (client\<lparr>cl_audio := audio, cl_ping_timer := Some (t + 15000, 30000)\<rparr>)"
  by (auto simp: mumble_audio_start_def mumble_udp_ping_address_def rbind_Inr_iff timers_ok_def ping_inv_def)

text \<open>The timers are read off the pinger and the client's own timer.\<close>

lemma timers_ok_cong:
  "pinger_of client' = pinger_of client \<Longrightarrow> cl_ping_timer client' = cl_ping_timer client
    \<Longrightarrow> timers_ok t client' = timers_ok t client"
  by (simp add: timers_ok_def ping_inv_def)

lemma on_message_ok:
  assumes "on_message lib malloc_ok sine version_of text_of type message (socket, client, out) = ok (socket', client', out')"
    and "client_ok client" and "wf_pool (ts_pool socket)"
  shows "ts_pool socket' = ts_pool socket \<and> client_ok client' \<and> pinger_of client' = pinger_of client
    \<and> cl_ping_timer client' = cl_ping_timer client"
  using assms
  by (auto simp: on_message_def send_tone_def cbind_ok_iff Let_def
      split: if_splits option.splits prod.splits dest: write_audio_ok)

lemma start_ok:
  "mumble_audio_start peername (cl_audio client) = Inr audio \<Longrightarrow> client_ok client \<Longrightarrow>
     client_ok (client\<lparr>cl_audio := audio, cl_ping_timer := d\<rparr>)"
  by (auto simp: mumble_audio_start_def mumble_udp_ping_address_def rbind_Inr_iff client_ok_def audio_ok_def wf_ping_def)

interpretation looping: client_user lib clock "on_message lib malloc_ok' sine version_of text_of" on_audio
    "\<lambda>client. client_ok client \<and> timers_ok clock client" peername now malloc_ok
  for lib :: "('s, 'd, 'e, 'm) libs" and clock peername now malloc_ok malloc_ok' sine version_of text_of
proof
  fix socket socket' :: "'s tcp_ssl" and client client' :: "('d, 'e) mumble_client" and out out' and type message
  assume "client_ok client \<and> timers_ok clock client" "wf_pool (ts_pool socket)"
    "on_message lib malloc_ok' sine version_of text_of type message (socket, client, out) = ok (socket', client', out')"
  then show "ts_pool socket' = ts_pool socket \<and> client_ok client' \<and> timers_ok clock client'"
    using on_message_ok timers_ok_cong by blast
next
  fix client client' :: "('d, 'e) mumble_client" and type message
  assume "client_ok client \<and> timers_ok clock client" "mumble_message_internal lib clock type message client = Inr client'"
  then show "client_ok client' \<and> timers_ok clock client'" using internal_ok timers_start by blast
next
  fix client :: "('d, 'e) mumble_client" and voice
  assume "client_ok client \<and> timers_ok clock client"
  then show "client_ok (client\<lparr>cl_audio := (cl_audio client)\<lparr>au_decoder := voice\<rparr>\<rparr>)
    \<and> timers_ok clock (client\<lparr>cl_audio := (cl_audio client)\<lparr>au_decoder := voice\<rparr>\<rparr>)"
    using timers_ok_cong [of "client\<lparr>cl_audio := (cl_audio client)\<lparr>au_decoder := voice\<rparr>\<rparr>" client clock]
    by (simp add: voice_ok)
next
  fix socket socket' :: "'s tcp_ssl" and client client' :: "('d, 'e) mumble_client" and msg
  assume "client_ok client \<and> timers_ok clock client" "wf_pool (ts_pool socket)"
    "mumble_client_write lib msg socket client = Inr (socket', client')"
  then show "ts_pool socket' = ts_pool socket \<and> client_ok client' \<and> timers_ok clock client'"
    using write_ok timers_ok_cong by metis
qed (auto simp: on_audio_def intro: append_ok pop_ok start_ok timers_connect timers_ok_cong [THEN iffD2])


lemma udp_cb_fields:
  assumes "udp_cb od nb mok data audio = ok (audio', decoded)"
  shows "au_encoder audio' = au_encoder audio \<and> au_udp audio' = au_udp audio \<and> au_has_cb audio' = au_has_cb audio
    \<and> au_pinger audio' \<in> insert (au_pinger audio) (range (mumble_udp_ping_recv (au_pinger audio)))"
proof -
  from assms obtain header where h: "peek data 0 1 = Inr header" by (auto simp: udp_cb_def cbind_ok_iff)
  show ?thesis
  proof (cases "header ! 0 = 0x20")
    case True
    with assms h obtain ret ts where "audio' = audio\<lparr>au_pinger := mumble_udp_ping_recv (au_pinger audio) ts\<rparr>"
      by (auto simp: udp_cb_def cbind_ok_iff split: if_splits)
    then show ?thesis by simp
  next
    case False
    with assms h obtain decoder where "audio' = audio\<lparr>au_decoder := decoder\<rparr>"
      by (auto simp: udp_cb_def cbind_ok_iff split: if_splits)
    then show ?thesis by simp
  qed
qed

lemma recv_wf: "q \<in> insert p (range (mumble_udp_ping_recv p)) \<Longrightarrow> wf_ping p \<Longrightarrow> wf_ping q"
  by (auto simp: wf_ping_def mumble_udp_ping_recv_def)

lemma udp_receive_audio:
  assumes "audio_udp_receive E D od nb mok packet audio = ok (audio', decoded)" and "audio_ok audio"
  shows "audio_ok audio' \<and> au_pinger audio' \<in> insert (au_pinger audio) (range (mumble_udp_ping_recv (au_pinger audio)))"
proof -
  from assms(1) obtain udp data where u: "udp_receive E D (au_udp audio) packet = Inr (udp, data)"
    and r: "(case data of None \<Rightarrow> ok (audio\<lparr>au_udp := udp\<rparr>, None)
     | Some d \<Rightarrow> udp_cb od nb mok d (audio\<lparr>au_udp := udp\<rparr>)) = ok (audio', decoded)"
    by (auto simp: audio_udp_receive_def cbind_ok_iff)
  have idle: "udp_idle udp" using udp_receive_keeps [OF u] assms(2) by (simp add: audio_ok_def)
  show ?thesis
  proof (cases data)
    case None
    with r idle assms(2) show ?thesis by (auto simp: audio_ok_def)
  next
    case (Some d)
    with r have "udp_cb od nb mok d (audio\<lparr>au_udp := udp\<rparr>) = ok (audio', decoded)" by simp
    from udp_cb_fields [OF this] idle assms(2) recv_wf [of "au_pinger audio'" "au_pinger audio"] show ?thesis
      by (simp add: audio_ok_def)
  qed
qed

lemma recv_timers:
  "timers_ok t client \<Longrightarrow> pinger_of client' = mumble_udp_ping_recv (pinger_of client) ts
    \<Longrightarrow> cl_ping_timer client' = cl_ping_timer client \<Longrightarrow> timers_ok t client'"
  by (auto simp: timers_ok_def ping_inv_def mumble_udp_ping_recv_def)

lemma period_timer_ok:
  assumes "period_timer_cb E try_send t1 t2 clock p c = Inr (p', c', packet)" and "wf_ping p" and "udp_idle c"
  shows "wf_ping p' \<and> udp_idle c'"
proof -
  let ?q = "udp_ping_attempt_init t1 p"
  have q: "wf_ping ?q" using assms(2) by (simp add: wf_ping_def udp_ping_attempt_init_def)
  obtain tail written where e: "varint_encode t2 (drop 1 (pg_buf ?q)) (8 - 2) 0 = Inr (0, tail, written)"
    and w: "uv_udp_ssl_write E try_send c (take (nat (written + 1)) (take 1 (pg_buf ?q) @ tail)) (nat (written + 1)) = Inr (c', packet)"
    and p: "p' = ?q\<lparr>pg_buf := take 1 (pg_buf ?q) @ tail, pg_reply_due := Some (clock + pg_timeout ?q)\<rparr>"
    using assms(1) by (auto simp: period_timer_cb_def Let_def rbind_Inr_iff split: if_splits)
  have "length tail = 7"
    using e ping_encode [OF q, of t2] varint_size_6 [of t2] q
    by (auto simp: varint_encode_size_eq wf_ping_def split: if_splits)
  moreover have "take 1 (pg_buf ?q) = [0x20]" using q by (cases "pg_buf ?q") (simp_all add: wf_ping_def)
  ultimately have p': "wf_ping p'" using q by (simp add: p wf_ping_def)
  from udp_write_keeps [OF w assms(3)] p' show ?thesis by simp
qed


fun idle_read :: "loop_event \<Rightarrow> bool" where
  "idle_read (Tcp_read nread data now) \<longleftrightarrow> nread \<le> 0"
| "idle_read e \<longleftrightarrow> False"

text \<open>One step: the invariant, and the buffers of the socket that are out.\<close>

definition keeps :: "bool \<Rightarrow> ('s, 'd, 'e) program_state \<Rightarrow> ('s, 'd, 'e) program_state \<Rightarrow> bool" where
  "keeps idle s s' \<longleftrightarrow> program_inv s' \<and> card (held (ts_pool (fst (snd s')))) =
     card (held (ts_pool (fst (snd s)))) + (if idle then 1 else 0)"

lemma keeps_pool:
  "program_inv (t, socket, client, out) \<Longrightarrow> ts_pool socket' = ts_pool socket \<Longrightarrow> client_ok client' \<Longrightarrow> timers_ok t' client'
    \<Longrightarrow> keeps False (t, socket, client, out) (t', socket', client', out')"
  by (simp add: keeps_def program_inv_def)

lemma connected_keeps:
  assumes "handle W (Connected status rs now) (t, socket, client, out) = ok s'" and "program_inv (t, socket, client, out)"
  shows "keeps False (t, socket, client, out) s'"
proof -
  let ?ssl = "lib_ssl (w_lib W)" and ?tw = "lib_try_write (w_lib W)"
  obtain has_cb socket' client' out' where s': "s' = (t, socket', client', out')"
    and h: "uv_ssl_handshake ?ssl ?tw (on_connect W t now) has_cb (socket, client, out) = ok (socket', client', out')"
    using assms(1) by (auto simp: uv_ssl_connect_cb_def cbind_ok_iff split: option.splits if_splits)
  have inv: "wf_pool (ts_pool socket)" "client_ok client \<and> timers_ok t client"
    using assms(2) by (simp_all add: program_inv_def)
  from looping.socket.handshake_balanced [OF h [unfolded on_connect_def] inv(1)] inv(2)
  have "ts_pool socket' = ts_pool socket \<and> client_ok client' \<and> timers_ok t client'" by simp
  with assms(2) show ?thesis by (simp add: s' keeps_pool)
qed

lemma tcp_read_keeps:
  assumes "handle W (Tcp_read nread data now) (t, socket, client, out) = ok s'" and "program_inv (t, socket, client, out)"
  shows "keeps (nread \<le> 0) (t, socket, client, out) s'"
proof -
  let ?ssl = "lib_ssl (w_lib W)" and ?tw = "lib_try_write (w_lib W)"
  obtain socket' client' out' where s': "s' = (t, socket', client', out')"
    and h: "tcp_receive ?ssl ?tw (on_read W t) (on_connect W t now) (nread, data) (socket, client, out) = ok (socket', client', out')"
    using assms(1) by (auto simp: cbind_ok_iff)
  have inv: "wf_pool (ts_pool socket)" "client_ok client \<and> timers_ok t client" "p_count (ts_pool socket) = 4"
    "p_size (ts_pool socket) = 16 * 1024"
    using assms(2) by (simp_all add: program_inv_def)
  from looping.socket.receive_balanced [OF h [unfolded on_read_def on_connect_def] inv(1)] inv(2-4)
  show ?thesis by (auto simp: s' keeps_def program_inv_def)
qed

lemma datagram_keeps:
  assumes "handle W (Datagram packet) (t, socket, client, out) = ok s'" and "program_inv (t, socket, client, out)"
  shows "keeps False (t, socket, client, out) s' \<and> fst (snd s') = socket"
proof -
  obtain audio decoded out' where
    r: "audio_udp_receive (lib_aes (w_lib W)) (w_decipher W) (lib_opus_decode (w_lib W)) (lib_nb_samples (w_lib W))
         (lib_malloc_ok (w_lib W)) packet (cl_audio client) = ok (audio, decoded)"
    and s': "s' = (t, socket, client\<lparr>cl_audio := audio\<rparr>, out')"
    using assms(1)
    by (auto simp: cbind_ok_iff Let_def mumble_on_audio_def on_audio_def split: option.splits if_splits)
  have inv: "client_ok client" "timers_ok t client" using assms(2) by (simp_all add: program_inv_def)
  note a = udp_receive_audio [OF r]
  have ok: "client_ok (client\<lparr>cl_audio := audio\<rparr>)" using a inv(1) by (simp add: client_ok_def)
  have "timers_ok t (client\<lparr>cl_audio := audio\<rparr>)"
    using a inv timers_ok_cong [of "client\<lparr>cl_audio := audio\<rparr>" client t] recv_timers [OF inv(2), of "client\<lparr>cl_audio := audio\<rparr>"]
    by (auto simp: client_ok_def)
  with assms(2) ok show ?thesis by (simp add: s' keeps_pool)
qed

lemma timers_again: "timers_ok t client \<Longrightarrow> timers_ok t (ping_again t client)"
  by (cases "cl_ping_timer client") (auto simp: timers_ok_def ping_inv_def)

lemma client_ping_keeps:
  assumes "handle W (Client_ping now) (t, socket, client, out) = ok s'" and "program_inv (t, socket, client, out)"
  shows "keeps False (t, socket, client, out) s'"
proof -
  let ?client = "ping_again t client"
  obtain msg socket' client' where w: "mumble_client_write (w_lib W) msg socket ?client = Inr (socket', client')"
    and s': "s' = (t, socket', client', out)"
    using assms(1) by (auto simp: cbind_ok_iff mumble_client_on_ping_def)
  have inv: "client_ok ?client" "timers_ok t ?client" "wf_pool (ts_pool socket)"
    using assms(2) by (simp_all add: program_inv_def client_ok_def timers_again)
  with write_ok [OF w inv(1,3)] timers_ok_cong [of client' ?client t] assms(2) show ?thesis
    by (simp add: s' keeps_pool)
qed

lemma udp_ping_keeps:
  assumes "handle W (Udp_ping t1 t2) (t, socket, client, out) = ok s'" and "program_inv (t, socket, client, out)"
    and "enabled (Udp_ping t1 t2) (t, socket, client, out)"
  shows "keeps False (t, socket, client, out) s'"
proof -
  let ?p = "(pinger_of client)\<lparr>pg_period_due := Some (t + pg_period (pinger_of client))\<rparr>"
  obtain p udp packet where
    r: "period_timer_cb (lib_aes (w_lib W)) (lib_try_send (w_lib W)) t1 t2 t ?p (au_udp (cl_audio client)) = Inr (p, udp, packet)"
    and s': "s' = (t, socket, client\<lparr>cl_audio := (cl_audio client)\<lparr>au_pinger := p, au_udp := udp\<rparr>,
        cl_datagrams := cl_datagrams client @ [packet]\<rparr>, out)"
    using assms(1) by (auto simp: cbind_ok_iff Let_def)
  have inv: "client_ok client" "timers_ok t client" using assms(2) by (simp_all add: program_inv_def)
  have "wf_ping ?p" "udp_idle (au_udp (cl_audio client))" using inv(1) by (simp_all add: client_ok_def audio_ok_def wf_ping_def)
  note ok = period_timer_ok [OF r this] and fields = period_timer_cb_fields [OF r]
  have "client_ok (client\<lparr>cl_audio := (cl_audio client)\<lparr>au_pinger := p, au_udp := udp\<rparr>,
        cl_datagrams := cl_datagrams client @ [packet]\<rparr>)"
    using inv(1) ok by (simp add: client_ok_def audio_ok_def)
  moreover have "timers_ok t (client\<lparr>cl_audio := (cl_audio client)\<lparr>au_pinger := p, au_udp := udp\<rparr>,
        cl_datagrams := cl_datagrams client @ [packet]\<rparr>)"
    using inv(2) fields by (auto simp: timers_ok_def ping_inv_def)
  ultimately show ?thesis using assms(2) by (simp add: s' keeps_pool)
qed

lemma udp_ping_late_keeps:
  assumes "program_inv (t, socket, client, out)"
  shows "keeps False (t, socket, client, out)
    (t, socket, set_pinger (reply_timer_cb ((pinger_of client)\<lparr>pg_reply_due := None\<rparr>)) client, out)"
  using assms
  by (auto simp: keeps_def program_inv_def client_ok_def audio_ok_def timers_ok_def ping_inv_def wf_ping_def set_pinger_def
      reply_timer_cb_def)

lemma time_keeps:
  "program_inv (t, socket, client, out) \<Longrightarrow> enabled (Time t') (t, socket, client, out) \<Longrightarrow>
     keeps False (t, socket, client, out) (t', socket, client, out)"
  by (auto simp: keeps_def program_inv_def timers_ok_def ping_inv_def)

lemma step_keeps:
  assumes "program_inv s" and "enabled e s" and "handle W e s = ok s'"
  shows "keeps (idle_read e) s s'"
proof -
  obtain t socket client out where s: "s = (t, socket, client, out)" by (cases s)
  show ?thesis
    using assms unfolding s
    by (cases e) (auto simp: time_keeps connected_keeps tcp_read_keeps datagram_keeps client_ping_keeps udp_ping_keeps
        udp_ping_late_keeps simp del: handle.simps(2-6) enabled.simps)
qed

end
