(* ===== verification/Program_Runs.thy ===== *)
theory Program_Runs
  imports Event_Loop
begin

text \<open>
  What single steps and whole runs of the program do: what \<^verbatim>\<open>main\<close> sets up satisfies the invariant, the
  callbacks of the timers return, a link without datagrams fades, the keepalive keeps its cadence, and the login's frames.
\<close>

section \<open>The start\<close>

lemma udp_start:
  assumes "uv_udp_ssl_init array_ok m mem = Inr udp" and "inj_on m {..<2}" and "\<And>a. length (mem a) = 1024"
  shows "udp_idle (uv_udp_ssl_set_cb udp True)"
proof -
  obtain p where p: "buffer_pool_init 2 1024 array_ok m = Inr p" and udp: "u_pool udp = p" "u_mem udp = mem"
    "u_cipher udp = \<lparr>key = zero_block, enc_iv = zero_block, dec_iv = zero_block, ivlen = 0, taglen = 0\<rparr>"
    using assms(1) by (auto simp: uv_udp_ssl_init_def rbind_Inr_iff)
  have "p_size p = 1024" using p by (auto simp: buffer_pool_init_def split: if_splits)
  with wf_pool_init [OF p assms(2)] assms(3) show ?thesis
    by (simp add: udp udp_idle_def wf_udp_def wf_ocb_def uv_udp_ssl_set_cb_def zero_block_def)
qed

lemma encoder_start:
  assumes "mumble_audio_encoder_init struct_ok create buffer_size (Some pcm) (Some out) (Some framed) rate ms app = Inr enc"
    and "length pcm = nat (buffer_size rate ms)" "0 < buffer_size rate ms"
    and "length framed = nat (buffer_size rate ms)" "buffer_size rate ms \<le> 0x2000"
  shows "wf_audio_encoder (mumble_audio_encoder_set_cb enc True)"
  using assms
  by (auto simp: mumble_audio_encoder_init_def mumble_codec_opus_create_encoder_def mumble_buffer_create_def codec_buf_init_def
      rbind_Inr_iff mumble_audio_encoder_set_cb_def wf_audio_encoder_def wf_opus_encoder_def wf_buffer_def Let_def split: option.splits if_splits)

lemma ping_start:
  assumes "mumble_udp_ping_init s = Inr p"
  shows "wf_ping p \<and> pg_period p = 5000 \<and> pg_timeout p = 1000 \<and> pg_period_due p = None \<and> pg_reply_due p = None
    \<and> \<not> pg_connected p \<and> \<not> pg_waiting p"
  using assms
  by (auto simp: mumble_udp_ping_init_def mumble_udp_ping_init_ex_def wf_ping_def split: if_splits)

lemma start_inv:
  assumes "main_start (mumble_uv_ssl_init tcp_init ctx_ok paths created tcp_array m)
      (mumble_audio_init udp_array m' mem struct_ok create buffer_size (Some pcm) (Some out) (Some framed) struct_ok' decoder)
      (Some mem1) (Some mem2) creq_ok req_ok getaddrinfo = Inr (socket, client)"
    and "inj_on m {..<4}" and "inj_on m' {..<2}" and "\<And>a. length (mem a) = 1024"
    and "0 < buffer_size 48000 20" and "buffer_size 48000 20 \<le> 0x2000"
    and "length pcm = nat (buffer_size 48000 20)" and "length framed = nat (buffer_size 48000 20)"
    and "length mem1 = MUMBLE_FRAME_MAX_SIZE" and "length mem2 = MUMBLE_FRAME_MAX_SIZE"
  shows "program_inv (0, socket, client, printed) \<and> held (ts_pool socket) = {}"
proof -
  obtain audio where audio: "mumble_audio_init udp_array m' mem struct_ok create buffer_size (Some pcm) (Some out) (Some framed)
      struct_ok' decoder = Inr audio"
    using assms(1) by (auto simp: main_start_def mumble_client_init_def mumble_uv_ssl_set_data_def rbind_Inr_iff)
  obtain socket0 where s0: "mumble_uv_ssl_init tcp_init ctx_ok paths created tcp_array m = Inr socket0"
    "ts_pool socket = ts_pool socket0"
    by (rule main_start_keeps [OF assms(1) [unfolded audio]])
  obtain p where p: "buffer_pool_init 4 (16 * 1024) tcp_array m = Inr p" "ts_pool socket = p"
    using s0 by (auto simp: mumble_uv_ssl_init_def rbind_Inr_iff split: if_splits option.splits)
  obtain udp enc dec ping where
    u: "uv_udp_ssl_init udp_array m' mem = Inr udp"
    and e: "mumble_audio_encoder_init struct_ok create buffer_size (Some pcm) (Some out) (Some framed) 48000 20 0 = Inr enc"
    and q: "mumble_udp_ping_init True = Inr ping"
    and a: "audio = \<lparr>au_udp = uv_udp_ssl_set_cb udp True, au_has_cb = False, au_decoder = mumble_audio_decoder_set_cb dec True,
          au_encoder = mumble_audio_encoder_set_cb enc True, au_addr = replicate 128 0, au_peer_addr_len = 0, au_pinger = ping\<rparr>"
    using audio by (auto simp: mumble_audio_init_def rbind_Inr_iff)
  have c: "cl_audio client = audio\<lparr>au_has_cb := True\<rparr>" "cl_ping_timer client = None"
    "cl_decoder client = \<lparr>fc_buffer = Some mem1, fc_allocated = MUMBLE_FRAME_MAX_SIZE, fc_size = 0\<rparr>"
    "cl_encoder client = \<lparr>fc_buffer = Some mem2, fc_allocated = MUMBLE_FRAME_MAX_SIZE, fc_size = 0\<rparr>"
    using assms(1) unfolding audio
    by (auto simp: main_start_def mumble_client_init_def mumble_uv_ssl_set_data_def rbind_Inr_iff mumble_client_set_on_audio_def
        mumble_client_set_on_message_def mumble_audio_set_cb_def mumble_frame_init_def mumble_frame_encoder_init_def)
  have "client_ok client"
    using udp_start [OF u assms(3,4)] encoder_start [OF e assms(7,5,8,6)] ping_start [OF q] assms(9,10)
    by (simp add: client_ok_def audio_ok_def c a wf_frame_ctx_def)
  moreover have "timers_ok 0 client"
    using ping_start [OF q] by (simp add: timers_ok_def ping_inv_def c a)
  moreover have "p_size p = 16 * 1024" using p(1) by (auto simp: buffer_pool_init_def split: if_splits)
  ultimately show ?thesis using wf_pool_init [OF p(1) assms(2)] p(2) by (simp add: program_inv_def)
qed

lemma run_inv:
  assumes "program_run W Q s es s'" and "program_inv s"
  shows "program_inv s' \<and> card (held (ts_pool (fst (snd s')))) =
    card (held (ts_pool (fst (snd s)))) + length (filter idle_read es)"
  using assms
proof (induction rule: program_run.induct)
  case (snoc s es s' e s'')
  then show ?case using step_keeps [of s' e W s''] by (simp add: keeps_def)
qed simp

section \<open>Timers\<close>

definition is_message :: "nat \<Rightarrow> pb_message \<Rightarrow> bool" where
  "is_message i msg \<longleftrightarrow> pb_package msg = ''MumbleProto'' \<and> pb_name msg = descriptor_names ! i
     \<and> 6 + length (pb_packed msg) \<le> MUMBLE_FRAME_MAX_SIZE"

lemma client_writes:
  assumes "client_ok client" and "is_message i msg" and "i < 26"
  obtains encoder where "client_ok (client\<lparr>cl_encoder := encoder\<rparr>)"
    "\<And>socket. mumble_client_write lib msg socket client =
       rbind (mumble_uv_ssl_write (lib_ssl lib) (lib_try_write lib) (frame_bytes (i, pb_packed msg)) socket)
         (\<lambda>socket'. Inr (socket', client\<lparr>cl_encoder := encoder\<rparr>))"
proof -
  have t: "get_message_type msg = Inr (int i)"
    using assms(2) find_descriptor [OF assms(3)] by (simp add: get_message_type_eq is_message_def)
  have enc: "wf_frame_ctx (cl_encoder client)" "6 + length (pb_packed msg) \<le> fc_allocated (cl_encoder client)"
    using assms(1,2) by (simp_all add: client_ok_def is_message_def)
  obtain encoder where e: "mumble_frame_encode (cl_encoder client) msg = Inr encoder" "wf_frame_ctx encoder"
    "fc_data encoder = frame_bytes (nat (int i), pb_packed msg)" "fc_allocated encoder = fc_allocated (cl_encoder client)"
    by (rule encode_data [OF enc(1) t _ enc(2)]) simp_all
  have "fc_size encoder \<le> length (fc_mem encoder)"
    using e(2) fc_mem_length [OF e(2)] by (simp add: wf_frame_ctx_def)
  then have "peek (fc_mem encoder) 0 (fc_size encoder) = Inr (frame_bytes (i, pb_packed msg))"
    using e(3) by (simp add: fc_data_def)
  with e assms(1) show thesis by (intro that [of encoder]) (simp_all add: mumble_client_write_def client_ok_def)
qed

text \<open>
  What is asked of OpenSSL and of libuv to write a short frame: OpenSSL makes records of it that fit the socket's buffers, and
  libuv takes them whole.
\<close>

definition tls_writes :: "('s, 'd, 'e, 'm) libs \<Rightarrow> bool" where
  "tls_writes lib \<longleftrightarrow> (\<forall>s buf. 6 \<le> length buf \<and> length buf \<le> 1024 \<longrightarrow> (case ssl_write (lib_ssl lib) s buf of (ret, records, s') \<Rightarrow>
     1 < ret \<and> records \<noteq> [] \<and> list_all (\<lambda>r. length r \<le> 16 * 1024 \<and> lib_try_write lib r = int (length r)) records))"

lemma tls_write_works:
  assumes "tls_writes lib" and "6 \<le> length buf" and "length buf \<le> 1024" and "wf_pool (ts_pool socket)" and "p_size (ts_pool socket) = 16 * 1024"
  shows "if card (held (ts_pool socket)) < p_count (ts_pool socket)
    then \<exists>records s. ssl_write (lib_ssl lib) (ts_ssl socket) buf = (fst (ssl_write (lib_ssl lib) (ts_ssl socket) buf), records, s)
      \<and> mumble_uv_ssl_write (lib_ssl lib) (lib_try_write lib) buf socket
        = Inr (socket\<lparr>ts_ssl := s, ts_sent := ts_sent socket @ records\<rparr>)
    else mumble_uv_ssl_write (lib_ssl lib) (lib_try_write lib) buf socket = Inl Assert_failed"
proof -
  obtain ret records s where w: "ssl_write (lib_ssl lib) (ts_ssl socket) buf = (ret, records, s)" by (cases "ssl_write (lib_ssl lib) (ts_ssl socket) buf")
  from assms(1) [unfolded tls_writes_def, rule_format, of buf "ts_ssl socket"] assms(2,3) w
  have r: "1 < ret" "records \<noteq> []" "list_all (\<lambda>r. length r \<le> 16 * 1024) records"
    "\<And>r. r \<in> set records \<Longrightarrow> lib_try_write lib r = int (length r)" by (auto simp: list_all_iff)
  show ?thesis
  proof (cases "card (held (ts_pool socket)) < p_count (ts_pool socket)")
    case True
    then have "tcp_room (socket\<lparr>ts_ssl := s\<rparr>)" using assms(4) by (simp add: tcp_room_def)
    from wbio_writes_sends [OF this r(4)] r(1,3) assms(5) True w show ?thesis
      by (simp add: mumble_uv_ssl_write_def)
  next
    case False
    obtain r0 rs where rs: "records = r0 # rs" using r(2) by (cases records) simp_all
    have "card (held (ts_pool socket)) \<le> p_count (ts_pool socket)"
      using held_card [OF assms(4)] assms(4) by (simp add: wf_pool_def)
    with False have "buffer_pool_acquire (ts_pool socket) = (None, ts_pool socket)"
      using held_card [OF assms(4)] by (simp add: buffer_pool_acquire_def)
    then show ?thesis
      using False by (simp add: mumble_uv_ssl_write_def w rs wbio_writes_def uv_ssl_wbio_cb_def)
  qed
qed


fun timer_event :: "loop_event \<Rightarrow> bool" where
  "timer_event (Time t) \<longleftrightarrow> True"
| "timer_event (Client_ping now) \<longleftrightarrow> True"
| "timer_event (Udp_ping t1 t2) \<longleftrightarrow> t2 < 0x100000000"
| "timer_event Udp_ping_late \<longleftrightarrow> True"
| "timer_event e \<longleftrightarrow> False"

lemma client_ping_works:
  assumes "client_ok client" and "wf_pool (ts_pool socket)" and "p_size (ts_pool socket) = 16 * 1024"
    and "tls_writes lib" and "\<And>has t. is_message 3 (lib_ping_msg lib has t)" and "\<And>has t. length (pb_packed (lib_ping_msg lib has t)) \<le> 1000"
  shows "if card (held (ts_pool socket)) < p_count (ts_pool socket)
    then \<exists>r. mumble_client_on_ping lib now socket client = Inr r
    else mumble_client_on_ping lib now socket client = Inl Assert_failed"
proof -
  let ?msg = "lib_ping_msg lib False (scast (ucast now :: i32))"
  obtain encoder where
    w: "mumble_client_write lib ?msg socket client =
       rbind (mumble_uv_ssl_write (lib_ssl lib) (lib_try_write lib) (frame_bytes (3, pb_packed ?msg)) socket)
         (\<lambda>socket'. Inr (socket', client\<lparr>cl_encoder := encoder\<rparr>))"
    by (rule client_writes [where lib = lib, OF assms(1) assms(5) [of False "scast (ucast now :: i32)"]]) simp_all
  then show ?thesis
    using tls_write_works [OF assms(4) _ _ assms(2,3), of "frame_bytes (3, pb_packed ?msg)"] assms(6) [of False "scast (ucast now :: i32)"]
    by (auto simp: mumble_client_on_ping_def split: if_splits)
qed

lemma timers_work:
  assumes "program_inv s" and "enabled e s" and "timer_event e"
    and "tls_writes (w_lib W)" and "\<And>has t. is_message 3 (lib_ping_msg (w_lib W) has t)"
    and "\<And>has t. length (pb_packed (lib_ping_msg (w_lib W) has t)) \<le> 1000"
    and "\<And>p. 0 < lib_try_send (w_lib W) p"
    and "\<And>k b. length b = 16 \<Longrightarrow> length (lib_aes (w_lib W) k b) = 16"
  shows "if (\<exists>now. e = Client_ping now) \<and> 4 \<le> card (held (ts_pool (fst (snd s))))
    then handle W e s = faults Assert_failed else \<exists>s'. handle W e s = ok s'"
proof -
  obtain t socket client pr where s: "s = (t, socket, client, pr)" by (cases s)
  have inv: "client_ok client" "wf_pool (ts_pool socket)" "p_count (ts_pool socket) = 4" "p_size (ts_pool socket) = 16 * 1024"
    using assms(1) by (simp_all add: s program_inv_def)
  show ?thesis
  proof (cases e)
    case (Client_ping now)
    have "client_ok (ping_again t client)" using inv(1) by (simp add: client_ok_def)
    from client_ping_works [OF this inv(2,4) assms(4-6), of now] inv(3) show ?thesis
      by (auto simp: s Client_ping)
  next
    case (Udp_ping t1 t2)
    let ?p = "(pinger_of client)\<lparr>pg_period_due := Some (t + pg_period (pinger_of client))\<rparr>"
    have "wf_ping ?p" "wf_udp (au_udp (cl_audio client))" "pool_room (au_udp (cl_audio client))" and t2: "t2 < 0x100000000"
      using inv(1) assms(3) udp_idle_room [of "au_udp (cl_audio client)"]
      by (simp_all add: client_ok_def audio_ok_def wf_ping_def udp_idle_def Udp_ping)
    from period_timer_works [where E = "lib_aes (w_lib W)" and try_send = "lib_try_send (w_lib W)" and ?t1.0 = t1 and clock = t,
        OF this assms(7,8)]
    obtain r where "period_timer_cb (lib_aes (w_lib W)) (lib_try_send (w_lib W)) t1 t2 t ?p (au_udp (cl_audio client)) = Inr r"
      by blast
    then show ?thesis by (cases r) (simp add: s Udp_ping)
  qed (use assms(3) in \<open>simp_all add: s\<close>)
qed


section \<open>A silent link\<close>

text \<open>The TCP side of the program does not touch the pinger but to start it and to give it the peer's address.\<close>

definition pinger_kept :: "udp_ping \<Rightarrow> udp_ping \<Rightarrow> bool" where
  "pinger_kept p q \<longleftrightarrow> pg_connected q = pg_connected p \<and> pg_reply_due q = pg_reply_due p
     \<and> pg_period q = pg_period p \<and> pg_timeout q = pg_timeout p"

lemma internal_pinger:
  assumes "mumble_message_internal lib clock type message client = Inr client'" and "pinger_kept p (pinger_of client)"
  shows "pinger_kept p (pinger_of client')"
  using assms
  by (auto simp: mumble_message_internal_def mumble_audio_encryption_def mumble_udp_ping_start_def rbind_Inr_iff pinger_kept_def
      split: option.splits if_splits prod.splits)

lemma start_pinger:
  "mumble_audio_start peername (cl_audio client) = Inr audio \<Longrightarrow> pinger_kept p (pinger_of client)
    \<Longrightarrow> pinger_kept p (au_pinger audio)"
  by (auto simp: mumble_audio_start_def mumble_udp_ping_address_def rbind_Inr_iff pinger_kept_def)

interpretation pinging: client_user lib clock "on_message lib malloc_ok' sine version_of text_of" on_audio
    "\<lambda>client. client_ok client \<and> pinger_kept p (pinger_of client)" peername now malloc_ok
  for lib :: "('s, 'd, 'e, 'm) libs" and clock peername now malloc_ok malloc_ok' sine version_of text_of p
proof
  fix socket socket' :: "'s tcp_ssl" and client client' :: "('d, 'e) mumble_client" and out out' and type message
  assume "client_ok client \<and> pinger_kept p (pinger_of client)" "wf_pool (ts_pool socket)"
    "on_message lib malloc_ok' sine version_of text_of type message (socket, client, out) = ok (socket', client', out')"
  then show "ts_pool socket' = ts_pool socket \<and> client_ok client' \<and> pinger_kept p (pinger_of client')"
    using on_message_ok by metis
next
  fix client client' :: "('d, 'e) mumble_client" and type message
  assume "client_ok client \<and> pinger_kept p (pinger_of client)" "mumble_message_internal lib clock type message client = Inr client'"
  then show "client_ok client' \<and> pinger_kept p (pinger_of client')" using internal_ok internal_pinger by blast
next
  fix client :: "('d, 'e) mumble_client" and voice
  assume "client_ok client \<and> pinger_kept p (pinger_of client)"
  then show "client_ok (client\<lparr>cl_audio := (cl_audio client)\<lparr>au_decoder := voice\<rparr>\<rparr>)
    \<and> pinger_kept p (pinger_of (client\<lparr>cl_audio := (cl_audio client)\<lparr>au_decoder := voice\<rparr>\<rparr>))"
    by (simp add: voice_ok)
next
  fix socket socket' :: "'s tcp_ssl" and client client' :: "('d, 'e) mumble_client" and msg
  assume "client_ok client \<and> pinger_kept p (pinger_of client)" "wf_pool (ts_pool socket)"
    "mumble_client_write lib msg socket client = Inr (socket', client')"
  then show "ts_pool socket' = ts_pool socket \<and> client_ok client' \<and> pinger_kept p (pinger_of client')"
    using write_ok by metis
qed (auto simp: on_audio_def intro: append_ok pop_ok start_ok start_pinger)

text \<open>Steps in which no datagram arrives and the server sends no CryptSetup, which starts the pinger again.\<close>

fun silent_step :: "loop_event \<Rightarrow> ('s, 'd, 'e) program_state \<Rightarrow> ('s, 'd, 'e) program_state \<Rightarrow> bool" where
  "silent_step (Datagram packet) s s' \<longleftrightarrow> False"
| "silent_step (Tcp_read nread data now) s s' \<longleftrightarrow>
     pg_period_due (pinger_of (fst (snd (snd s')))) = pg_period_due (pinger_of (fst (snd (snd s))))"
| "silent_step e s s' \<longleftrightarrow> True"

definition program_fading :: "nat \<Rightarrow> ('s, 'd, 'e) program_state \<Rightarrow> bool" where
  "program_fading T s \<longleftrightarrow> (case s of (t, socket, client, printed) \<Rightarrow>
     fading T 5000 1000 (t, pinger_of client, au_udp (cl_audio client)))"

lemma fading_kept:
  assumes "pinger_kept p q" and "pg_period_due q = pg_period_due p" and "fading T period timeout (t, p, c)"
  shows "fading T period timeout (t', q, c')"
  using assms by (simp add: fading_def pinger_kept_def)

text \<open>The login gives the pinger the peer's address and nothing else.\<close>

interpretation addressing: client_writer lib clock
    "\<lambda>client. client_ok client \<and> pinger_kept p (pinger_of client) \<and> pg_period_due (pinger_of client) = d" peername now malloc_ok
  for lib :: "('s, 'd, 'e, 'm) libs" and clock peername now malloc_ok p d
proof
  fix socket socket' :: "'s tcp_ssl" and client client' :: "('d, 'e) mumble_client" and msg
  assume "client_ok client \<and> pinger_kept p (pinger_of client) \<and> pg_period_due (pinger_of client) = d" "wf_pool (ts_pool socket)"
    "mumble_client_write lib msg socket client = Inr (socket', client')"
  then show "ts_pool socket' = ts_pool socket
    \<and> client_ok client' \<and> pinger_kept p (pinger_of client') \<and> pg_period_due (pinger_of client') = d"
    using write_ok by metis
qed (auto simp: mumble_audio_start_def mumble_udp_ping_address_def rbind_Inr_iff pinger_kept_def client_ok_def audio_ok_def wf_ping_def)

lemma program_fading_step:
  assumes "program_inv s" and "program_fading T s" and "enabled e s" and "handle W e s = ok s'" and "silent_step e s s'"
  shows "program_fading T s'"
proof -
  obtain t socket client pr where s: "s = (t, socket, client, pr)" by (cases s)
  have inv: "wf_pool (ts_pool socket)" "client_ok client" "timers_ok t client" using assms(1) by (simp_all add: s program_inv_def)
  let ?p = "pinger_of client"
  have fading: "fading T 5000 1000 (t, ?p, au_udp (cl_audio client))" using assms(2) by (simp add: s program_fading_def)
  show ?thesis
  proof (cases e)
    case (Connected status rs now)
    obtain has_cb socket' client' pr' where s': "s' = (t, socket', client', pr')"
      and h: "uv_ssl_handshake (lib_ssl (w_lib W)) (lib_try_write (w_lib W)) (on_connect W t now) has_cb (socket, client, pr)
        = ok (socket', client', pr')"
      using assms(4) by (auto simp: s Connected uv_ssl_connect_cb_def cbind_ok_iff split: option.splits if_splits)
    from addressing.login.handshake_balanced [OF h [unfolded on_connect_def] inv(1)] inv(2)
    have "pinger_kept ?p (pinger_of client') \<and> pg_period_due (pinger_of client') = pg_period_due ?p"
      by (simp add: pinger_kept_def)
    with fading_kept [OF _ _ fading] show ?thesis by (simp add: s' program_fading_def)
  next
    case (Tcp_read nread data now)
    obtain socket' client' pr' where s': "s' = (t, socket', client', pr')"
      and h: "tcp_receive (lib_ssl (w_lib W)) (lib_try_write (w_lib W)) (on_read W t) (on_connect W t now) (nread, data)
        (socket, client, pr) = ok (socket', client', pr')"
      using assms(4) by (auto simp: s Tcp_read cbind_ok_iff)
    from pinging.socket.receive_balanced [OF h [unfolded on_read_def on_connect_def] inv(1)] inv(2)
    have "pinger_kept ?p (pinger_of client')" by (simp add: pinger_kept_def)
    from fading_kept [OF this _ fading] assms(5) show ?thesis by (simp add: s s' Tcp_read program_fading_def)
  next
    case (Client_ping now)
    let ?client = "ping_again t client"
    obtain socket' client' where s': "s' = (t, socket', client', pr)"
      and w: "mumble_client_on_ping (w_lib W) now socket ?client = Inr (socket', client')"
      using assms(4) by (auto simp: s Client_ping cbind_ok_iff)
    have "client_ok ?client" using inv(2) by (simp add: client_ok_def)
    from write_ok [OF w [unfolded mumble_client_on_ping_def] this inv(1)] fading show ?thesis
      by (simp add: s' program_fading_def fading_def)
  next
    case (Udp_ping t1 t2)
    let ?q = "?p\<lparr>pg_period_due := Some (t + pg_period ?p)\<rparr>"
    obtain p udp packet where
      r: "period_timer_cb (lib_aes (w_lib W)) (lib_try_send (w_lib W)) t1 t2 t ?q (au_udp (cl_audio client)) = Inr (p, udp, packet)"
      and s': "s' = (t, socket, client\<lparr>cl_audio := (cl_audio client)\<lparr>au_pinger := p, au_udp := udp\<rparr>,
        cl_datagrams := cl_datagrams client @ [packet]\<rparr>, pr)"
      using assms(4) by (auto simp: s Udp_ping cbind_ok_iff Let_def)
    from period_timer_cb_fields [OF r] assms(3) inv(3) fading show ?thesis
      by (auto simp: s s' Udp_ping program_fading_def fading_def timers_ok_def ping_inv_def)
  next
    case Udp_ping_late
    then show ?thesis using assms(3,4) inv(3) by (auto simp: s program_fading_def set_pinger_def reply_timer_cb_def fading_def timers_ok_def)
  qed (use assms(3-5) fading in \<open>auto simp: s program_fading_def fading_def\<close>)
qed

lemma silent_run:
  assumes "program_run W silent_step s es s'" and "program_inv s" and "program_fading T s"
  shows "program_inv s' \<and> program_fading T s'"
  using assms
proof (induction rule: program_run.induct)
  case (snoc s es s' e s'')
  then show ?case using step_keeps [of s' e W s''] program_fading_step [of s' T e W s''] by (simp add: keeps_def)
qed simp

lemma falls_back:
  assumes "program_run W silent_step (T, socket, client, pr) es (t, socket', client', pr')"
    and "program_inv (T, socket, client, pr)" and "T + 6000 < t"
  shows "\<not> mumble_audio_is_udp (cl_audio client')"
proof -
  have "fading T 5000 1000 (T, pinger_of client, au_udp (cl_audio client))"
    using assms(2) by (auto simp: program_inv_def timers_ok_def ping_inv_def fading_def)
  with silent_run [OF assms(1,2), of T] have "program_inv (t, socket', client', pr')"
    and "fading T 5000 1000 (t, pinger_of client', au_udp (cl_audio client'))"
    by (simp_all add: program_fading_def)
  with assms(3) show ?thesis
    by (auto simp: fading_def program_inv_def timers_ok_def ping_inv_def mumble_audio_is_udp_def)
qed

section \<open>The keepalive\<close>

text \<open>A read that goes to OpenSSL outside the handshake does not reach the callback of the connection.\<close>

lemma tcp_receive_connected:
  assumes "nread \<le> 0 \<or> \<not> ssl_in_init ssl (snd (bio_write ssl (ts_ssl socket) data))"
  shows "tcp_receive ssl try_write cb con (nread, data) (socket, c) = tcp_receive ssl try_write cb con' (nread, data) (socket, c)"
  using assms
  by (auto simp: tcp_receive_def default_alloc_cb_def uv_ssl_read_cb_def uv_ssl_rbio_cb_def cbind_def
      split: prod.splits option.splits sum.splits)

text \<open>Steps of a client that is logged in.\<close>

fun online_step :: "('s, 'd, 'e, 'm) world \<Rightarrow> loop_event \<Rightarrow> ('s, 'd, 'e) program_state \<Rightarrow> ('s, 'd, 'e) program_state \<Rightarrow> bool" where
  "online_step W (Connected status rs now) s s' \<longleftrightarrow> False"
| "online_step W (Tcp_read nread data now) s s' \<longleftrightarrow>
     nread \<le> 0 \<or> \<not> ssl_in_init (lib_ssl (w_lib W)) (snd (bio_write (lib_ssl (w_lib W)) (ts_ssl (fst (snd s))) data))"
| "online_step W e s s' \<longleftrightarrow> True"

fun is_keepalive :: "loop_event \<Rightarrow> bool" where
  "is_keepalive (Client_ping now) \<longleftrightarrow> True"
| "is_keepalive e \<longleftrightarrow> False"

lemma internal_ping_due:
  "mumble_message_internal lib clock type message client = Inr client' \<Longrightarrow> cl_ping_timer client' = cl_ping_timer client"
  by (auto simp: mumble_message_internal_def rbind_Inr_iff split: option.splits if_splits prod.splits)

interpretation online: client_reader lib clock "on_message lib malloc_ok' sine version_of text_of" on_audio
    "\<lambda>client. client_ok client \<and> cl_ping_timer client = d"
  for lib :: "('s, 'd, 'e, 'm) libs" and clock malloc_ok' sine version_of text_of d
proof
  fix socket socket' :: "'s tcp_ssl" and client client' :: "('d, 'e) mumble_client" and out out' and type message
  assume "client_ok client \<and> cl_ping_timer client = d" "wf_pool (ts_pool socket)"
    "on_message lib malloc_ok' sine version_of text_of type message (socket, client, out) = ok (socket', client', out')"
  then show "ts_pool socket' = ts_pool socket \<and> client_ok client' \<and> cl_ping_timer client' = d"
    using on_message_ok by metis
next
  fix client client' :: "('d, 'e) mumble_client" and type message
  assume "client_ok client \<and> cl_ping_timer client = d" "mumble_message_internal lib clock type message client = Inr client'"
  then show "client_ok client' \<and> cl_ping_timer client' = d" using internal_ok internal_ping_due by metis
qed (auto simp: on_audio_def intro: append_ok pop_ok voice_ok)

text \<open>The keepalive is due \<open>d\<close> when the run starts, and 30 seconds later for every one that was sent.\<close>

definition cadence :: "nat \<Rightarrow> loop_event list \<Rightarrow> ('s, 'd, 'e) program_state \<Rightarrow> bool" where
  "cadence d es s \<longleftrightarrow> (case s of (t, socket, client, pr) \<Rightarrow>
     ping_due client = Some (d + 30000 * length (filter is_keepalive es))
     \<and> (filter is_keepalive es \<noteq> [] \<longrightarrow> d + 30000 * length (filter is_keepalive es) \<le> t + 30000))"

lemma cadence_step:
  assumes "program_inv s" and "cadence d es s" and "enabled e s" and "handle W e s = ok s'" and "online_step W e s s'"
  shows "cadence d (es @ [e]) s'"
proof -
  obtain t socket client pr where s: "s = (t, socket, client, pr)" by (cases s)
  have inv: "wf_pool (ts_pool socket)" "client_ok client" "timers_ok t client" using assms(1) by (simp_all add: s program_inv_def)
  have keep: "cadence d (es @ [e]) s'"
    if "s' = (t', socket', client', pr')" "cl_ping_timer client' = cl_ping_timer client" "\<not> is_keepalive e" "t \<le> t'"
    for t' socket' client' pr'
    using assms(2) that by (auto simp: s cadence_def)
  show ?thesis
  proof (cases e)
    case (Tcp_read nread data now)
    obtain socket' client' pr' where s': "s' = (t, socket', client', pr')"
      and h: "tcp_receive (lib_ssl (w_lib W)) (lib_try_write (w_lib W)) (on_read W t) (on_connect W t now) (nread, data)
        (socket, client, pr) = ok (socket', client', pr')"
      using assms(4) by (auto simp: s Tcp_read cbind_ok_iff)
    have "tcp_receive (lib_ssl (w_lib W)) (lib_try_write (w_lib W)) (on_read W t) (\<lambda>status st. ok st) (nread, data)
        (socket, client, pr) = ok (socket', client', pr')"
      using h tcp_receive_connected assms(5) by (metis Tcp_read fst_conv online_step.simps(2) s snd_conv)
    from online.reading.receive_balanced [OF this [unfolded on_read_def] inv(1)] inv(2) have "cl_ping_timer client' = cl_ping_timer client" by simp
    from keep [OF s' this] show ?thesis by (simp add: Tcp_read)
  next
    case (Datagram packet)
    obtain audio pr' where "s' = (t, socket, client\<lparr>cl_audio := audio\<rparr>, pr')"
      using assms(4) by (auto simp: s Datagram cbind_ok_iff Let_def mumble_on_audio_def on_audio_def split: option.splits if_splits)
    from keep [OF this] show ?thesis by (simp add: Datagram)
  next
    case (Client_ping now)
    let ?client = "ping_again t client"
    obtain socket' client' where s': "s' = (t, socket', client', pr)"
      and w: "mumble_client_on_ping (w_lib W) now socket ?client = Inr (socket', client')"
      using assms(4) by (auto simp: s Client_ping cbind_ok_iff)
    have "client_ok ?client" using inv(2) by (simp add: client_ok_def)
    from write_ok [OF w [unfolded mumble_client_on_ping_def] this inv(1)]
    have "cl_ping_timer client' = cl_ping_timer (ping_again t client)" by simp
    moreover have "cl_ping_timer client = Some (t, 30000)"
      using assms(3) inv(3) by (cases "cl_ping_timer client") (auto simp: s Client_ping timers_ok_def)
    ultimately show ?thesis using assms(2) by (simp add: s s' cadence_def Client_ping)
  next
    case (Udp_ping t1 t2)
    obtain audio ds where "s' = (t, socket, client\<lparr>cl_audio := audio, cl_datagrams := ds\<rparr>, pr)"
      using assms(4) by (auto simp: s Udp_ping cbind_ok_iff Let_def)
    from keep [OF this] show ?thesis by (simp add: Udp_ping)
  next
    case Udp_ping_late
    obtain audio where "s' = (t, socket, client\<lparr>cl_audio := audio\<rparr>, pr)"
      using assms(4) by (auto simp: s Udp_ping_late set_pinger_def)
    from keep [OF this] show ?thesis by (simp add: Udp_ping_late)
  next
    case (Time t')
    show ?thesis using assms(3,4) keep [of t' socket client pr] by (simp add: s Time)
  qed (use assms(5) in simp)
qed

lemma cadence_run:
  assumes "program_run W (online_step W) s es s'" and "program_inv s" and "cadence d [] s"
  shows "program_inv s' \<and> cadence d es s'"
  using assms
proof (induction rule: program_run.induct)
  case (snoc s es s' e s'')
  then show ?case using step_keeps [of s' e W s''] cadence_step [of s' d es e W s''] by (simp add: keeps_def)
qed simp

lemma cadence_count:
  assumes "program_run W (online_step W) (T, socket, client, pr) es (t, socket', client', pr')"
    and "program_inv (T, socket, client, pr)" and "ping_due client = Some d"
  shows "let n = length (filter is_keepalive es) in
    ping_due client' = Some (d + 30000 * n) \<and> t \<le> d + 30000 * n \<and> (0 < n \<longrightarrow> d + 30000 * (n - 1) \<le> t)"
proof -
  have "cadence d [] (T, socket, client, pr)" using assms(3) by (simp add: cadence_def)
  from cadence_run [OF assms(1,2) this] have c: "cadence d es (t, socket', client', pr')" "program_inv (t, socket', client', pr')"
    by simp_all
  then have "t \<le> d + 30000 * length (filter is_keepalive es)"
    by (auto simp: cadence_def program_inv_def timers_ok_def)
  moreover have "filter is_keepalive es \<noteq> [] \<Longrightarrow> d + 30000 * (length (filter is_keepalive es) - 1) \<le> t"
    using c(1) by (cases "filter is_keepalive es") (auto simp: cadence_def)
  ultimately show ?thesis using c(1) by (simp add: cadence_def)
qed

text \<open>A step in the middle of a run.\<close>

lemma program_run_middle:
  "program_run W Q s (es1 @ e # es2) s' \<Longrightarrow> \<exists>a b. program_run W Q s es1 a \<and> enabled e a \<and> handle W e a = ok b \<and> Q e a b"
proof (induction es2 arbitrary: s' rule: rev_induct)
  case Nil
  then show ?case by (elim program_run_snocE) blast
next
  case (snoc x xs)
  have "program_run W Q s ((es1 @ e # xs) @ [x]) s'" using snoc.prems by simp
  then obtain b where "program_run W Q s (es1 @ e # xs) b" by (rule program_run_snocE)
  then show ?case by (rule snoc.IH)
qed

text \<open>A keepalive writes one Ping message, at the time at which it is due.\<close>

lemma keepalive_written:
  assumes "program_run W (online_step W) (T, socket, client, pr) (es1 @ Client_ping now # es2) s'"
    and "program_inv (T, socket, client, pr)" and "ping_due client = Some d"
    and "\<And>has t. is_message 3 (lib_ping_msg (w_lib W) has t)"
  shows "\<exists>socket1 client1 pr1 socket2 client2. let due = d + 30000 * length (filter is_keepalive es1) in
    program_run W (online_step W) (T, socket, client, pr) es1 (due, socket1, client1, pr1)
    \<and> mumble_uv_ssl_write (lib_ssl (w_lib W)) (lib_try_write (w_lib W))
        (frame_bytes (3, pb_packed (lib_ping_msg (w_lib W) False (scast (ucast now :: i32))))) socket1 = Inr socket2
    \<and> program_run W (online_step W) (T, socket, client, pr) (es1 @ [Client_ping now]) (due, socket2, client2, pr1)"
proof -
  obtain a b where a: "program_run W (online_step W) (T, socket, client, pr) es1 a" "enabled (Client_ping now) a"
    "handle W (Client_ping now) a = ok b" "online_step W (Client_ping now) a b"
    using program_run_middle [OF assms(1)] by blast
  obtain t1 s1 c1 pr1 where st: "a = (t1, s1, c1, pr1)" by (cases a)
  have "cadence d [] (T, socket, client, pr)" using assms(3) by (simp add: cadence_def)
  from cadence_run [OF a(1) assms(2) this] have inv: "cadence d es1 (t1, s1, c1, pr1)" "program_inv (t1, s1, c1, pr1)"
    by (simp_all add: st)
  then have t1: "t1 = d + 30000 * length (filter is_keepalive es1)"
    using a(2) by (auto simp: st cadence_def program_inv_def timers_ok_def)
  let ?c = "ping_again t1 c1"
  have ok: "client_ok ?c" using inv(2) by (simp add: program_inv_def client_ok_def)
  let ?ping = "frame_bytes (3, pb_packed (lib_ping_msg (w_lib W) False (scast (ucast now :: i32))))"
  let ?put = "mumble_uv_ssl_write (lib_ssl (w_lib W)) (lib_try_write (w_lib W))"
  obtain encoder where w: "\<And>socket. mumble_client_write (w_lib W) (lib_ping_msg (w_lib W) False (scast (ucast now :: i32))) socket ?c =
       rbind (?put ?ping socket) (\<lambda>socket'. Inr (socket', ?c\<lparr>cl_encoder := encoder\<rparr>))"
    by (rule client_writes [where lib = "w_lib W", OF ok assms(4) [of False "scast (ucast now :: i32)"]]) simp_all
  obtain s2 where s2: "?put ?ping s1 = Inr s2" and b: "b = (t1, s2, ?c\<lparr>cl_encoder := encoder\<rparr>, pr1)"
    using a(3) by (auto simp: st cbind_ok_iff mumble_client_on_ping_def w rbind_Inr_iff)
  have "program_run W (online_step W) (T, socket, client, pr) (es1 @ [Client_ping now]) (t1, s2, ?c\<lparr>cl_encoder := encoder\<rparr>, pr1)"
    using program_run.snoc [OF a] by (simp only: b)
  with a(1) s2 show ?thesis unfolding Let_def t1 [symmetric] st by (intro exI conjI)
qed

section \<open>The login\<close>

lemma login_writes:
  assumes "client_ok client" and "fst peername = 0" and "0 \<in> set (cl_nick client)"
    and V: "is_message 0 V" and A: "is_message 2 A" and P: "is_message 3 P"
    and v: "V = lib_version_msg lib False 0x10205"
    and a: "A = lib_authenticate_msg lib (if malloc_ok then Some (takeWhile (\<lambda>b. b \<noteq> 0) (cl_nick client) @ [0]) else None) True True"
    and p: "P = lib_ping_msg lib False (scast (ucast now :: i32))"
  obtains encoder where "mumble_connect_cb_adapter lib peername clock now malloc_ok status (socket, client, u) =
    cbind (Some (for_each (\<lambda>f. mumble_uv_ssl_write (lib_ssl lib) (lib_try_write lib) (frame_bytes f))
        [(0, pb_packed V), (2, pb_packed A), (3, pb_packed P)] socket))
      (\<lambda>socket'. ok (socket', client\<lparr>cl_audio := (cl_audio client)\<lparr>au_addr := fst (snd peername),
           au_peer_addr_len := snd (snd peername), au_pinger := mumble_udp_ping_address (pinger_of client)\<rparr>,
         cl_ping_timer := Some (clock + 15000, 30000), cl_encoder := encoder\<rparr>, u))"
proof -
  let ?audio = "(cl_audio client)\<lparr>au_addr := fst (snd peername), au_peer_addr_len := snd (snd peername),
    au_pinger := mumble_udp_ping_address (pinger_of client)\<rparr>"
  let ?c0 = "client\<lparr>cl_audio := ?audio, cl_ping_timer := Some (clock + 15000, 30000)\<rparr>"
  let ?sends = "\<lambda>f. mumble_uv_ssl_write (lib_ssl lib) (lib_try_write lib) (frame_bytes f)"
  have start: "mumble_audio_start peername (cl_audio client) = Inr ?audio"
    using assms(2) by (simp add: mumble_audio_start_def mumble_uv_ssl_peername_def split_beta)
  have ok0: "client_ok ?c0" using start_ok [OF start assms(1)] .
  obtain e1 where e1: "client_ok (?c0\<lparr>cl_encoder := e1\<rparr>)"
    "\<And>s. mumble_client_write lib V s ?c0 = rbind (?sends (0, pb_packed V) s) (\<lambda>s'. Inr (s', ?c0\<lparr>cl_encoder := e1\<rparr>))"
    by (rule client_writes [where lib = lib, OF ok0 V]) simp_all
  obtain e2 where e2: "client_ok (?c0\<lparr>cl_encoder := e1\<rparr>\<lparr>cl_encoder := e2\<rparr>)"
    "\<And>s. mumble_client_write lib A s (?c0\<lparr>cl_encoder := e1\<rparr>)
      = rbind (?sends (2, pb_packed A) s) (\<lambda>s'. Inr (s', ?c0\<lparr>cl_encoder := e1\<rparr>\<lparr>cl_encoder := e2\<rparr>))"
    by (rule client_writes [where lib = lib, OF e1(1) A]) simp_all
  obtain e3 where e3: "\<And>s. mumble_client_write lib P s (?c0\<lparr>cl_encoder := e1\<rparr>\<lparr>cl_encoder := e2\<rparr>)
      = rbind (?sends (3, pb_packed P) s) (\<lambda>s'. Inr (s', ?c0\<lparr>cl_encoder := e1\<rparr>\<lparr>cl_encoder := e2\<rparr>\<lparr>cl_encoder := e3\<rparr>))"
    by (rule client_writes [where lib = lib, OF e2(1) P]) simp_all
  define U where "U = (if malloc_ok then Some (takeWhile (\<lambda>b. b \<noteq> 0) (cl_nick client) @ [0]) else None)"
  have name: "dupstr (cl_nick client) malloc_ok = Inr U" using assms(3) by (simp add: dupstr_def U_def)
  note msgs = v [symmetric] a [folded U_def, symmetric] p [symmetric]
  have "mumble_connect_cb_adapter lib peername clock now malloc_ok status (socket, client, u) =
    Some (rbind (mumble_client_write lib V socket ?c0) (\<lambda>(s, c). rbind (dupstr (cl_nick c) malloc_ok) (\<lambda>username.
      rbind (mumble_client_write lib (lib_authenticate_msg lib username True True) s c) (\<lambda>(s, c).
      rbind (mumble_client_write lib P s c) (\<lambda>(s, c). Inr (s, c, u))))))"
    by (simp add: mumble_connect_cb_adapter_def start Let_def msgs)
  also have "\<dots> = Some (rbind (?sends (0, pb_packed V) socket) (\<lambda>s. rbind (?sends (2, pb_packed A) s) (\<lambda>s.
      rbind (?sends (3, pb_packed P) s) (\<lambda>s. Inr (s, ?c0\<lparr>cl_encoder := e3\<rparr>, u)))))"
    using e1(2) e2(2) e3 by (simp add: name rbind_assoc msgs)
  also have "\<dots> = cbind (Some (for_each ?sends [(0, pb_packed V), (2, pb_packed A), (3, pb_packed P)] socket))
      (\<lambda>s. ok (s, ?c0\<lparr>cl_encoder := e3\<rparr>, u))"
    by (simp add: rbind_def cbind_def split: sum.splits)
  finally show thesis by (rule that)
qed

end
