(* ===== verification/Program_Correctness.thy ===== *)
theory Program_Correctness
  imports Program_Runs
begin

text \<open>
  What is true of every run of the program, from what \<^verbatim>\<open>main\<close> sets up on, and an example run for each property:
  the program connects, logs in, and waits, or gets its keys and pings a server that does not answer.
\<close>

section \<open>Properties\<close>

text \<open>What \<open>main\<close> sets up with memory of its own: every block is new and as long as the code asks for.\<close>

inductive starts :: "'s tcp_ssl \<Rightarrow> ('d, 'e) mumble_client \<Rightarrow> bool" where
  "main_start (mumble_uv_ssl_init tcp_init ctx_ok paths created tcp_array m)
      (mumble_audio_init udp_array m' mem struct_ok create buffer_size (Some pcm) (Some out) (Some framed) struct_ok' decoder)
      (Some mem1) (Some mem2) creq_ok req_ok getaddrinfo = Inr (socket, client)
    \<Longrightarrow> inj_on m {..<4} \<Longrightarrow> inj_on m' {..<2} \<Longrightarrow> (\<And>a. length (mem a) = 1024)
    \<Longrightarrow> buffer_size 48000 20 = 960 \<Longrightarrow> length pcm = 960 \<Longrightarrow> length framed = 960
    \<Longrightarrow> length mem1 = MUMBLE_FRAME_MAX_SIZE \<Longrightarrow> length mem2 = MUMBLE_FRAME_MAX_SIZE
    \<Longrightarrow> starts socket client"

lemma starts_inv: "starts socket client \<Longrightarrow> program_inv (0, socket, client, []) \<and> held (ts_pool socket) = {}"
proof (induction rule: starts.induct)
  case prems: 1
  show ?case by (rule start_inv [OF prems(1-4)]) (simp_all add: prems(5-9))
qed

lemma run_from_start:
  assumes "starts socket client" and "program_run W Q (0, socket, client, []) es s"
  shows "program_inv s \<and> card (held (ts_pool (fst (snd s)))) = length (filter idle_read es)"
  using run_inv [OF assms(2)] starts_inv [OF assms(1)] by simp

lemma inv_held: "program_inv s \<Longrightarrow> card (held (ts_pool (fst (snd s)))) \<le> 4"
  using held_card [of "ts_pool (fst (snd s))"] by (auto simp: program_inv_def wf_pool_def)

text \<open>
  C2: Every state of every run of the program is well-formed: whatever the server, the network and the clock do, as long as no
  step faults, every buffer has its size, no datagram buffer is out between two events, no timer is overdue or set
  farther away than its period, and the socket's buffers that are out are those of the reads without data, at most four.
\<close>

theorem program_stays_well_formed:
  assumes "starts socket client" and "program_run W any_step (0, socket, client, []) es s"
  shows "program_inv s \<and> card (held (ts_pool (fst (snd s)))) = length (filter idle_read es)
    \<and> length (filter idle_read es) \<le> 4"
  using run_from_start [OF assms] inv_held by fastforce

text \<open>
  C9: In every state a run reaches the timers that are due work: their callbacks return, without a fault, but for the keepalive
  after the fourth read without data, when there is no buffer left to write it with and its timer ends the program. This is
  so while the outside world lets the callbacks write: the system clock the pinger reads is below \<open>2 ^ 32\<close>, OpenSSL makes records of a
  frame that fit the socket's buffers, \<open>uv_try_write\<close> takes each of them whole, \<open>uv_udp_try_send\<close> sends, protobuf-c
  packs the ping as a message of its type of at most 1000 bytes, and AES enciphers a block to a block. (With a partial write, or
  \<open>EAGAIN\<close>, an assertion of the code fails: see the writes of \<open>Tcp_Ssl\<close>.)
\<close>

theorem due_timers_work:
  assumes "starts socket client" and "program_run W any_step (0, socket, client, []) es s"
    and "enabled e s" and "timer_event e"
    and "tls_writes (w_lib W)" and "\<And>has t. is_message 3 (lib_ping_msg (w_lib W) has t)"
    and "\<And>has t. length (pb_packed (lib_ping_msg (w_lib W) has t)) \<le> 1000"
    and "\<And>p. 0 < lib_try_send (w_lib W) p"
    and "\<And>k b. length b = 16 \<Longrightarrow> length (lib_aes (w_lib W) k b) = 16"
  shows "if (\<exists>now. e = Client_ping now) \<and> length (filter idle_read es) = 4
    then handle W e s = faults Assert_failed else \<exists>s'. handle W e s = ok s'"
proof -
  have "program_inv s" "card (held (ts_pool (fst (snd s)))) = length (filter idle_read es)"
    using run_from_start [OF assms(1,2)] by simp_all
  then show ?thesis
    using timers_work [OF _ assms(3-9)] inv_held [of s] by fastforce
qed

text \<open>
  C8: The program falls back to the tunnel: from any state a run reaches, whether the pinger runs or not, once more than six
  seconds have passed in which no datagram arrived and the server sent no new keys, the audio goes through TCP.
\<close>

theorem program_falls_back:
  assumes "starts socket0 client0" and "program_run W any_step (0, socket0, client0, []) es0 (T, socket, client, pr)"
    and "program_run W silent_step (T, socket, client, pr) es (t, socket', client', pr')" and "T + 6000 < t"
  shows "\<not> mumble_audio_is_udp (cl_audio client')"
  using run_from_start [OF assms(1,2)] falls_back [OF assms(3) _ assms(4)] by simp

text \<open>
  C10: A client that is logged in keeps its connection alive: in any run from a state with the keepalive due at \<open>d\<close>, each
  keepalive is handled exactly when it is due, at \<open>d\<close>, \<open>d + 30000\<close> and so on, and writes one Ping message with the time of the
  system clock to the TLS stream; none is left out, whatever else happens, as long as no step faults. (The loop's clock does not pass a
  timer that is due, so that lateness is not modelled; and protobuf-c packs a ping as a message of its type.)
\<close>

theorem keepalive_cadence:
  assumes "starts socket0 client0" and "program_run W any_step (0, socket0, client0, []) es0 (T, socket, client, pr)"
    and "program_run W (online_step W) (T, socket, client, pr) es (t, socket', client', pr')" and "ping_due client = Some d"
    and "\<And>has t. is_message 3 (lib_ping_msg (w_lib W) has t)"
  shows "(let n = length (filter is_keepalive es) in
      ping_due client' = Some (d + 30000 * n) \<and> t \<le> d + 30000 * n \<and> (0 < n \<longrightarrow> d + 30000 * (n - 1) \<le> t))
    \<and> (\<forall>es1 now es2. es = es1 @ Client_ping now # es2 \<longrightarrow> (\<exists>socket1 client1 pr1 socket2 client2.
      let due = d + 30000 * length (filter is_keepalive es1) in
      program_run W (online_step W) (T, socket, client, pr) es1 (due, socket1, client1, pr1)
      \<and> mumble_uv_ssl_write (lib_ssl (w_lib W)) (lib_try_write (w_lib W))
          (frame_bytes (3, pb_packed (lib_ping_msg (w_lib W) False (scast (ucast now :: i32))))) socket1 = Inr socket2
      \<and> program_run W (online_step W) (T, socket, client, pr) (es1 @ [Client_ping now]) (due, socket2, client2, pr1)))"
proof -
  have inv: "program_inv (T, socket, client, pr)" using run_from_start [OF assms(1,2)] by simp
  show ?thesis
    using cadence_count [OF assms(3) inv assms(4)] keepalive_written [where W = W, OF _ inv assms(4,5)] assms(3) by blast
qed

text \<open>
  C7: The login: once the handshake is over, whatever its outcome, the client writes the version, the name and a first
  ping, each as one frame and in this order, starts the keepalive for 15 seconds later and gives the pinger the address of
  the peer; if a write faults, so does the login.
\<close>

theorem login_sequence:
  assumes "client_ok client" and "fst peername = 0" and "0 \<in> set (cl_nick client)"
    and "is_message 0 (lib_version_msg lib False 0x10205)"
    and "is_message 2 (lib_authenticate_msg lib
      (if malloc_ok then Some (takeWhile (\<lambda>b. b \<noteq> 0) (cl_nick client) @ [0]) else None) True True)"
    and "is_message 3 (lib_ping_msg lib False (scast (ucast now :: i32)))"
  shows "let version = lib_version_msg lib False 0x10205;
      name = if malloc_ok then Some (takeWhile (\<lambda>b. b \<noteq> 0) (cl_nick client) @ [0]) else None;
      ping = lib_ping_msg lib False (scast (ucast now :: i32))
    in \<exists>encoder. mumble_connect_cb_adapter lib peername clock now malloc_ok status (socket, client, u) =
      cbind (Some (for_each (\<lambda>f. mumble_uv_ssl_write (lib_ssl lib) (lib_try_write lib) (frame_bytes f))
          [(0, pb_packed version), (2, pb_packed (lib_authenticate_msg lib name True True)), (3, pb_packed ping)] socket))
        (\<lambda>socket'. ok (socket', client\<lparr>cl_audio := (cl_audio client)\<lparr>au_addr := fst (snd peername),
             au_peer_addr_len := snd (snd peername), au_pinger := mumble_udp_ping_address (pinger_of client)\<rparr>,
           cl_ping_timer := Some (clock + 15000, 30000), cl_encoder := encoder\<rparr>, u))"
  unfolding Let_def by (rule login_writes [OF assms refl refl refl, where clock = clock and socket = socket and u = u]) (rule exI)

section \<open>Examples\<close>

definition example_world :: "(bytes list, unit, unit, bytes) world" where
  "example_world = \<lparr>w_lib = example_lib, w_decipher = example_decipher, w_malloc_ok = True, w_sine = (\<lambda>rate f i. 0),
     w_version_of = (\<lambda>m. (0, [])), w_text_of = (\<lambda>m. (0, [])), w_peername = (0, [], 0)\<rparr>"

lemma example_start:
  obtains socket client where "starts (socket :: bytes list tcp_ssl) (client :: (unit, unit) mumble_client)"
    "ts_ssl socket = []" "ts_has_cb socket" "ts_creq socket = Some True" "cl_decoder client = example_frames []"
    "cl_has_on_message client" "cl_nick client = map of_char ''testbot'' @ [0]" "pinger_of client = example_ping"
    "cl_ping_timer client = None"
proof -
  let ?mem = "replicate (2 ^ 20) 0" and ?buf = "replicate 960 0"
  let ?ssl = "mumble_uv_ssl_init 0 True 1 (Some ([] :: bytes list)) True (\<lambda>i. Some i)"
  let ?audio = "mumble_audio_init True (\<lambda>i. Some i) (\<lambda>a. replicate 1024 0) True (\<lambda>app. Some ()) (\<lambda>rate ms. 960)
         (Some ?buf) (Some ?buf) (Some ?buf) True (Some ()) :: (unit, unit) mumble_audio res"
  obtain audio where audio: "?audio = Inr audio" "au_pinger audio = example_ping"
    using example_ping_init
    by (simp add: mumble_audio_init_def uv_udp_ssl_init_def buffer_pool_init_def mumble_audio_encoder_init_def
        mumble_codec_opus_create_encoder_def mumble_buffer_create_def codec_buf_init_def mumble_audio_decoder_init_def
        mumble_codec_opus_create_decoder_def mumble_udp_ping_init_def Let_def list_all_iff)
  obtain p0 where pool: "buffer_pool_init 4 16384 True (\<lambda>i. Some i) = Inr p0"
    by (simp add: buffer_pool_init_def list_all_iff)
  obtain socket client where start: "main_start ?ssl (Inr audio) (Some ?mem) (Some ?mem) True True (\<lambda>host port. 0) = Inr (socket, client)"
    and s: "ts_ssl socket = []" "ts_has_cb socket" "ts_creq socket = Some True" "cl_decoder client = example_frames []"
    "cl_has_on_message client" "cl_nick client = map of_char ''testbot'' @ [0]" "cl_audio client = audio\<lparr>au_has_cb := True\<rparr>"
    "cl_ping_timer client = None"
    by (simp add: main_start_def mumble_client_init_def mumble_uv_ssl_set_data_def mumble_uv_ssl_init_def pool mumble_frame_init_def
        mumble_frame_encoder_init_def mumble_client_connect_def mumble_uv_ssl_connect_def mumble_uv_ssl_set_cb_def
        mumble_client_set_on_audio_def mumble_client_set_on_message_def mumble_audio_set_cb_def example_frames_def Let_def)
  have "starts socket client"
    by (rule starts.intros [OF start [folded audio(1)]]) simp_all
  with that s audio(2) show thesis by simp
qed

lemma example_libs_ok:
  "tls_writes example_lib" "is_message 3 (lib_ping_msg example_lib has t)" "lib_try_send example_lib p = 1"
  "pb_packed (lib_ping_msg example_lib has t) = []" "lib_aes example_lib = example_cipher"
  "is_message 0 (lib_version_msg example_lib has v)" "is_message 2 (lib_authenticate_msg example_lib name has2 opus)"
  by (auto simp: tls_writes_def example_lib_def example_ssl_def is_message_def descriptor_names_def)

lemma example_write:
  assumes "tcp_room socket" and "p_size (ts_pool socket) = 16 * 1024" and "6 \<le> length buf" and "length buf \<le> 1024"
  shows "mumble_uv_ssl_write (lib_ssl example_lib) (lib_try_write example_lib) buf socket =
    Inr (socket\<lparr>ts_sent := ts_sent socket @ [take 3 buf, drop 3 buf]\<rparr>)"
  using wbio_writes_sends [OF assms(1), of "[take 3 buf, drop 3 buf]" "\<lambda>r. int (length r)"] assms(2-4)
  by (simp add: mumble_uv_ssl_write_def example_lib_def example_ssl_def)

lemma example_login:
  assumes "client_ok client" and "tcp_room socket" and "p_size (ts_pool socket) = 16 * 1024" and "ts_creq socket = Some True"
    and "0 \<in> set (cl_nick client)"
  obtains sent encoder audio where "handle example_world (Connected 0 0 0) (t, socket, client, pr) =
    ok (t, socket\<lparr>ts_sent := sent\<rparr>, client\<lparr>cl_audio := audio, cl_ping_timer := Some (t + 15000, 30000), cl_encoder := encoder\<rparr>, pr)"
    "au_pinger audio = mumble_udp_ping_address (pinger_of client)"
proof -
  let ?sends = "\<lambda>f. mumble_uv_ssl_write (lib_ssl example_lib) (lib_try_write example_lib) (frame_bytes f)"
  obtain encoder where login: "on_connect example_world t 0 0 (socket, client, pr) =
    cbind (Some (for_each ?sends [(0, pb_packed (lib_version_msg example_lib False 0x10205)),
        (2, pb_packed (lib_authenticate_msg example_lib (Some (takeWhile (\<lambda>b. b \<noteq> 0) (cl_nick client) @ [0])) True True)),
        (3, pb_packed (lib_ping_msg example_lib False (scast (ucast (0 :: u64) :: i32))))] socket))
      (\<lambda>socket'. ok (socket', client\<lparr>cl_audio := (cl_audio client)\<lparr>au_addr := [],
           au_peer_addr_len := 0, au_pinger := mumble_udp_ping_address (pinger_of client)\<rparr>,
         cl_ping_timer := Some (t + 15000, 30000), cl_encoder := encoder\<rparr>, pr))"
    by (rule login_writes [OF assms(1) _ assms(5) example_libs_ok(6,7,2), where peername = "(0, [], 0)" and malloc_ok = True and now = 0 and
        clock = t and status = 0 and socket = socket and u = pr])
      (simp_all add: on_connect_def example_world_def)
  have room: "tcp_room (socket\<lparr>ts_sent := x\<rparr>)" for x using assms(2) by (simp add: tcp_room_def)
  have "\<exists>sent. for_each ?sends [(0, []), (2, []), (3, [])] socket = Inr (socket\<lparr>ts_sent := sent\<rparr>)"
    using room assms(2,3) by (simp add: example_write frame_bytes_def) (rule exI, rule refl)
  with login that assms(4) show thesis
    by (auto simp: example_lib_def example_world_def example_ssl_def uv_ssl_connect_cb_def uv_ssl_handshake_def wbio_writes_def)
qed


text \<open>A CryptSetup message arrives and starts the pinger.\<close>

lemma example_keys:
  assumes "program_inv (t, socket, client, pr)" and "held (ts_pool socket) = {}" and "ts_ssl socket = []" and "ts_has_cb socket"
    and "ts_creq socket = Some has_cb" and "cl_decoder client = example_frames []" and "cl_has_on_message client"
  obtains audio decoder where "handle example_world (Tcp_read 6 [0, 15, 0, 0, 0, 0] 0) (t, socket, client, pr) =
      ok (t, socket, client\<lparr>cl_audio := audio, cl_decoder := decoder\<rparr>, pr)"
    "au_pinger audio = mumble_udp_ping_start t (pinger_of client)"
proof -
  let ?data = "[0, 15, 0, 0, 0, 0] :: bytes" and ?ctx = "example_frames []"
  let ?read = "on_read example_world t"
  have inv: "wf_pool (ts_pool socket)" "p_count (ts_pool socket) = 4" "client_ok client"
    using assms(1) by (simp_all add: program_inv_def)
  obtain ctx where append: "mumble_frame_append ?ctx ?data = Inr (mumble_frame_ready ctx, ctx)"
    and ctx: "wf_frame_ctx ctx" "fc_data ctx = ?data"
    using frame_append_data [of ?ctx ?data] example_frames_ok [of "[]"] by (auto simp: example_frames_def)
  have data: "fc_data ctx = frame_bytes (15, []) @ []" by (simp add: ctx frame_bytes_def htons_def htonl_def)
  have valid: "valid_frame (15, [])" by (simp add: valid_frame_def)
  note frame = data_frame [OF valid, of "[]", folded data]
  have ready: "mumble_frame_ready ctx" and no_audio: "\<not> mumble_frame_is_audio ctx"
    using frame_ready_data [OF ctx(1)] frame(1,3) frame_type_data [OF ctx(1)]
    by (simp_all add: data mumble_frame_is_audio_def)
  obtain decoder where d: "mumble_frame_decode (lib_unpack example_lib) ctx = Inr (15, lib_unpack example_lib 15 [], decoder)"
    "wf_frame_ctx decoder" "fc_data decoder = []"
    using decode_frame [OF ctx(1) data valid, of "lib_unpack example_lib"] by auto
  let ?c0 = "client\<lparr>cl_decoder := ctx\<rparr>" and ?c1 = "client\<lparr>cl_decoder := decoder\<rparr>"
  have wf: "wf_udp (au_udp (cl_audio ?c1))" using inv(3) by (simp add: client_ok_def audio_ok_def udp_idle_def)
  have keys: "lib_crypt_setup example_lib [] = (Some (key example_ocb), Some (dec_iv example_ocb), Some (enc_iv example_ocb))"
    "length (key example_ocb) = 16" "length (dec_iv example_ocb) = 16" "length (enc_iv example_ocb) = 16"
    by (simp_all add: example_lib_def)
  obtain client1 where i: "mumble_message_internal example_lib t 15 (Some []) ?c1 = Inr client1"
    by (rule crypt_setup_keys [OF wf keys])
  then obtain audio where c1: "client1 = ?c1\<lparr>cl_audio := audio\<rparr>" and p: "au_pinger audio = mumble_udp_ping_start t (pinger_of client)"
    by (auto simp: mumble_message_internal_def mumble_audio_encryption_def rbind_Inr_iff split: option.splits prod.splits)
  have "message_round example_lib t (on_message example_lib True (\<lambda>rate f i. 0) (\<lambda>m. (0, [])) (\<lambda>m. (0, []))) on_audio (sock, ?c0, pr)
      = ok (sock, client1, pr)" for sock :: "bytes list tcp_ssl"
    using no_audio d(1) i assms(7) by (simp add: message_round_def c1 example_lib_def on_message_def)
  moreover have "\<not> mumble_frame_ready (cl_decoder client1)"
    using d by (simp add: c1 frame_ready_data data_total_def data_size_def)
  ultimately have read: "?read ?data (sock, client, pr) = ok (sock, client1, pr)" for sock
    using ready append assms(6)
    by (simp add: on_read_def example_world_def mumble_message_cb_adapter_def message_loop.simps)
  have "tcp_receive example_ssl (lib_try_write example_lib) ?read (on_connect example_world t 0) (int (length ?data), ?data) (socket, client, pr)
      = ok (socket, client1, pr)"
    by (rule example_read [OF _ _ assms(3-5)]) (use inv assms(2) read in simp_all)
  then show thesis
    by (intro that [of decoder audio]) (simp_all add: p c1 example_world_def example_lib_def)
qed


text \<open>The steps of a pinger on its own are steps of the program.\<close>

lemma pinger_step:
  assumes "ping_step (lib_aes (w_lib W)) (lib_try_send (w_lib W)) (t, p, c) e (t', p', c')" and "silent [e]"
    and "pinger_of client = p" and "au_udp (cl_audio client) = c" and "cl_ping_timer client = None"
  shows "\<exists>e' client'. enabled e' (t, socket, client, pr) \<and> handle W e' (t, socket, client, pr) = ok (t', socket, client', pr)
    \<and> silent_step e' (t, socket, client, pr) (t', socket, client', pr)
    \<and> pinger_of client' = p' \<and> au_udp (cl_audio client') = c' \<and> cl_ping_timer client' = None"
  using assms(1)
proof (cases rule: ping_step.cases)
  case tick
  then show ?thesis using assms(3-5) by (intro exI [of _ "Time t'"] exI [of _ client]) simp
next
  case (period d t1 t2 packet)
  then show ?thesis
    using assms(3-5)
    by (intro exI [of _ "Udp_ping t1 t2"] exI [of _ "client\<lparr>cl_audio := (cl_audio client)\<lparr>au_pinger := p', au_udp := c'\<rparr>,
        cl_datagrams := cl_datagrams client @ [packet]\<rparr>"]) simp
next
  case (reply_late d)
  then show ?thesis
    using assms(3-5)
    by (intro exI [of _ Udp_ping_late] exI [of _ "set_pinger p' client"]) (simp add: set_pinger_def)
qed (use assms(2) in \<open>simp_all add: silent_def\<close>)

lemma pinger_run:
  assumes "ping_run (lib_aes (w_lib W)) (lib_try_send (w_lib W)) (t, p, c) es (t', p', c')" and "silent es"
    and "pinger_of client = p" and "au_udp (cl_audio client) = c" and "cl_ping_timer client = None"
  shows "\<exists>es' client'. program_run W silent_step (t, socket, client, pr) es' (t', socket, client', pr)
    \<and> pinger_of client' = p' \<and> au_udp (cl_audio client') = c' \<and> cl_ping_timer client' = None"
  using assms
proof (induction "(t, p, c)" es "(t', p', c')" arbitrary: t' p' c' rule: ping_run.induct)
  case nil
  then show ?case using program_run.nil by blast
next
  case (snoc es s' e)
  obtain t1 p1 c1 where s': "s' = (t1, p1, c1)" by (cases s')
  have silent: "silent es" "silent [e]" using snoc.prems(1) by (simp_all add: silent_def)
  from snoc.hyps(2) [OF s' silent(1) snoc.prems(2-4)] obtain es' client1 where
    r: "program_run W silent_step (t, socket, client, pr) es' (t1, socket, client1, pr)"
    "pinger_of client1 = p1" "au_udp (cl_audio client1) = c1" "cl_ping_timer client1 = None" by blast
  from pinger_step [OF snoc.hyps(3) [unfolded s'] silent(2) r(2-4)] program_run.snoc [OF r(1)] show ?case by blast
qed


lemma program_run_snoc:
  "program_run W Q s es s' \<Longrightarrow> enabled e s' \<Longrightarrow> handle W e s' = ok s'' \<Longrightarrow> Q e s' s'' \<Longrightarrow> es1 = es @ [e] \<Longrightarrow> program_run W Q s es1 s''"
  by (simp add: program_run.snoc)

text \<open>The program connects, logs in, and waits for 15 seconds.\<close>

lemma example_run:
  obtains socket client s client' where "starts (socket :: bytes list tcp_ssl) (client :: (unit, unit) mumble_client)"
    "program_run example_world any_step (0, socket, client, []) [Connected 0 0 0, Time 15000] (15000, s, client', [])"
    "ping_due client' = Some 15000" "program_inv (15000, s, client', [])" "tcp_room s" "held (ts_pool s) = {}"
    "client_ok client" "0 \<in> set (cl_nick client)" "tcp_room socket"
proof -
  obtain socket :: "bytes list tcp_ssl" and client :: "(unit, unit) mumble_client" where st: "starts socket client"
    and c: "ts_creq socket = Some True" "cl_nick client = map of_char ''testbot'' @ [0]" "pinger_of client = example_ping"
    by (rule example_start) blast
  have inv: "program_inv (0, socket, client, [])" "held (ts_pool socket) = {}" using starts_inv [OF st] by simp_all
  then have room: "client_ok client" "tcp_room socket" "p_size (ts_pool socket) = 16 * 1024"
    by (simp_all add: program_inv_def tcp_room_def)
  have nick: "0 \<in> set (cl_nick client)" by (simp add: c)
  obtain sent encoder audio where h: "handle example_world (Connected 0 0 0) (0, socket, client, []) =
    ok (0, socket\<lparr>ts_sent := sent\<rparr>, client\<lparr>cl_audio := audio, cl_ping_timer := Some (0 + 15000, 30000), cl_encoder := encoder\<rparr>, [])"
    and ping: "au_pinger audio = mumble_udp_ping_address (pinger_of client)"
    by (rule example_login [OF room c(1) nick])
  let ?s = "socket\<lparr>ts_sent := sent\<rparr>" and ?c = "client\<lparr>cl_audio := audio, cl_ping_timer := Some (0 + 15000, 30000), cl_encoder := encoder\<rparr>"
  have r1: "program_run example_world any_step (0, socket, client, []) [Connected 0 0 0] (0, ?s, ?c, [])"
    by (rule program_run_snoc [OF program_run.nil _ h]) simp_all
  note inv1 = run_inv [OF r1 inv(1)]
  have r2: "program_run example_world any_step (0, socket, client, []) [Connected 0 0 0, Time 15000] (15000, ?s, ?c, [])"
    by (rule program_run_snoc [OF r1, where e = "Time 15000"])
      (simp_all add: ping c(3) mumble_udp_ping_address_def example_ping_def)
  from run_inv [OF this inv(1)] inv(2) have inv2: "program_inv (15000, ?s, ?c, [])" by simp
  show thesis
    by (rule that [OF st r2 _ inv2]) (use inv(2) room nick in \<open>simp_all add: tcp_room_def\<close>)
qed

theorem program_stays_well_formed_witness:
  "\<exists>socket client s. starts (socket :: bytes list tcp_ssl) (client :: (unit, unit) mumble_client)
    \<and> program_run example_world any_step (0, socket, client, []) [Connected 0 0 0, Time 15000, Tcp_read 0 [] 0] s
    \<and> program_inv s \<and> card (held (ts_pool (fst (snd s)))) = 1"
proof -
  obtain socket :: "bytes list tcp_ssl" and client :: "(unit, unit) mumble_client" and s client' where st: "starts socket client"
    and r: "program_run example_world any_step (0, socket, client, []) [Connected 0 0 0, Time 15000] (15000, s, client', [])"
    and room: "tcp_room s"
    by (rule example_run)
  obtain a pool' where "buffer_pool_acquire (ts_pool s) = (Some a, pool')" by (rule tcp_borrow [OF room])
  then have "handle example_world (Tcp_read 0 [] 0) (15000, s, client', []) = ok (15000, s\<lparr>ts_pool := pool'\<rparr>, client', [])"
    by (simp add: tcp_receive_def default_alloc_cb_def uv_ssl_read_cb_def)
  then have "program_run example_world any_step (0, socket, client, []) [Connected 0 0 0, Time 15000, Tcp_read 0 [] 0]
      (15000, s\<lparr>ts_pool := pool'\<rparr>, client', [])"
    by (rule program_run_snoc [OF r, rotated]) simp_all
  with program_stays_well_formed [OF st this] st show ?thesis by fastforce
qed

theorem due_timers_work_witness:
  "\<exists>socket client s. starts (socket :: bytes list tcp_ssl) (client :: (unit, unit) mumble_client)
    \<and> program_run example_world any_step (0, socket, client, []) [Connected 0 0 0, Time 15000] s
    \<and> (\<exists>s'. handle example_world (Client_ping 7) s = ok s')"
proof -
  obtain socket :: "bytes list tcp_ssl" and client :: "(unit, unit) mumble_client" and s client' where st: "starts socket client"
    and r: "program_run example_world any_step (0, socket, client, []) [Connected 0 0 0, Time 15000] (15000, s, client', [])"
    and due: "ping_due client' = Some 15000"
    by (rule example_run)
  have lib: "w_lib example_world = example_lib" by (simp add: example_world_def)
  have "\<exists>s'. handle example_world (Client_ping 7) (15000, s, client', []) = ok s'"
    using due_timers_work [OF st r, of "Client_ping 7"] due by (simp add: lib example_libs_ok example_cipher_ok)
  with st r show ?thesis by blast
qed

theorem keepalive_cadence_witness:
  "\<exists>socket client s t socket' client' pr'. starts (socket :: bytes list tcp_ssl) (client :: (unit, unit) mumble_client)
    \<and> program_run example_world any_step (0, socket, client, []) [Connected 0 0 0, Time 15000] s
    \<and> program_run example_world (online_step example_world) s [Client_ping 7] (t, socket', client', pr')
    \<and> ping_due client' = Some 45000"
proof -
  obtain socket :: "bytes list tcp_ssl" and client :: "(unit, unit) mumble_client" and s client' where st: "starts socket client"
    and r: "program_run example_world any_step (0, socket, client, []) [Connected 0 0 0, Time 15000] (15000, s, client', [])"
    and due: "ping_due client' = Some 15000" and inv: "program_inv (15000, s, client', [])" and held: "held (ts_pool s) = {}"
    by (rule example_run)
  have lib: "w_lib example_world = example_lib" by (simp add: example_world_def)
  obtain t socket' client'' pr' where h: "handle example_world (Client_ping 7) (15000, s, client', []) = ok (t, socket', client'', pr')"
    using timers_work [OF inv, of "Client_ping 7" example_world] due held
    by (auto simp: lib example_libs_ok example_cipher_ok simp del: handle.simps)
  have k: "program_run example_world (online_step example_world) (15000, s, client', []) [Client_ping 7] (t, socket', client'', pr')"
    by (rule program_run_snoc [OF program_run.nil _ h]) (simp_all add: due)
  have ping: "is_message 3 (lib_ping_msg (w_lib example_world) has t)" for has t by (simp add: lib example_libs_ok)
  from conjunct1 [OF keepalive_cadence [OF st r k due ping]] have "ping_due client'' = Some 45000" by (simp add: Let_def)
  with st r k show ?thesis by blast
qed


theorem login_sequence_witness:
  "\<exists>socket client socket' client'. starts (socket :: bytes list tcp_ssl) (client :: (unit, unit) mumble_client)
    \<and> mumble_connect_cb_adapter example_lib (0, [1, 2], 2) 0 7 True 0 (socket, client, ()) = ok (socket', client', ())
    \<and> ping_due client' = Some 15000"
proof -
  obtain socket :: "bytes list tcp_ssl" and client :: "(unit, unit) mumble_client" where st: "starts socket client"
    and c: "client_ok client" "0 \<in> set (cl_nick client)" "tcp_room socket"
    by (rule example_run) 
  have inv: "program_inv (0, socket, client, [])" using starts_inv [OF st] by simp
  let ?sends = "\<lambda>f. mumble_uv_ssl_write (lib_ssl example_lib) (lib_try_write example_lib) (frame_bytes f)"
  have packed: "pb_packed (lib_version_msg example_lib b v) = []" "pb_packed (lib_authenticate_msg example_lib n b b') = []" for b v n b'
    by (simp_all add: example_lib_def)
  have room: "tcp_room (socket\<lparr>ts_sent := x\<rparr>)" for x using c(3) by (simp add: tcp_room_def)
  have "\<exists>sent. for_each ?sends [(0, []), (2, []), (3, [])] socket = Inr (socket\<lparr>ts_sent := sent\<rparr>)"
    using room c(3) inv by (simp add: example_write frame_bytes_def program_inv_def) (rule exI, rule refl)
  then obtain sent where "for_each ?sends [(0, []), (2, []), (3, [])] socket = Inr (socket\<lparr>ts_sent := sent\<rparr>)" ..
  then obtain client' where "mumble_connect_cb_adapter example_lib (0, [1, 2], 2) 0 7 True 0 (socket, client, ())
      = ok (socket\<lparr>ts_sent := sent\<rparr>, client', ())" "ping_due client' = Some 15000"
    using login_sequence [OF c(1) _ c(2) example_libs_ok(6,7,2), where peername = "(0, [1, 2], 2)" and clock = 0 and now = 7
      and malloc_ok = True and status = 0 and socket = socket and u = "()"]
    by (auto simp: Let_def packed example_libs_ok simp del: for_each.simps)
  with st show ?thesis by blast
qed

theorem program_falls_back_witness:
  "\<exists>socket client s es t socket' client' pr'. starts (socket :: bytes list tcp_ssl) (client :: (unit, unit) mumble_client)
    \<and> program_run example_world any_step (0, socket, client, []) [Tcp_read 6 [0, 15, 0, 0, 0, 0] 0] s
    \<and> pg_period_due (pinger_of (fst (snd (snd s)))) = Some 0
    \<and> program_run example_world silent_step s es (t, socket', client', pr') \<and> 6000 < t
    \<and> \<not> mumble_audio_is_udp (cl_audio client')"
proof -
  obtain socket :: "bytes list tcp_ssl" and client :: "(unit, unit) mumble_client" where st: "starts socket client"
    and c: "ts_ssl socket = []" "ts_has_cb socket" "ts_creq socket = Some True" "cl_decoder client = example_frames []"
    "cl_has_on_message client" "pinger_of client = example_ping" "cl_ping_timer client = None"
    by (rule example_start) blast
  have inv: "program_inv (0, socket, client, [])" "held (ts_pool socket) = {}" using starts_inv [OF st] by simp_all
  obtain audio decoder where h: "handle example_world (Tcp_read 6 [0, 15, 0, 0, 0, 0] 0) (0, socket, client, []) =
      ok (0, socket, client\<lparr>cl_audio := audio, cl_decoder := decoder\<rparr>, [])"
    and p: "au_pinger audio = mumble_udp_ping_start 0 (pinger_of client)"
    by (rule example_keys [OF inv c(1-5)])
  let ?c = "client\<lparr>cl_audio := audio, cl_decoder := decoder\<rparr>"
  have r: "program_run example_world any_step (0, socket, client, []) [Tcp_read 6 [0, 15, 0, 0, 0, 0] 0] (0, socket, ?c, [])"
    by (rule program_run_snoc [OF program_run.nil _ h]) simp_all
  then have "program_inv (0, socket, ?c, [])" using run_inv inv by blast
  then have udp: "wf_udp (au_udp audio)" "pool_room (au_udp audio)"
    using udp_idle_room by (simp_all add: program_inv_def client_ok_def audio_ok_def udp_idle_def)
  let ?p = "mumble_udp_ping_start 0 example_ping"
  have ping: "wf_ping ?p" "pg_period_due ?p = Some 0" "pg_reply_due ?p = None" "pg_period ?p = 5000"
    by (simp_all add: wf_ping_def mumble_udp_ping_start_def example_ping_def)
  obtain k1 p1 c1 where r1: "ping_run example_cipher (\<lambda>_. 1) (0, ?p, au_udp audio)
      ([] @ [Period_fires k1, Tick, Reply_late, Tick]) (0 + pg_period ?p, p1, c1)"
    and w1: "wf_ping p1" "wf_udp c1" "pool_room c1" "pg_period_due p1 = Some (0 + pg_period ?p)" "pg_reply_due p1 = None"
      "pg_period p1 = pg_period ?p"
    using silent_round [where E = example_cipher and try_send = "\<lambda>_. 1", OF ping(1) udp ping(2,3) _ _ ping_run.nil]
      example_cipher_ok(1) by fastforce
  obtain k2 p2 c2 where r2: "ping_run example_cipher (\<lambda>_. 1) (0, ?p, au_udp audio)
      (([] @ [Period_fires k1, Tick, Reply_late, Tick]) @ [Period_fires k2, Tick, Reply_late, Tick])
      (0 + pg_period ?p + pg_period p1, p2, c2)"
    using silent_round [where E = example_cipher and try_send = "\<lambda>_. 1", OF w1(1-5) _ _ r1] example_cipher_ok(1)
    by fastforce
  have lib: "lib_aes (w_lib example_world) = example_cipher" "lib_try_send (w_lib example_world) = (\<lambda>_. 1)"
    by (simp_all add: example_world_def example_lib_def)
  have "0 + pg_period ?p + pg_period p1 = 10000" using ping(4) w1(6) by simp
  then obtain es client' where run: "program_run example_world silent_step (0, socket, ?c, []) es (10000, socket, client', [])"
    using pinger_run [of example_world 0 ?p "au_udp audio" _ 10000 p2 c2 ?c socket "[]", unfolded lib, OF r2 [simplified \<open>_ = 10000\<close>]] c(6,7) p
    by (auto simp: silent_def)
  from program_falls_back [OF st r run] st r run p show ?thesis
    by (intro exI conjI) (assumption | simp add: mumble_udp_ping_start_def)+
qed

end
