(* ===== verification/Program_Calls.thy ===== *)
theory Program_Calls
  imports Event_Loop Voice_Call
begin

text \<open>
  Two running programs in one channel: a text message to one of them, and what the other one hears.
\<close>

section \<open>Hearing a call is a run of the program\<close>

lemma pcm_bytes_length [simp]: "length (pcm_bytes samples) = 2 * length samples"
  by (induction samples) (simp_all add: pcm_bytes_def)

definition heard_line :: "audio_packet \<Rightarrow> printed" where
  "heard_line audio = Audio_line (ap_source audio) (ap_target audio) (ap_sequence audio) (ap_codec audio) (ap_samples audio)"

lemma hear_run:
  assumes "hear (lib_aes (w_lib W)) (w_decipher W) (lib_opus_decode (w_lib W)) (lib_nb_samples (w_lib W)) (lib_malloc_ok (w_lib W))
      packets (cl_audio client) = ok (audio, heard)"
    and "cl_has_on_audio client"
  shows "program_run W any_step (t, socket, client, out) (map Datagram packets)
    (t, socket, client\<lparr>cl_audio := audio\<rparr>, out @ map heard_line heard)"
  using assms
proof (induction packets arbitrary: client out heard)
  case Nil
  then have "client\<lparr>cl_audio := audio\<rparr> = client" and "heard = []" by (cases client; simp)+
  then show ?case by (simp add: program_run.nil)
next
  case (Cons p ps)
  from Cons.prems(1) obtain b decoded later where
    one: "audio_udp_receive (lib_aes (w_lib W)) (w_decipher W) (lib_opus_decode (w_lib W)) (lib_nb_samples (w_lib W)) (lib_malloc_ok (w_lib W))
      p (cl_audio client) = ok (b, decoded)"
    and rest: "hear (lib_aes (w_lib W)) (w_decipher W) (lib_opus_decode (w_lib W)) (lib_nb_samples (w_lib W)) (lib_malloc_ok (w_lib W))
      ps b = ok (audio, later)"
    and heard: "heard = (case decoded of None \<Rightarrow> later | Some voice \<Rightarrow> voice # later)"
    by (auto simp: cbind_ok_iff)
  let ?lines = "case decoded of None \<Rightarrow> [] | Some voice \<Rightarrow> [heard_line voice]"
  have "handle W (Datagram p) (t, socket, client, out) = ok (t, socket, client\<lparr>cl_audio := b\<rparr>, out @ ?lines)"
    using one Cons.prems(2) by (cases decoded) (simp_all add: mumble_on_audio_def on_audio_def heard_line_def)
  then have "program_run W any_step (t, socket, client, out) ([] @ [Datagram p]) (t, socket, client\<lparr>cl_audio := b\<rparr>, out @ ?lines)"
    by (intro program_run.snoc [OF program_run.nil]) simp_all
  moreover have "program_run W any_step (t, socket, client\<lparr>cl_audio := b\<rparr>, out @ ?lines) (map Datagram ps)
    (t, socket, client\<lparr>cl_audio := audio\<rparr>, (out @ ?lines) @ map heard_line later)"
    using Cons.IH [of "client\<lparr>cl_audio := b\<rparr>" later "out @ ?lines"] rest Cons.prems(2) by simp
  ultimately show ?case
    using program_run_append [where a = "(t, socket, client, out)" and es = "[Datagram p]"] heard by (cases decoded) fastforce+
qed

lemma voices_lines:
  assumes "\<forall>p \<in> set ps. \<forall>d. fst (od d p (2 * nb p)) = 480"
  shows "map heard_line (voices od nb source target q d ps)
    = map (\<lambda>i. Audio_line source (target AND 0x1F) (ucast (q + of_nat i)) 4 480) [0..<length ps]"
  using arg_cong [OF voices_numbered [where od = od and nb = nb and q = q and source = source and target = target and d = d, OF assms],
      where f = "map (\<lambda>(s, t, q, c, n). Audio_line s t q c n)"]
  by (simp add: heard_line_def [abs_def] comp_def)

section \<open>Property\<close>

text \<open>
  C4: A text message is answered, and the answer is heard. A program that uses UDP prints the message and sends its tone, two seconds of 300 Hz at
  48000 samples per second: the frames of exactly these samples (behind those left over from before), as opus encodes them, one datagram each,
  and nothing else. When a server that relays has passed them on, another running program prints one line per frame, 200 of them (one
  more when enough samples were left over), with the number of the sender, the consecutive sequence numbers, opus as the
  codec and 480 samples, and goes on running. Opus, server and packets are as for a call.
\<close>

theorem text_message_is_heard:
  fixes W1 :: "('s, 'd1, 'e1, 'm) world" and W2 :: "('s2, 'd, 'e, 'm2) world" and c1 :: "('d1, 'e1) mumble_client" and c2 :: "('d, 'e) mumble_client"
  assumes "opus_documented (lib_opus_encode (w_lib W1)) (lib_opus_decode (w_lib W2)) (lib_nb_samples (w_lib W2))"
    and "program_encoder (au_encoder (cl_audio c1))" and "mumble_audio_is_udp (cl_audio c1)" and "w_malloc_ok W1"
    and "samples = map (\<lambda>i. word_of_int \<lfloor>(w_sine W1 48000 300 i + 1) * 32767\<rfloor>) [0..<2 * 48000]"
    and "ps = voice_payloads (lib_opus_encode (w_lib W1)) (au_encoder (cl_audio c1)) (pcm_bytes samples)"
    and "\<forall>p \<in> set ps. length p \<le> 478"
    and "q = ae_sequence (au_encoder (cl_audio c1))" and "unat q \<le> 2 ^ 30"
    and "ms = sent_packets 0 q ps" and "\<forall>m \<in> set ms. length m mod 16 \<noteq> 0 \<and> acceptable source m"
    and "sends_with k1 n1 (au_udp (cl_audio c1))" and "listens k2 n2 (cl_audio c2)" and "cl_has_on_audio c2"
    and "relays (lib_aes (w_lib W1)) server source (k1, n1) (k2, n2)"
    and "\<not> bit source 31" and "ad_sequence (au_decoder (cl_audio c2)) \<le> q"
    and "lib_aes (w_lib W2) = lib_aes (w_lib W1)"
    and "\<And>k. lib_malloc_ok (w_lib W2) k" and "\<And>p. 0 < lib_try_send (w_lib W1) p"
    and "\<And>k b. length b = 16 \<Longrightarrow> length (lib_aes (w_lib W1) k b) = 16"
    and "\<And>k b. length b = 16 \<Longrightarrow> length (w_decipher W2 k b) = 16"
    and "\<And>k b. length b = 16 \<Longrightarrow> w_decipher W2 k (lib_aes (w_lib W1) k b) = b"
  shows "\<exists>c1' c2'. let sent = datagrams (lib_aes (w_lib W1)) k1 n1 ms in
    on_message (w_lib W1) (w_malloc_ok W1) (w_sine W1) (w_version_of W1) (w_text_of W1) 11 (Some msg) (socket1, c1, out1)
      = ok (socket1, c1', out1 @ [Text_line (fst (w_text_of W1 msg)) (snd (w_text_of W1 msg))])
    \<and> cl_datagrams c1' = cl_datagrams c1 @ sent
    \<and> length ps = (b_used (oe_buffer (ae_opus (au_encoder (cl_audio c1)))) + 192000) div 960
    \<and> program_run W2 any_step (t, socket2, c2, out2) (map Datagram (server sent))
        (t, socket2, c2', out2 @ map (\<lambda>i. Audio_line source 0 (ucast (q + of_nat i)) 4 480) [0..<length ps])"
proof -
  let ?enc = "au_encoder (cl_audio c1)" and ?E = "lib_aes (w_lib W1)" and ?pcm = "pcm_bytes samples"
  have samples: "samples = map (\<lambda>i. bit_sample (w_sine W1 48000 300 i)) [0..<2 * 48000]" unfolding assms(5) bit_sample_def by simp
  then have len: "length samples = 2 * 48000" by (simp only: length_map length_upt diff_zero)
  then have pcm: "length ?pcm = 2 * (2 * 48000)" by simp
  have tone: "tone (w_malloc_ok W1) (w_sine W1) 2 48000 300 = Inr samples"
    using assms(4) by (simp only: tone_def Let_def samples simp_thms if_False)
  have count: "length ps = (b_used (oe_buffer (ae_opus ?enc)) + 192000) div 960"
    using voice_payloads_count [OF assms(2)] pcm unfolding assms(6) by simp
  have "b_used (oe_buffer (ae_opus ?enc)) < 960"
    using assms(2) by (simp add: program_encoder_def wf_audio_encoder_def wf_opus_encoder_def wf_buffer_def)
  then have "length ps \<le> 200" unfolding count by (simp add: div_le_mono [of _ "959 + 192000" 960, simplified] less_Suc_eq_le)
  then have small: "unat q + length ps \<le> 2 ^ 31" using assms(9) by simp
  have target: "ms = sent_packets (ucast (0 :: i32)) q ps" using assms(10) by simp
  obtain a' b' where c:
    "mumble_audio_send (lib_opus_encode (w_lib W1)) ?E (lib_try_send (w_lib W1)) (lib_ssl (w_lib W1)) (lib_try_write (w_lib W1))
      (lib_garbage (w_lib W1)) 0 ?pcm (2 * 48000) (cl_audio c1) socket1 (cl_datagrams c1)
      = ok (a', socket1, cl_datagrams c1 @ datagrams ?E k1 n1 ms)"
    "hear ?E (w_decipher W2) (lib_opus_decode (w_lib W2)) (lib_nb_samples (w_lib W2)) (lib_malloc_ok (w_lib W2))
        (server (datagrams ?E k1 n1 ms)) (cl_audio c2)
      = ok (b', voices (lib_opus_decode (w_lib W2)) (lib_nb_samples (w_lib W2)) source (ucast (0 :: i32)) q (ad_opus (au_decoder (cl_audio c2))) ps)"
    using call_heard [where E = ?E and D = "w_decipher W2" and try_send = "lib_try_send (w_lib W1)" and mok = "lib_malloc_ok (w_lib W2)"
        and target = 0 and ssl = "lib_ssl (w_lib W1)" and try_write = "lib_try_write (w_lib W1)" and pos = "lib_garbage (w_lib W1)"
        and tcp = socket1 and sent = "cl_datagrams c1", OF assms(1,2,3) pcm assms(6,7,8) small target assms(11-13,15-17,19-23)]
    by blast
  have message: "on_message (w_lib W1) (w_malloc_ok W1) (w_sine W1) (w_version_of W1) (w_text_of W1) 11 (Some msg) (socket1, c1, out1)
      = ok (socket1, c1\<lparr>cl_audio := a', cl_datagrams := cl_datagrams c1 @ datagrams ?E k1 n1 ms\<rparr>,
          out1 @ [Text_line (fst (w_text_of W1 msg)) (snd (w_text_of W1 msg))])"
    using c(1) by (simp add: on_message_def send_tone_def mumble_client_write_audio_def tone split_def Let_def)
  have accepted: "\<forall>p \<in> set ps. \<forall>d. fst (lib_opus_decode (w_lib W2) d p (2 * lib_nb_samples (w_lib W2) p)) = 480"
    using opus_payloads_ok [OF assms(1) opus_frames_lengths [OF assms(2)]] assms(6) unfolding voice_payloads_def by blast
  have "program_run W2 any_step (t, socket2, c2, out2) (map Datagram (server (datagrams ?E k1 n1 ms)))
        (t, socket2, c2\<lparr>cl_audio := b'\<rparr>, out2 @ map (\<lambda>i. Audio_line source 0 (ucast (q + of_nat i)) 4 480) [0..<length ps])"
    using hear_run [of W2 "server (datagrams ?E k1 n1 ms)" c2 b' _ t socket2 out2] c(2) assms(14,18) voices_lines [of ps "lib_opus_decode (w_lib W2)" "lib_nb_samples (w_lib W2)" source "ucast (0 :: i32)" q, OF accepted] by simp
  with message count show ?thesis
    unfolding Let_def
    by (intro exI [of _ "c1\<lparr>cl_audio := a', cl_datagrams := cl_datagrams c1 @ datagrams ?E k1 n1 ms\<rparr>"]
        exI [of _ "c2\<lparr>cl_audio := b'\<rparr>"]) simp
qed

section \<open>Example\<close>

definition example_voice_world :: "(bytes list, unit, unit, bytes) world" where
  "example_voice_world = \<lparr>w_lib = example_lib\<lparr>lib_opus_encode := example_voice\<rparr>, w_decipher = example_decipher, w_malloc_ok = True,
     w_sine = (\<lambda>rate f i. 0), w_version_of = (\<lambda>m. (0, [])), w_text_of = (\<lambda>m. (5, ''hi'')), w_peername = (0, [], 0)\<rparr>"

definition example_tone :: "bytes list" where
  "example_tone = voice_payloads example_voice example_voice_encoder (pcm_bytes (map (\<lambda>i. word_of_int \<lfloor>(0 + 1) * (32767 :: real)\<rfloor>) [0..<2 * 48000]))"

theorem text_message_is_heard_witness:
  "\<exists>c1' c2'. let sent = datagrams example_cipher zero_block zero_block (sent_packets 0 9 example_tone) in
    on_message (w_lib example_voice_world) True (\<lambda>rate f i. 0) (\<lambda>m. (0, [])) (\<lambda>m. (5, ''hi'')) 11 (Some [])
        (example_socket [], (example_client 0 [])\<lparr>cl_audio := example_caller\<rparr>, [])
      = ok (example_socket [], c1', [Text_line 5 ''hi''])
    \<and> cl_datagrams c1' = sent
    \<and> program_run example_voice_world any_step (0, example_socket [], (example_client 0 [])\<lparr>cl_audio := example_audio False\<rparr>, [])
        (map Datagram (example_server sent)) (0, example_socket [], c2', map (\<lambda>i. Audio_line 7 0 (ucast (9 + of_nat i :: u32)) 4 480) [0..<200])"
proof -
  let ?W = example_voice_world and ?c1 = "(example_client 0 [])\<lparr>cl_audio := example_caller\<rparr>"
    and ?c2 = "(example_client 0 [])\<lparr>cl_audio := example_audio False\<rparr>"
  have seven: "\<not> bit (7 :: u64) 31" by (simp add: bit_numeral_rec)
  have lib: "lib_opus_encode (w_lib ?W) = example_voice" "lib_opus_decode (w_lib ?W) = example_samples" "lib_nb_samples (w_lib ?W) = (\<lambda>_. 480)"
    "lib_aes (w_lib ?W) = example_cipher" "w_decipher ?W = example_decipher" "lib_malloc_ok (w_lib ?W) = (\<lambda>_. True)"
    "lib_try_send (w_lib ?W) = (\<lambda>_. 1)" "w_malloc_ok ?W" "w_sine ?W = (\<lambda>rate f i. 0)" "w_version_of ?W = (\<lambda>m. (0, []))" "w_text_of ?W = (\<lambda>m. (5, ''hi''))"
    by (simp_all add: example_voice_world_def example_lib_def)
  have enc: "au_encoder (cl_audio ?c1) = example_voice_encoder" "mumble_audio_is_udp (cl_audio ?c1)" "ae_sequence example_voice_encoder = 9"
    "b_used (oe_buffer (ae_opus example_voice_encoder)) = 0" "ad_sequence (au_decoder (cl_audio ?c2)) = 3" "cl_has_on_audio ?c2" "cl_datagrams ?c1 = []"
    by (simp_all add: example_caller_def example_audio_def example_decoder_def mumble_audio_is_udp_def example_voice_encoder_def example_client_def)
  have ends: "au_encoder example_caller = example_voice_encoder" "mumble_audio_is_udp example_caller"
    "ad_sequence (au_decoder (example_audio False)) = 3"
    using enc by simp_all
  have five: "\<forall>p \<in> set example_tone. length p = 5"
    using opus_frames_lengths [OF example_voice_ok(2)] unfolding example_tone_def voice_payloads_def
    by (intro example_payloads_five) auto
  have count: "length example_tone = 200"
    using voice_payloads_count [OF example_voice_ok(2), of example_voice] enc(4) by (simp add: example_tone_def)
  have ok: "\<forall>m \<in> set (sent_packets 0 9 example_tone). length m mod 16 \<noteq> 0 \<and> acceptable 7 m"
    using example_acceptable [of _ 0 9 example_tone] five count by simp
  have "\<exists>c1' c2'. let sent = datagrams (lib_aes (w_lib ?W)) zero_block zero_block (sent_packets 0 9 example_tone) in
    on_message (w_lib ?W) (w_malloc_ok ?W) (w_sine ?W) (w_version_of ?W) (w_text_of ?W) 11 (Some []) (example_socket [], ?c1, [])
      = ok (example_socket [], c1', [] @ [Text_line (fst (w_text_of ?W [])) (snd (w_text_of ?W []))])
    \<and> cl_datagrams c1' = cl_datagrams ?c1 @ sent
    \<and> length example_tone = (b_used (oe_buffer (ae_opus (au_encoder (cl_audio ?c1)))) + 192000) div 960
    \<and> program_run ?W any_step (0, example_socket [], ?c2, []) (map Datagram (example_server sent))
        (0, example_socket [], c2', [] @ map (\<lambda>i. Audio_line 7 0 (ucast (9 + of_nat i :: u32)) 4 480) [0..<length example_tone])"
  proof (rule text_message_is_heard [where ?W1.0 = ?W and ?W2.0 = ?W and ?c1.0 = ?c1 and ?c2.0 = ?c2 and ps = example_tone and q = 9 and source = 7
        and server = example_server, OF _ _ _ _ refl _ _ _ _ refl ok])
    show "example_tone = voice_payloads (lib_opus_encode (w_lib ?W)) (au_encoder (cl_audio ?c1))
      (pcm_bytes (map (\<lambda>i. word_of_int \<lfloor>(w_sine ?W 48000 300 i + 1) * 32767\<rfloor>) [0..<2 * 48000]))"
      unfolding lib enc example_tone_def ..
    show "relays (lib_aes (w_lib ?W)) example_server 7 (zero_block, zero_block) (zero_block, zero_block)"
      unfolding lib by (rule ocb2_server_relays) (simp_all add: example_cipher_ok)
  qed (use five example_ready seven in \<open>simp_all add: lib enc ends example_voice_ok example_cipher_ok\<close>)
  then show ?thesis unfolding Let_def enc lib count append_Nil fst_conv snd_conv by (auto simp: lib(8))
qed

end
